(* ===== verification/Soe_Prelude.thy ===== *)
theory Soe_Prelude
  imports Main "HOL-Library.Word" "HOL-Library.Monad_Syntax" "HOL-Library.Sublist"
begin

unbundle bit_operations_syntax

text \<open>
  Shared vocabulary of the development: the machine integer types of the Rust source, the
  big-endian byte conversions of its standard library, time, and the two failure effects.

  \<^item> A Rust \<open>Result\<close> is a sum, \<open>Inl\<close> holding the error; \<open>?\<close> is
    \<open>and_then\<close>.
  \<^item> A panic is \<open>None\<close> of an option; sequencing is the option monad. Arithmetic on
    \<open>usize\<close> that would go below zero is a panic, as with overflow checks on.
  \<^item> An \<open>Instant\<close> and a \<open>Duration\<close> are nanoseconds as natural numbers;
    \<open>Instant::duration_since\<close> saturates at zero, which is subtraction on \<open>nat\<close>.
\<close>

type_synonym u8 = "8 word"
type_synonym u16 = "16 word"
type_synonym u32 = "32 word"
type_synonym u64 = "64 word"
type_synonym bytes = "u8 list"
type_synonym instant = nat
type_synonym duration = nat

abbreviation (input) duration_since :: "instant \<Rightarrow> instant \<Rightarrow> duration" where
  "duration_since now earlier \<equiv> now - earlier"

definition from_millis :: "nat \<Rightarrow> duration" where
  "from_millis n = n * 1000000"

definition from_secs :: "nat \<Rightarrow> duration" where
  "from_secs n = n * 1000000000"

named_theorems codec_simps \<open>evaluation of readers and writers on concrete layouts\<close>
named_theorems frame_simps \<open>fields an operation leaves unchanged\<close>

section \<open>Failure\<close>

text \<open>The \<open>?\<close> operator on a \<open>Result\<close>.\<close>

primrec and_then :: "'e + 'a \<Rightarrow> ('a \<Rightarrow> 'e + 'b) \<Rightarrow> 'e + 'b" where
  "and_then (Inl e) f = Inl e"
| "and_then (Inr x) f = f x"

lemma and_then_Inr [simp]: "and_then m Inr = m"
  by (cases m) simp_all

lemma and_then_assoc:
  "and_then (and_then m f) g = and_then m (\<lambda>x. and_then (f x) g)"
  by (cases m) simp_all

lemma and_then_eq_Inr:
  "and_then m f = Inr y \<longleftrightarrow> (\<exists>x. m = Inr x \<and> f x = Inr y)"
  by (cases m) simp_all

text \<open>Slice indexing \<open>xs[i]\<close>: out of range is a panic.\<close>

definition index :: "'a list \<Rightarrow> nat \<Rightarrow> 'a option" where
  "index xs i = (if i < length xs then Some (xs ! i) else None)"

text \<open>Subtraction of unsigned sizes: below zero is a panic.\<close>

definition usize_sub :: "nat \<Rightarrow> nat \<Rightarrow> nat option" where
  "usize_sub a b = (if b \<le> a then Some (a - b) else None)"

text \<open>\<open>Result::expect\<close>: an error is a panic.\<close>

primrec expect :: "'e + 'a \<Rightarrow> 'a option" where
  "expect (Inl e) = None"
| "expect (Inr x) = Some x"

text \<open>The suffix slice \<open>xs[n..]\<close> and the prefix slice \<open>xs[..n]\<close>.\<close>

definition slice_from :: "'a list \<Rightarrow> nat \<Rightarrow> 'a list option" where
  "slice_from xs n = (if n \<le> length xs then Some (drop n xs) else None)"

definition slice_to :: "'a list \<Rightarrow> nat \<Rightarrow> 'a list option" where
  "slice_to xs n = (if n \<le> length xs then Some (take n xs) else None)"

lemma index_Some [simp]: "i < length xs \<Longrightarrow> index xs i = Some (xs ! i)"
  by (simp add: index_def)

lemma usize_sub_Some [simp]: "b \<le> a \<Longrightarrow> usize_sub a b = Some (a - b)"
  by (simp add: usize_sub_def)

lemma usize_sub_None [simp]: "a < b \<Longrightarrow> usize_sub a b = None"
  by (simp add: usize_sub_def)

lemma slice_from_Some [simp]: "n \<le> length xs \<Longrightarrow> slice_from xs n = Some (drop n xs)"
  by (simp add: slice_from_def)

lemma slice_to_Some [simp]: "n \<le> length xs \<Longrightarrow> slice_to xs n = Some (take n xs)"
  by (simp add: slice_to_def)

lemma bind_eq_Some_iff:
  "Option.bind m f = Some y \<longleftrightarrow> (\<exists>x. m = Some x \<and> f x = Some y)"
  by (cases m) simp_all

section \<open>Big-endian bytes\<close>

definition be16 :: "u16 \<Rightarrow> bytes" where
  "be16 v = [ucast (drop_bit 8 v), ucast v]"

definition of_be16 :: "u8 \<Rightarrow> u8 \<Rightarrow> u16" where
  "of_be16 a b = push_bit 8 (ucast a) OR ucast b"

definition be32 :: "u32 \<Rightarrow> bytes" where
  "be32 v = [ucast (drop_bit 24 v), ucast (drop_bit 16 v), ucast (drop_bit 8 v), ucast v]"

definition of_be32 :: "u8 \<Rightarrow> u8 \<Rightarrow> u8 \<Rightarrow> u8 \<Rightarrow> u32" where
  "of_be32 a b c d =
     push_bit 24 (ucast a) OR push_bit 16 (ucast b) OR push_bit 8 (ucast c) OR ucast d"

definition be64 :: "u64 \<Rightarrow> bytes" where
  "be64 v = be32 (ucast (drop_bit 32 v)) @ be32 (ucast v)"

definition of_be64 :: "u32 \<Rightarrow> u32 \<Rightarrow> u64" where
  "of_be64 hi lo = push_bit 32 (ucast hi) OR ucast lo"

lemma length_be16 [simp]: "length (be16 v) = 2"
  by (simp add: be16_def)

lemma length_be32 [simp]: "length (be32 v) = 4"
  by (simp add: be32_def)

lemma length_be64 [simp]: "length (be64 v) = 8"
  by (simp add: be64_def)

lemma bit_u8_ge [simp]: "8 \<le> n \<Longrightarrow> \<not> bit (w :: u8) n"
  by (auto dest: bit_imp_le_length)

lemma of_be16_be16 [simp]: "of_be16 (ucast (drop_bit 8 v)) (ucast v) = v"
  unfolding of_be16_def
  by (rule bit_word_eqI) (auto simp: bit_simps)

lemma of_be32_be32 [simp]:
  "of_be32 (ucast (drop_bit 24 v)) (ucast (drop_bit 16 v)) (ucast (drop_bit 8 v)) (ucast v) = v"
  unfolding of_be32_def
  by (rule bit_word_eqI) (auto simp: bit_simps not_less, (rule ccontr, simp)+)

lemma of_be64_parts [simp]: "of_be64 (ucast (drop_bit 32 v)) (ucast v) = v"
  unfolding of_be64_def
  by (rule bit_word_eqI) (auto simp: bit_simps)

lemma be16_of_be16 [simp]: "be16 (of_be16 a b) = [a, b]"
  unfolding of_be16_def be16_def
  by (auto intro!: bit_word_eqI simp: bit_simps)

lemma be32_of_be32 [simp]: "be32 (of_be32 a b c d) = [a, b, c, d]"
  unfolding of_be32_def be32_def
  by (auto intro!: bit_word_eqI simp: bit_simps)

lemma be16_inject [simp]: "be16 v = be16 w \<longleftrightarrow> v = w"
proof
  assume "be16 v = be16 w"
  then have "of_be16 (be16 v ! 0) (be16 v ! 1) = of_be16 (be16 w ! 0) (be16 w ! 1)" by simp
  then show "v = w" by (simp add: be16_def)
qed simp

lemma be32_inject [simp]: "be32 v = be32 w \<longleftrightarrow> v = w"
proof
  assume "be32 v = be32 w"
  then have "of_be32 (be32 v ! 0) (be32 v ! 1) (be32 v ! 2) (be32 v ! 3) =
    of_be32 (be32 w ! 0) (be32 w ! 1) (be32 w ! 2) (be32 w ! 3)" by simp
  then show "v = w" by (simp add: be32_def nth_Cons')
qed simp

lemma unat_u8_less [simp]: "unat (b :: u8) < 256"
  using unsigned_less [of b, where 'a = nat] by simp

lemma unat_u16_less [simp]: "unat (b :: u16) < 65536"
  using unsigned_less [of b, where 'a = nat] by simp

lemma unat_u32_less [simp]: "unat (b :: u32) < 4294967296"
  using unsigned_less [of b, where 'a = nat] by simp

section \<open>Lists\<close>

lemma take_append_exact [simp]: "n = length xs \<Longrightarrow> take n (xs @ ys) = xs"
  by simp

lemma drop_append_exact [simp]: "n = length xs \<Longrightarrow> drop n (xs @ ys) = ys"
  by simp

lemma length_eq_2_conv: "length xs = 2 \<longleftrightarrow> (\<exists>a b. xs = [a, b])"
  by (auto simp: numeral_2_eq_2 length_Suc_conv)

lemma length_ge_2_conv: "2 \<le> length xs \<longleftrightarrow> (\<exists>a b ys. xs = a # b # ys)"
  by (cases xs; cases "tl xs") auto

lemma prefix_map_concat: "prefix xs ys \<Longrightarrow> prefix (concat xs) (concat ys)"
  by (auto simp: prefix_def)

lemma take_eq_prefix: "prefix xs ys \<Longrightarrow> xs = take (length xs) ys"
  by (auto simp: prefix_def)

end
