(* ===== verification/Soe_Rc4.thy ===== *)
theory Soe_Rc4
  imports Soe_Prelude "HOL-Library.Multiset"
begin

text \<open>
  The RC4 stream cipher (\<open>src/rc4.rs\<close>): key scheduling, the keystream step and the
  transforms over buffers. The locale \<open>stream_cipher\<close> states what the reliable channels
  need of a cipher; the model's transform interprets it.
\<close>

definition KEY_STATE_LENGTH :: nat where "KEY_STATE_LENGTH = 256"

record rc4_key_state =
  rc_state :: bytes
  rc_index1 :: nat
  rc_index2 :: nat

text \<open>\<open>slice::swap\<close>.\<close>

definition swap :: "'a list \<Rightarrow> nat \<Rightarrow> nat \<Rightarrow> 'a list" where
  "swap xs i j = xs[i := xs ! j, j := xs ! i]"

definition schedule_step :: "bytes \<Rightarrow> nat \<Rightarrow> bytes \<times> nat \<times> nat \<Rightarrow> bytes \<times> nat \<times> nat" where
  "schedule_step key i = (\<lambda>(state, swap_index1, swap_index2).
     let swap_index2 =
       (swap_index2 + unat (state ! i) + unat (key ! swap_index1)) mod KEY_STATE_LENGTH in
     (swap state i swap_index2, (swap_index1 + 1) mod length key, swap_index2))"

text \<open>An empty or overlong key is a panic.\<close>

definition rc4_new :: "bytes \<Rightarrow> rc4_key_state option" where
  "rc4_new key =
     (if key = [] \<or> KEY_STATE_LENGTH < length key then None
      else
        let state = map of_nat [0..<KEY_STATE_LENGTH];
            (state, _, _) = fold (schedule_step key) [0..<KEY_STATE_LENGTH] (state, 0, 0) in
        Some \<lparr>rc_state = state, rc_index1 = 0, rc_index2 = 0\<rparr>)"

definition rc4_increment :: "rc4_key_state \<Rightarrow> rc4_key_state" where
  "rc4_increment ks =
     (let index1 = (rc_index1 ks + 1) mod KEY_STATE_LENGTH;
          index2 = (rc_index2 ks + unat (rc_state ks ! index1)) mod KEY_STATE_LENGTH in
      \<lparr>rc_state = swap (rc_state ks) index1 index2, rc_index1 = index1, rc_index2 = index2\<rparr>)"

text \<open>The keystream byte after an increment.\<close>

definition rc4_key_byte :: "rc4_key_state \<Rightarrow> u8" where
  "rc4_key_byte ks =
     (let xor_index = (unat (rc_state ks ! rc_index1 ks) + unat (rc_state ks ! rc_index2 ks))
        mod KEY_STATE_LENGTH in
      rc_state ks ! xor_index)"

fun rc4_transform_in_place :: "rc4_key_state \<Rightarrow> bytes \<Rightarrow> bytes \<times> rc4_key_state" where
  "rc4_transform_in_place ks [] = ([], ks)"
| "rc4_transform_in_place ks (b # bs) =
     (let ks = rc4_increment ks; (out, ks') = rc4_transform_in_place ks bs in
      ((b XOR rc4_key_byte ks) # out, ks'))"

text \<open>Into a separate output buffer: too short an output is a panic, a longer one keeps
  its tail.\<close>

definition rc4_transform ::
    "rc4_key_state \<Rightarrow> bytes \<Rightarrow> bytes \<Rightarrow> (bytes \<times> rc4_key_state) option" where
  "rc4_transform ks input output =
     (if length output < length input then None
      else let (out, ks') = rc4_transform_in_place ks input in
        Some (out @ drop (length input) output, ks'))"

fun rc4_advance :: "rc4_key_state \<Rightarrow> nat \<Rightarrow> rc4_key_state" where
  "rc4_advance ks 0 = ks"
| "rc4_advance ks (Suc n) = rc4_advance (rc4_increment ks) n"

section \<open>The key state stays a permutation\<close>

definition rc4_ok :: "rc4_key_state \<Rightarrow> bool" where
  "rc4_ok ks \<longleftrightarrow> length (rc_state ks) = 256 \<and> distinct (rc_state ks) \<and>
     rc_index1 ks < 256 \<and> rc_index2 ks < 256"

lemma length_swap [simp]: "length (swap xs i j) = length xs"
  by (simp add: swap_def)

lemma mset_swap_eq: "i < length xs \<Longrightarrow> j < length xs \<Longrightarrow> mset (swap xs i j) = mset xs"
  by (simp add: swap_def mset_swap)

lemma distinct_swap_eq [simp]:
  "i < length xs \<Longrightarrow> j < length xs \<Longrightarrow> distinct (swap xs i j) = distinct xs"
  using mset_swap_eq mset_eq_imp_distinct_iff by blast

lemma rc4_increment_ok: "rc4_ok ks \<Longrightarrow> rc4_ok (rc4_increment ks)"
  by (simp add: rc4_ok_def rc4_increment_def Let_def KEY_STATE_LENGTH_def)

lemma rc4_transform_ok: "rc4_ok ks \<Longrightarrow> rc4_ok (snd (rc4_transform_in_place ks bs))"
  by (induction bs arbitrary: ks) (auto simp: Let_def rc4_increment_ok split_beta)

lemma rc4_advance_ok: "rc4_ok ks \<Longrightarrow> rc4_ok (rc4_advance ks n)"
  by (induction n arbitrary: ks) (simp_all add: rc4_increment_ok)

lemma schedule_step_ok:
  assumes "length st = 256" and "distinct st" and "i < 256"
    and "schedule_step key i (st, s1, s2) = (st', s1', s2')"
  shows "length st' = 256 \<and> distinct st'"
  using assms by (auto simp: schedule_step_def Let_def KEY_STATE_LENGTH_def)

lemma schedule_ok:
  assumes "set is \<subseteq> {..<256}" and "length st = 256" and "distinct st"
    and "fold (schedule_step key) is (st, s1, s2) = (st', s1', s2')"
  shows "length st' = 256 \<and> distinct st'"
  using assms
proof (induction "is" arbitrary: st s1 s2)
  case (Cons i "is")
  obtain st1 t1 t2 where s: "schedule_step key i (st, s1, s2) = (st1, t1, t2)"
    by (metis prod_cases3)
  with Cons.prems have "length st1 = 256 \<and> distinct st1"
    using schedule_step_ok [of st i key s1 s2 st1 t1 t2] by simp
  with Cons.prems s show ?case by (intro Cons.IH [of st1 t1 t2]) simp_all
qed simp

lemma distinct_byte_range: "distinct (map of_nat [0..<256] :: bytes)"
proof -
  have "inj_on (of_nat :: nat \<Rightarrow> u8) (set [0..<256])"
    by (auto simp: inj_on_def word_of_nat_eq_iff take_bit_nat_eq_self)
  then show ?thesis by (simp add: distinct_map)
qed

lemma rc4_new_ok: "rc4_new key = Some ks \<Longrightarrow> rc4_ok ks"
  using schedule_ok [of "[0..<256]" "map of_nat [0..<256]" key 0 0] distinct_byte_range
  by (auto simp: rc4_new_def rc4_ok_def KEY_STATE_LENGTH_def Let_def atLeast0LessThan
      split: if_splits prod.splits)

section \<open>Stream ciphers\<close>

text \<open>Transforming a sequence of buffers with one running state.\<close>

fun stream_map :: "('k \<Rightarrow> bytes \<Rightarrow> bytes \<times> 'k) \<Rightarrow> 'k \<Rightarrow> bytes list \<Rightarrow> bytes list \<times> 'k" where
  "stream_map f k [] = ([], k)"
| "stream_map f k (m # ms) =
     (let (c, k) = f k m; (cs, k) = stream_map f k ms in (c # cs, k))"

locale stream_cipher =
  fixes crypt :: "'k \<Rightarrow> bytes \<Rightarrow> bytes \<times> 'k"
  assumes crypt_Nil: "crypt k [] = ([], k)"
    and crypt_append: "crypt k (xs @ ys) =
      (fst (crypt k xs) @ fst (crypt (snd (crypt k xs)) ys), snd (crypt (snd (crypt k xs)) ys))"
    and crypt_length: "length (fst (crypt k xs)) = length xs"
    and crypt_involutive: "fst (crypt k (fst (crypt k xs))) = xs"
    and crypt_state: "length xs = length ys \<Longrightarrow> snd (crypt k xs) = snd (crypt k ys)"
begin

lemma crypt_twice: "crypt k (fst (crypt k xs)) = (xs, snd (crypt k xs))"
  using crypt_involutive [of k xs] crypt_state [of "fst (crypt k xs)" xs k] crypt_length [of k xs]
  by (simp add: prod_eq_iff)

lemma crypt_inject: "fst (crypt k xs) = fst (crypt k ys) \<longleftrightarrow> xs = ys"
  by (metis crypt_involutive)

lemma crypt_eq_Nil: "fst (crypt k xs) = [] \<longleftrightarrow> xs = []"
  using crypt_length [of k xs] by auto

text \<open>The receiver decrypts buffer by buffer what the sender encrypted, both ending in the
  same state.\<close>

lemma stream_map_twice:
  "stream_map crypt k (fst (stream_map crypt k ms)) = (ms, snd (stream_map crypt k ms))"
proof (induction ms arbitrary: k)
  case (Cons m ms)
  obtain c k1 where c: "crypt k m = (c, k1)" by fastforce
  then have "crypt k c = (m, k1)" using crypt_twice [of k m] by simp
  with c Cons.IH [of k1] show ?case by (simp add: split_beta)
qed simp

text \<open>How a stream is cut into buffers does not matter.\<close>

lemma stream_map_concat:
  "concat (fst (stream_map crypt k ms)) = fst (crypt k (concat ms)) \<and>
   snd (stream_map crypt k ms) = snd (crypt k (concat ms))"
proof (induction ms arbitrary: k)
  case (Cons m ms)
  then show ?case
    by (auto simp: crypt_append Let_def split_beta)
qed (simp add: crypt_Nil)

end

lemma rc4_append:
  "rc4_transform_in_place ks (xs @ ys) =
     (fst (rc4_transform_in_place ks xs) @
        fst (rc4_transform_in_place (snd (rc4_transform_in_place ks xs)) ys),
      snd (rc4_transform_in_place (snd (rc4_transform_in_place ks xs)) ys))"
  by (induction xs arbitrary: ks) (simp_all add: Let_def split_beta)

lemma rc4_length: "length (fst (rc4_transform_in_place ks xs)) = length xs"
  by (induction xs arbitrary: ks) (simp_all add: Let_def split_beta)

lemma rc4_involutive: "fst (rc4_transform_in_place ks (fst (rc4_transform_in_place ks xs))) = xs"
  by (induction xs arbitrary: ks) (simp_all add: Let_def xor.assoc split_beta)

lemma rc4_state_advance: "snd (rc4_transform_in_place ks xs) = rc4_advance ks (length xs)"
  by (induction xs arbitrary: ks) (simp_all add: Let_def split_beta)

interpretation rc4: stream_cipher rc4_transform_in_place
  by unfold_locales
    (simp_all add: rc4_append [symmetric] rc4_length rc4_involutive rc4_state_advance rc4_append)


lemma rc4_new_defined: "key \<noteq> [] \<Longrightarrow> length key \<le> 256 \<Longrightarrow> \<exists>ks. rc4_new key = Some ks"
  by (auto simp: rc4_new_def KEY_STATE_LENGTH_def Let_def split: prod.splits)

section \<open>A reference cipher\<close>

text \<open>RC4 as it is described: a permutation of the numbers below 256, a key schedule of 256 exchanges,
  and a generator that puts out one number for each exchange.\<close>

definition exchange :: "(nat \<Rightarrow> nat) \<Rightarrow> nat \<Rightarrow> nat \<Rightarrow> nat \<Rightarrow> nat" where
  "exchange S i j = S(i := S j, j := S i)"

primrec key_schedule :: "nat list \<Rightarrow> nat \<Rightarrow> (nat \<Rightarrow> nat) \<times> nat" where
  "key_schedule key 0 = (id, 0)"
| "key_schedule key (Suc i) = (case key_schedule key i of (S, j) \<Rightarrow>
     let j = (j + S i + key ! (i mod length key)) mod 256 in (exchange S i j, j))"

primrec generator :: "(nat \<Rightarrow> nat) \<Rightarrow> nat \<Rightarrow> (nat \<Rightarrow> nat) \<times> nat \<times> nat" where
  "generator S 0 = (S, 0, 0)"
| "generator S (Suc n) = (case generator S n of (S, i, j) \<Rightarrow>
     let i = (i + 1) mod 256; j = (j + S i) mod 256 in (exchange S i j, i, j))"

definition keystream :: "nat list \<Rightarrow> nat \<Rightarrow> nat" where
  "keystream key n = (case generator (fst (key_schedule key 256)) (Suc n) of (S, i, j) \<Rightarrow>
     S ((S i + S j) mod 256))"

text \<open>A state buffer holds such a function.\<close>

definition holds_state :: "bytes \<Rightarrow> (nat \<Rightarrow> nat) \<Rightarrow> bool" where
  "holds_state st S \<longleftrightarrow> length st = 256 \<and> (\<forall>k<256. unat (st ! k) = S k)"

lemma holds_exchange:
  "holds_state st S \<Longrightarrow> i < 256 \<Longrightarrow> j < 256 \<Longrightarrow> holds_state (swap st i j) (exchange S i j)"
  by (auto simp: holds_state_def swap_def exchange_def nth_list_update)

lemma schedule_is_reference:
  assumes "key \<noteq> []" and "n \<le> 256"
  shows "\<exists>st. fold (schedule_step key) [0..<n] (map of_nat [0..<256], 0, 0) =
      (st, n mod length key, snd (key_schedule (map unat key) n)) \<and>
    holds_state st (fst (key_schedule (map unat key) n))"
  using assms(2)
proof (induction n)
  case 0
  show ?case by (auto simp: holds_state_def unat_of_nat)
next
  case (Suc n)
  then obtain st where st: "fold (schedule_step key) [0..<n] (map of_nat [0..<256], 0, 0) =
      (st, n mod length key, snd (key_schedule (map unat key) n))"
    and holds: "holds_state st (fst (key_schedule (map unat key) n))" by auto
  define S where "S = fst (key_schedule (map unat key) n)"
  define j where "j = (snd (key_schedule (map unat key) n) + S n + unat (key ! (n mod length key))) mod 256"
  have n: "n < 256" "j < 256" "n mod length key < length key" using Suc.prems assms(1) by (simp_all add: j_def)
  have "unat (st ! n) = S n" using holds n by (simp add: holds_state_def S_def)
  then have "schedule_step key n (st, n mod length key, snd (key_schedule (map unat key) n)) =
      (swap st n j, Suc n mod length key, j)"
    by (simp add: schedule_step_def Let_def KEY_STATE_LENGTH_def j_def mod_Suc_eq)
  moreover have "key_schedule (map unat key) (Suc n) = (exchange S n j, j)"
    using n by (simp add: Let_def split_beta S_def j_def)
  ultimately show ?case
    using st holds_exchange [OF holds n(1,2)] by (simp add: S_def del: key_schedule.simps)
qed

lemma new_is_reference:
  assumes "rc4_new key = Some ks"
  shows "holds_state (rc_state ks) (fst (key_schedule (map unat key) 256)) \<and>
    rc_index1 ks = 0 \<and> rc_index2 ks = 0"
proof -
  have "key \<noteq> []" using assms by (auto simp: rc4_new_def)
  from schedule_is_reference [OF this, of 256] assms show ?thesis
    by (auto simp: rc4_new_def KEY_STATE_LENGTH_def Let_def split: if_splits)
qed

lemma increment_is_reference:
  assumes "generator S0 n = (S, rc_index1 ks, rc_index2 ks)" and "holds_state (rc_state ks) S"
  shows "\<exists>S'. generator S0 (Suc n) = (S', rc_index1 (rc4_increment ks), rc_index2 (rc4_increment ks)) \<and>
    holds_state (rc_state (rc4_increment ks)) S' \<and>
    unat (rc4_key_byte (rc4_increment ks)) =
      S' ((S' (rc_index1 (rc4_increment ks)) + S' (rc_index2 (rc4_increment ks))) mod 256)"
proof -
  define i where "i = (rc_index1 ks + 1) mod 256"
  define j where "j = (rc_index2 ks + S i) mod 256"
  define S' where "S' = exchange S i j"
  have ij: "i < 256" "j < 256" by (simp_all add: i_def j_def)
  have "unat (rc_state ks ! i) = S i" using assms(2) ij by (simp add: holds_state_def)
  then have fields: "rc_index1 (rc4_increment ks) = i" "rc_index2 (rc4_increment ks) = j"
    "rc_state (rc4_increment ks) = swap (rc_state ks) i j"
    by (simp_all add: rc4_increment_def Let_def KEY_STATE_LENGTH_def i_def j_def)
  have holds: "holds_state (rc_state (rc4_increment ks)) S'"
    unfolding fields S'_def by (rule holds_exchange [OF assms(2) ij])
  then have at: "unat (rc_state (rc4_increment ks) ! k) = S' k" if "k < 256" for k
    using that by (simp add: holds_state_def)
  have "unat (rc4_key_byte (rc4_increment ks)) = S' ((S' i + S' j) mod 256)"
    by (simp add: rc4_key_byte_def KEY_STATE_LENGTH_def fields(1,2) at ij)
  moreover have "generator S0 (Suc n) = (S', i, j)"
    using assms(1) by (simp add: Let_def i_def j_def S'_def)
  ultimately show ?thesis using holds unfolding fields(1,2) by blast
qed

text \<open>The state after the reference cipher has put out \<open>n\<close> bytes.\<close>

definition keyed :: "bytes \<Rightarrow> nat \<Rightarrow> rc4_key_state \<Rightarrow> bool" where
  "keyed key n ks \<longleftrightarrow> (\<exists>S. generator (fst (key_schedule (map unat key) 256)) n =
     (S, rc_index1 ks, rc_index2 ks) \<and> holds_state (rc_state ks) S)"

lemma keyed_new: "rc4_new key = Some ks \<Longrightarrow> keyed key 0 ks"
  using new_is_reference by (auto simp: keyed_def)

lemma keyed_increment:
  assumes "keyed key n ks"
  shows "keyed key (Suc n) (rc4_increment ks)"
    and "rc4_key_byte (rc4_increment ks) = of_nat (keystream (map unat key) n)"
proof -
  obtain S where S: "generator (fst (key_schedule (map unat key) 256)) n = (S, rc_index1 ks, rc_index2 ks)"
    "holds_state (rc_state ks) S" using assms by (auto simp: keyed_def)
  from increment_is_reference [OF this] obtain S' where
    step: "generator (fst (key_schedule (map unat key) 256)) (Suc n) =
        (S', rc_index1 (rc4_increment ks), rc_index2 (rc4_increment ks))"
      "holds_state (rc_state (rc4_increment ks)) S'"
    and byte: "unat (rc4_key_byte (rc4_increment ks)) =
      S' ((S' (rc_index1 (rc4_increment ks)) + S' (rc_index2 (rc4_increment ks))) mod 256)" by blast
  from step show "keyed key (Suc n) (rc4_increment ks)" unfolding keyed_def by blast
  have "keystream (map unat key) n = unat (rc4_key_byte (rc4_increment ks))"
    unfolding keystream_def step(1) byte by simp
  then show "rc4_key_byte (rc4_increment ks) = of_nat (keystream (map unat key) n)" by simp
qed

lemma keyed_advance: "keyed key n ks \<Longrightarrow> keyed key (n + k) (rc4_advance ks k)"
  using keyed_increment(1) by (induction k arbitrary: n ks) fastforce+

lemma keyed_transform:
  assumes "keyed key n ks"
  shows "fst (rc4_transform_in_place ks data) =
    map (\<lambda>i. data ! i XOR of_nat (keystream (map unat key) (n + i))) [0..<length data]"
  using assms
proof (induction data arbitrary: n ks)
  case (Cons b bs)
  note step = keyed_increment [OF Cons.prems]
  have "[0..<length (b # bs)] = 0 # map Suc [0..<length bs]"
    by (simp add: map_Suc_upt upt_conv_Cons del: upt_Suc)
  then show ?case using Cons.IH [OF step(1)] step(2) by (simp add: Let_def split_beta)
qed simp

section \<open>Properties\<close>

text \<open>The key state of a scheduled key is a permutation of the 256 bytes with both
  indices in range, and stays so under every transform and advance, so no index of the cipher
  leaves the state buffer.\<close>

theorem rc4_permutation:
  assumes "rc4_new key = Some ks"
  shows "rc4_ok ks \<and> rc4_ok (snd (rc4_transform_in_place ks bs)) \<and> rc4_ok (rc4_advance ks n)"
  using assms by (simp add: rc4_new_ok rc4_transform_ok rc4_advance_ok)

theorem rc4_permutation_witness:
  "\<exists>ks. rc4_new [1, 2, 3] = Some ks \<and> rc4_ok ks \<and>
     rc4_ok (snd (rc4_transform_in_place ks [7])) \<and> rc4_ok (rc4_advance ks 5)"
proof -
  obtain ks where "rc4_new [1, 2, 3] = Some ks" using rc4_new_defined [of "[1, 2, 3]"] by auto
  with rc4_permutation [OF this] show ?thesis by blast
qed

text \<open>C31: For every key of 1 to 256 bytes the schedule, the transform and the advance are RC4: what
  a scheduled state that has been advanced over any number of bytes makes of a buffer is the buffer
  with the numbers of the reference generator from there on added bit by bit; and a clone of the
  state turns it back.\<close>

theorem rc4_is_reference:
  assumes "key \<noteq> []" and "length key \<le> 256"
  shows "\<exists>ks. rc4_new key = Some ks \<and>
    fst (rc4_transform_in_place (rc4_advance ks n) data) =
      map (\<lambda>i. data ! i XOR of_nat (keystream (map unat key) (n + i))) [0..<length data] \<and>
    fst (rc4_transform_in_place (rc4_advance ks n) (fst (rc4_transform_in_place (rc4_advance ks n) data))) = data"
proof -
  obtain ks where ks: "rc4_new key = Some ks" using rc4_new_defined assms by blast
  have "keyed key n (rc4_advance ks n)" using keyed_advance [OF keyed_new [OF ks], of n] by simp
  from keyed_transform [OF this] ks show ?thesis by (simp add: rc4_involutive)
qed

theorem rc4_is_reference_witness:
  "\<exists>ks. rc4_new [0x4B, 0x65, 0x79] = Some ks \<and>
    fst (rc4_transform_in_place (rc4_advance ks 3) [0x50, 0x6C]) =
      map (\<lambda>i. [0x50, 0x6C] ! i XOR of_nat (keystream (map unat [0x4B, 0x65, 0x79 :: u8]) (3 + i)))
        [0..<length [0x50, 0x6C :: u8]] \<and>
    fst (rc4_transform_in_place (rc4_advance ks 3)
      (fst (rc4_transform_in_place (rc4_advance ks 3) [0x50, 0x6C]))) = [0x50, 0x6C]"
  by (rule rc4_is_reference) simp_all

text \<open>\<open>advance\<close> skips exactly the keystream of the skipped bytes: transforming the
  tail of a buffer after advancing over its head is the tail of the whole transform.\<close>

theorem rc4_advance_skips:
  "fst (rc4_transform_in_place (rc4_advance ks (length xs)) ys) =
     drop (length xs) (fst (rc4_transform_in_place ks (xs @ ys)))"
  by (simp add: rc4_append rc4_state_advance rc4_length)

end
