(* ===== verification/Soe_Protocol.thy ===== *)
theory Soe_Protocol
  imports Soe_Prelude
begin

text \<open>
  The protocol's enumerations and constants (\<open>src/protocol.rs\<close>, \<open>src/constants.rs\<close>,
  \<open>src/error.rs\<close>): OP codes with their wire values, disconnect reasons, error values.
  The enumerations are instances of \<open>enum\<close>, so statements over all OP codes are decided by
  evaluation, and of \<open>linorder\<close> by wire value.
\<close>

section \<open>Errors and constants\<close>

datatype error =
    BufferTooShort nat nat \<comment> \<open>needed, available\<close>
  | OutOfRange nat \<comment> \<open>the offending length; the message text is presentation\<close>
  | Zlib

definition SOE_PROTOCOL_VERSION :: u32 where "SOE_PROTOCOL_VERSION = 3"
definition CRC_LENGTH :: u8 where "CRC_LENGTH = 2"
definition DEFAULT_UDP_LENGTH :: u32 where "DEFAULT_UDP_LENGTH = 512"
definition DEFAULT_SESSION_HEARTBEAT_AFTER :: duration where
  "DEFAULT_SESSION_HEARTBEAT_AFTER = from_secs 25"
definition DEFAULT_SESSION_INACTIVITY_TIMEOUT :: duration where
  "DEFAULT_SESSION_INACTIVITY_TIMEOUT = from_secs 30"
definition MULTI_DATA_INDICATOR :: bytes where "MULTI_DATA_INDICATOR = [0x00, 0x19]"
definition OP_CODE_SIZE :: nat where "OP_CODE_SIZE = 2"

lemmas constant_defs = SOE_PROTOCOL_VERSION_def CRC_LENGTH_def DEFAULT_UDP_LENGTH_def
  MULTI_DATA_INDICATOR_def OP_CODE_SIZE_def

section \<open>OP codes\<close>

datatype OpCode =
    SessionRequest
  | SessionResponse
  | MultiPacket
  | Disconnect
  | Heartbeat
  | NetStatusRequest
  | NetStatusResponse
  | ReliableData
  | ReliableDataFragment
  | Acknowledge
  | AcknowledgeAll
  | UnknownSender
  | RemapConnection

primrec op_as_u16 :: "OpCode \<Rightarrow> u16" where
  "op_as_u16 SessionRequest = 0x01"
| "op_as_u16 SessionResponse = 0x02"
| "op_as_u16 MultiPacket = 0x03"
| "op_as_u16 Disconnect = 0x05"
| "op_as_u16 Heartbeat = 0x06"
| "op_as_u16 NetStatusRequest = 0x07"
| "op_as_u16 NetStatusResponse = 0x08"
| "op_as_u16 ReliableData = 0x09"
| "op_as_u16 ReliableDataFragment = 0x0D"
| "op_as_u16 Acknowledge = 0x11"
| "op_as_u16 AcknowledgeAll = 0x15"
| "op_as_u16 UnknownSender = 0x1D"
| "op_as_u16 RemapConnection = 0x1E"

definition op_from_u16 :: "u16 \<Rightarrow> OpCode option" where
  "op_from_u16 value =
     (if value = 0x01 then Some SessionRequest
      else if value = 0x02 then Some SessionResponse
      else if value = 0x03 then Some MultiPacket
      else if value = 0x05 then Some Disconnect
      else if value = 0x06 then Some Heartbeat
      else if value = 0x07 then Some NetStatusRequest
      else if value = 0x08 then Some NetStatusResponse
      else if 0x09 \<le> value \<and> value \<le> 0x0C then Some ReliableData
      else if 0x0D \<le> value \<and> value \<le> 0x10 then Some ReliableDataFragment
      else if 0x11 \<le> value \<and> value \<le> 0x14 then Some Acknowledge
      else if 0x15 \<le> value \<and> value \<le> 0x18 then Some AcknowledgeAll
      else if value = 0x1D then Some UnknownSender
      else if value = 0x1E then Some RemapConnection
      else None)"

primrec is_contextless :: "OpCode \<Rightarrow> bool" where
  "is_contextless SessionRequest = True"
| "is_contextless SessionResponse = True"
| "is_contextless MultiPacket = False"
| "is_contextless Disconnect = False"
| "is_contextless Heartbeat = False"
| "is_contextless NetStatusRequest = True"
| "is_contextless NetStatusResponse = True"
| "is_contextless ReliableData = False"
| "is_contextless ReliableDataFragment = False"
| "is_contextless Acknowledge = False"
| "is_contextless AcknowledgeAll = False"
| "is_contextless UnknownSender = True"
| "is_contextless RemapConnection = True"

section \<open>Disconnect reasons\<close>

datatype DisconnectReason =
    NoReason \<comment> \<open>\<open>DisconnectReason::None\<close>\<close>
  | IcmpError
  | Timeout
  | OtherSideTerminated
  | ManagerDeleted
  | ConnectFail
  | Application
  | UnreachableConnection
  | UnacknowledgedTimeout
  | NewConnectionAttempt
  | ConnectionRefused
  | ConnectError
  | ConnectingToSelf
  | ReliableOverflow
  | ApplicationReleased
  | CorruptPacket
  | ProtocolMismatch

primrec reason_as_u16 :: "DisconnectReason \<Rightarrow> u16" where
  "reason_as_u16 NoReason = 0"
| "reason_as_u16 IcmpError = 1"
| "reason_as_u16 Timeout = 2"
| "reason_as_u16 OtherSideTerminated = 3"
| "reason_as_u16 ManagerDeleted = 4"
| "reason_as_u16 ConnectFail = 5"
| "reason_as_u16 Application = 6"
| "reason_as_u16 UnreachableConnection = 7"
| "reason_as_u16 UnacknowledgedTimeout = 8"
| "reason_as_u16 NewConnectionAttempt = 9"
| "reason_as_u16 ConnectionRefused = 10"
| "reason_as_u16 ConnectError = 11"
| "reason_as_u16 ConnectingToSelf = 12"
| "reason_as_u16 ReliableOverflow = 13"
| "reason_as_u16 ApplicationReleased = 14"
| "reason_as_u16 CorruptPacket = 15"
| "reason_as_u16 ProtocolMismatch = 16"

definition reason_from_u16 :: "u16 \<Rightarrow> DisconnectReason" where
  "reason_from_u16 value =
     (if value = 1 then IcmpError
      else if value = 2 then Timeout
      else if value = 3 then OtherSideTerminated
      else if value = 4 then ManagerDeleted
      else if value = 5 then ConnectFail
      else if value = 6 then Application
      else if value = 7 then UnreachableConnection
      else if value = 8 then UnacknowledgedTimeout
      else if value = 9 then NewConnectionAttempt
      else if value = 10 then ConnectionRefused
      else if value = 11 then ConnectError
      else if value = 12 then ConnectingToSelf
      else if value = 13 then ReliableOverflow
      else if value = 14 then ApplicationReleased
      else if value = 15 then CorruptPacket
      else if value = 16 then ProtocolMismatch
      else NoReason)"

section \<open>Library instances\<close>

instantiation OpCode :: enum
begin

definition enum_OpCode :: "OpCode list" where
  "enum_OpCode = [SessionRequest, SessionResponse, MultiPacket, Disconnect, Heartbeat,
     NetStatusRequest, NetStatusResponse, ReliableData, ReliableDataFragment, Acknowledge,
     AcknowledgeAll, UnknownSender, RemapConnection]"

definition enum_all_OpCode :: "(OpCode \<Rightarrow> bool) \<Rightarrow> bool" where
  "enum_all_OpCode P = list_all P enum_class.enum"

definition enum_ex_OpCode :: "(OpCode \<Rightarrow> bool) \<Rightarrow> bool" where
  "enum_ex_OpCode P = list_ex P enum_class.enum"

instance
proof
  show univ: "(UNIV :: OpCode set) = set enum_class.enum"
    unfolding enum_OpCode_def by (auto intro: OpCode.exhaust)
  show "distinct (enum_class.enum :: OpCode list)"
    by (simp add: enum_OpCode_def)
  show "enum_class.enum_all P \<longleftrightarrow> Ball UNIV P" for P :: "OpCode \<Rightarrow> bool"
    by (simp only: enum_all_OpCode_def list_all_iff univ)
  show "enum_class.enum_ex P \<longleftrightarrow> Bex UNIV P" for P :: "OpCode \<Rightarrow> bool"
    by (simp only: enum_ex_OpCode_def list_ex_iff univ)
qed

end

lemma op_as_u16_inject: "op_as_u16 a = op_as_u16 b \<longleftrightarrow> a = b"
  by (cases a; cases b) simp_all

instantiation OpCode :: linorder
begin

definition less_eq_OpCode :: "OpCode \<Rightarrow> OpCode \<Rightarrow> bool" where
  "less_eq_OpCode a b \<longleftrightarrow> op_as_u16 a \<le> op_as_u16 b"

definition less_OpCode :: "OpCode \<Rightarrow> OpCode \<Rightarrow> bool" where
  "less_OpCode a b \<longleftrightarrow> op_as_u16 a < op_as_u16 b"

instance
  by standard (auto simp: less_eq_OpCode_def less_OpCode_def less_le_not_le op_as_u16_inject
      dest: antisym)

end

section \<open>Wire values\<close>

lemma op_from_as_u16 [simp]: "op_from_u16 (op_as_u16 op) = Some op"
  by (cases op) (simp_all add: op_from_u16_def)

lemma reason_from_as_u16 [simp]: "reason_from_u16 (reason_as_u16 r) = r"
  by (cases r) (simp_all add: reason_from_u16_def)

lemma reason_as_u16_inject: "reason_as_u16 a = reason_as_u16 b \<longleftrightarrow> a = b"
  by (metis reason_from_as_u16)

text \<open>Every recognised OP code has a zero high byte, which the varint scheme relies on.\<close>

lemma op_from_u16_high_byte: "op_from_u16 v = Some op \<Longrightarrow> v \<le> 0x1E"
  unfolding op_from_u16_def
  by (auto split: if_splits elim: order_trans)

end
