(* ===== verification/Soe_Sequence.thy ===== *)
theory Soe_Sequence
  imports Soe_Prelude
begin

text \<open>
  Reconstructing a monotone sequence number from its low sixteen bits
  (\<open>src/channel/mod.rs\<close>). The code computes on \<open>i64\<close>; a channel counts packets from
  zero, so the model computes on \<open>int\<close> and the theorems bound the current sequence below
  \<open>2 ^ 62\<close> where the 64-bit mask matters.
\<close>

text \<open>A reliable packet without its sequence: whether it is a fragment, and its data.\<close>

type_synonym rpacket = "bool \<times> bytes"

definition true_incoming_sequence :: "u16 \<Rightarrow> int \<Rightarrow> int \<Rightarrow> int" where
  "true_incoming_sequence packet_sequence current_sequence max_queued_reliable_data_packets =
     (let sequence = uint packet_sequence OR (current_sequence AND (0x7FFFFFFFFFFFFFFF XOR 0xFFFF));
          sequence = (if sequence > current_sequence + max_queued_reliable_data_packets
                      then sequence - 0x10000 else sequence) in
      if sequence < current_sequence - max_queued_reliable_data_packets
      then sequence + 0x10000 else sequence)"

text \<open>\<open>i64 as u16\<close>: the low sixteen bits, as sent on the wire.\<close>

definition wire_sequence :: "int \<Rightarrow> u16" where
  "wire_sequence s = word_of_int s"

lemma uint_wire_sequence [simp]: "uint (wire_sequence s) = s mod 65536"
  by (simp add: wire_sequence_def uint_word_of_int)

lemma block_mask:
  assumes "0 \<le> (c :: int)" and "c < 2 ^ 62"
  shows "c AND (0x7FFFFFFFFFFFFFFF XOR 0xFFFF) = c - c mod 65536"
proof -
  have "(0x7FFFFFFFFFFFFFFF XOR 0xFFFF :: int) = push_bit 16 (mask 47)"
    by (simp add: mask_eq_exp_minus_1 push_bit_eq_mult)
  moreover have "c AND push_bit 16 (mask 47) = push_bit 16 (take_bit 47 (drop_bit 16 c))"
    by (rule bit_eqI) (auto simp: bit_simps)
  moreover have "drop_bit 16 c < 2 ^ 47"
    using assms(2) by (simp add: drop_bit_eq_div)
  moreover have "0 \<le> drop_bit 16 c" using assms(1) by simp
  ultimately have "c AND (0x7FFFFFFFFFFFFFFF XOR 0xFFFF) = push_bit 16 (drop_bit 16 c)"
    by (simp add: take_bit_int_eq_self)
  also have "\<dots> = c - c mod 65536"
    by (simp add: push_bit_eq_mult drop_bit_eq_div minus_mod_eq_div_mult)
  finally show ?thesis .
qed

lemma block_insert:
  assumes "0 \<le> (c :: int)" and "c < 2 ^ 62"
  shows "uint p OR (c AND (0x7FFFFFFFFFFFFFFF XOR 0xFFFF)) = c - c mod 65536 + uint (p :: u16)"
proof -
  have "uint p OR push_bit 16 k = push_bit 16 k + uint p" for k :: int
  proof -
    have "uint p AND push_bit 16 k = 0"
      by (rule bit_eqI) (auto simp: bit_simps dest: bit_imp_le_length)
    then show ?thesis using plus_and_or [of "uint p" "push_bit 16 k"] by simp
  qed
  moreover have "c AND (0x7FFFFFFFFFFFFFFF XOR 0xFFFF) = push_bit 16 (c div 65536)"
    using block_mask [OF assms] by (simp add: push_bit_eq_mult minus_mod_eq_div_mult)
  ultimately show ?thesis
    using block_mask [OF assms] by (simp only:)
qed

text \<open>The reconstruction as arithmetic: the candidate in the current block of 65536, moved by
  at most one block.\<close>

lemma true_incoming_eq:
  assumes "0 \<le> c" and "c < 2 ^ 62"
  shows "true_incoming_sequence p c w =
    (let b = c - c mod 65536 + uint p; b1 = (if c + w < b then b - 65536 else b)
     in if b1 < c - w then b1 + 65536 else b1)"
  by (simp only: true_incoming_sequence_def block_insert [OF assms] Let_def)

lemma mod_shift_block: "(b + 65536) mod 65536 = b mod (65536 :: int)"
  "(b - 65536) mod 65536 = b mod (65536 :: int)"
  by (simp_all add: mod_diff_right_eq [symmetric])

lemma true_incoming_cong:
  assumes "0 \<le> c" and "c < 2 ^ 62"
  shows "true_incoming_sequence p c w mod 65536 = uint p"
proof -
  have "uint p mod 65536 = uint p" using uint_bounded [of p] by (intro mod_pos_pos_trivial) simp_all
  moreover have "(c - c mod 65536 + uint p) mod 65536 = uint p mod 65536"
    by (simp add: minus_mod_eq_mult_div)
  ultimately have "(c - c mod 65536 + uint p) mod 65536 = uint p" by simp
  then show ?thesis
    unfolding true_incoming_eq [OF assms] Let_def by (simp add: mod_shift_block)
qed

text \<open>Two congruent sequences in a window of 65536 are the same.\<close>

lemma cong_unique:
  fixes a b :: int
  assumes "a mod 65536 = b mod 65536" and "\<bar>a - b\<bar> < 65536"
  shows "a = b"
proof (rule ccontr)
  assume "a \<noteq> b"
  moreover have "65536 dvd a - b" using assms(1) by (simp add: mod_eq_dvd_iff)
  ultimately have "\<bar>65536 :: int\<bar> \<le> \<bar>a - b\<bar>" by (intro dvd_imp_le_int) simp_all
  with assms(2) show False by simp
qed

text \<open>The reconstruction is right for every sequence within the window.\<close>

lemma true_incoming_window:
  assumes "0 \<le> c" and "c < 2 ^ 62" and "\<bar>s - c\<bar> \<le> w" and "w \<le> 32767"
  shows "true_incoming_sequence (wire_sequence s) c w = s"
proof (rule cong_unique)
  show "true_incoming_sequence (wire_sequence s) c w mod 65536 = s mod 65536"
    by (simp add: true_incoming_cong [OF assms(1,2)])
  define b where "b = c - c mod 65536 + s mod 65536"
  have "c - 65536 < b" and "b < c + 65536"
    using pos_mod_bound [of 65536 c] pos_mod_sign [of 65536 c] pos_mod_bound [of 65536 s]
      pos_mod_sign [of 65536 s]
    unfolding b_def by linarith+
  then show "\<bar>true_incoming_sequence (wire_sequence s) c w - s\<bar> < 65536"
    using assms(3,4) unfolding true_incoming_eq [OF assms(1,2)] Let_def uint_wire_sequence
    by (simp flip: b_def) linarith
qed

text \<open>The receiver accepts a result in \<open>[c, c + w]\<close> only. Every accepted sequence that was
  not sent more than a block before the window's end is the one that was sent.\<close>

lemma true_incoming_accepted:
  assumes "0 \<le> c" and "c < 2 ^ 62" and "w \<le> 65535"
    and "c \<le> true_incoming_sequence (wire_sequence s) c w"
    and "true_incoming_sequence (wire_sequence s) c w \<le> c + w"
    and "c + w - 65536 < s" and "s \<le> c + w"
  shows "true_incoming_sequence (wire_sequence s) c w = s"
proof (rule cong_unique)
  show "true_incoming_sequence (wire_sequence s) c w mod 65536 = s mod 65536"
    by (simp add: true_incoming_cong [OF assms(1,2)])
  show "\<bar>true_incoming_sequence (wire_sequence s) c w - s\<bar> < 65536"
    using assms(3-) by linarith
qed

text \<open>The sequence the window is waiting for is always recognised.\<close>

lemma true_incoming_current:
  assumes "0 \<le> c" and "c < 2 ^ 62" and "0 \<le> w"
  shows "true_incoming_sequence (wire_sequence c) c w = c"
  using assms(3) unfolding true_incoming_eq [OF assms(1,2)] Let_def uint_wire_sequence by simp

section \<open>Properties\<close>

text \<open>C29: With a window of at most 32767, every sequence within the window around the
  current one is recovered from its sixteen wire bits, across block boundaries in both
  directions.\<close>

theorem true_incoming_recovers:
  assumes "0 \<le> current" and "current < 2 ^ 62" and "\<bar>s - current\<bar> \<le> window"
    and "window \<le> 32767"
  shows "true_incoming_sequence (wire_sequence s) current window = s"
  using assms by (rule true_incoming_window)

theorem true_incoming_recovers_witness:
  "true_incoming_sequence (wire_sequence 65536) 65535 256 = 65536 \<and>
   true_incoming_sequence (wire_sequence 65535) 65546 256 = 65535"
  using true_incoming_recovers [of 65535 65536 256] true_incoming_recovers [of 65546 65535 256]
  by simp

text \<open>For every receive window the configuration can express, a packet that the
  receiver takes to be inside its window really carries that sequence, unless it was delayed
  by more than a whole block of 65536 sequences.\<close>

theorem true_incoming_never_confuses:
  assumes "0 \<le> current" and "current < 2 ^ 62" and "window \<le> 65535"
    and "current \<le> true_incoming_sequence (wire_sequence s) current window"
    and "true_incoming_sequence (wire_sequence s) current window \<le> current + window"
    and "current + window - 65536 < s" and "s \<le> current + window"
  shows "true_incoming_sequence (wire_sequence s) current window = s"
  using assms by (rule true_incoming_accepted)

theorem true_incoming_never_confuses_witness:
  "true_incoming_sequence (wire_sequence 70000) 70000 256 = 70000"
  by (rule true_incoming_never_confuses)
    (simp_all add: true_incoming_current)

end
