(* ===== verification/Soe_Output.thy ===== *)
theory Soe_Output
  imports Soe_Rc4 Soe_Protocol Soe_Sequence
begin

text \<open>
  The reliable output channel (\<open>src/channel/output.rs\<close>): fragmentation and encryption of
  application data, the send window with go-back-N retransmission, the adaptive retransmit
  timeout, and acknowledgement handling. Statistics are counters on \<open>nat\<close>, durations are
  nanoseconds. Sizes that would underflow make an operation \<open>None\<close>.
\<close>

section \<open>State\<close>

definition SEQUENCE_SIZE :: nat where "SEQUENCE_SIZE = 2"
definition FRAGMENT_LENGTH_SIZE :: nat where "FRAGMENT_LENGTH_SIZE = 4"
definition RTT_K :: nat where "RTT_K = 4"
definition RTO_GRANULARITY :: duration where "RTO_GRANULARITY = from_millis 100"
definition RTO_MIN :: duration where "RTO_MIN = from_millis 200"
definition RTO_MAX :: duration where "RTO_MAX = from_secs 8"

lemmas output_constants = SEQUENCE_SIZE_def FRAGMENT_LENGTH_SIZE_def
lemmas rto_constants = RTT_K_def RTO_GRANULARITY_def RTO_MIN_def RTO_MAX_def from_millis_def
  from_secs_def

record data_output_stats =
  total_sent :: nat
  total_resent :: nat
  incoming_acknowledge_count :: nat
  actual_acknowledge_count :: nat

definition output_stats_default :: data_output_stats where
  "output_stats_default = \<lparr>total_sent = 0, total_resent = 0, incoming_acknowledge_count = 0,
     actual_acknowledge_count = 0\<rparr>"

record output_config =
  max_data_length :: nat
  max_queued_outgoing :: nat
  ack_wait :: duration

definition output_config_default :: output_config where
  "output_config_default =
     \<lparr>max_data_length = 508, max_queued_outgoing = 196, ack_wait = from_millis 500\<rparr>"

record outgoing_reliable =
  or_op_code :: OpCode
  or_payload :: bytes

record stashed_output_packet =
  is_fragment :: bool
  packet_data :: bytes
  sent :: bool
  sent_at :: "instant option"
  resent :: bool

record output_channel =
  out_config :: output_config
  out_cipher :: "rc4_key_state option"
  dispatch_queue :: "(int \<times> stashed_output_packet) list"
  total_sequence :: int
  max_client_sequence :: int
  current_dispatch_index :: nat
  srtt :: "duration option"
  rttvar :: duration
  rto :: duration
  out_outgoing :: "outgoing_reliable list"
  out_stats :: data_output_stats

definition output_new :: "output_config \<Rightarrow> rc4_key_state option \<Rightarrow> instant \<Rightarrow> output_channel" where
  "output_new config cipher now =
     \<lparr>out_config = config, out_cipher = cipher, dispatch_queue = [], total_sequence = 0,
      max_client_sequence = 0, current_dispatch_index = 0, srtt = None, rttvar = 0,
      rto = ack_wait config, out_outgoing = [], out_stats = output_stats_default\<rparr>"

definition output_take_outgoing :: "output_channel \<Rightarrow> outgoing_reliable list \<times> output_channel" where
  "output_take_outgoing ch = (out_outgoing ch, ch\<lparr>out_outgoing := []\<rparr>)"

definition queued_len :: "output_channel \<Rightarrow> nat" where
  "queued_len ch = length (dispatch_queue ch)"

definition set_max_data_length :: "nat \<Rightarrow> output_channel \<Rightarrow> output_channel" where
  "set_max_data_length n ch = ch\<lparr>out_config := (out_config ch)\<lparr>max_data_length := n\<rparr>\<rparr>"

definition max_chunk :: "output_channel \<Rightarrow> nat option" where
  "max_chunk ch = usize_sub (max_data_length (out_config ch)) SEQUENCE_SIZE"

section \<open>Enqueueing\<close>

definition stash_fragment ::
    "output_channel \<Rightarrow> bytes \<Rightarrow> bool \<Rightarrow> bool \<Rightarrow> (bytes \<times> output_channel) option" where
  "stash_fragment ch data is_master fragment = do {
     chunk \<leftarrow> max_chunk ch;
     let amount = min (length data) chunk;
     let buf = be16 (wire_sequence (total_sequence ch));
     (buf, amount) \<leftarrow>
       (if is_master \<and> fragment then do {
          amount \<leftarrow> usize_sub amount FRAGMENT_LENGTH_SIZE;
          Some (buf @ be32 (of_nat (length data)), amount)
        } else Some (buf, amount));
     let packet = \<lparr>is_fragment = fragment, packet_data = buf @ take amount data, sent = False,
       sent_at = None, resent = False\<rparr>;
     Some (drop amount data,
           ch\<lparr>dispatch_queue := dispatch_queue ch @ [(total_sequence ch, packet)],
              total_sequence := total_sequence ch + 1\<rparr>)
   }"

definition encrypt :: "output_channel \<Rightarrow> bytes \<Rightarrow> (bytes \<times> output_channel) option" where
  "encrypt ch data = do {
     cipher \<leftarrow> out_cipher ch;
     let (enc, cipher) = rc4_transform_in_place cipher data;
     let frozen = 0 # enc;
     second \<leftarrow> index frozen 1;
     Some (if second = 0 then frozen else tl frozen, ch\<lparr>out_cipher := Some cipher\<rparr>)
   }"

text \<open>The \<open>while\<close> loop of \<open>enqueue_data\<close>; it ends because every chunk is non-empty,
  which is proved, so the definition allows for it not ending.\<close>

partial_function (option) stash_rest :: "output_channel \<Rightarrow> bytes \<Rightarrow> output_channel option" where
  "stash_rest ch remaining =
     (if remaining = [] then Some ch
      else Option.bind (stash_fragment ch remaining False True) (\<lambda>r. stash_rest (snd r) (fst r)))"

declare stash_rest.simps [code]

definition enqueue_data :: "output_channel \<Rightarrow> bytes \<Rightarrow> output_channel option" where
  "enqueue_data ch data =
     (if data = [] then Some ch
      else do {
        (remaining, ch) \<leftarrow>
          (case out_cipher ch of Some _ \<Rightarrow> encrypt ch data | None \<Rightarrow> Some (data, ch));
        chunk \<leftarrow> max_chunk ch;
        let fragment = chunk < length remaining;
        (remaining, ch) \<leftarrow> stash_fragment ch remaining True fragment;
        stash_rest ch remaining
      })"

section \<open>Ticks\<close>

text \<open>The loop body of \<open>run_tick\<close>: dispatch the packet at the dispatch index.\<close>

definition dispatch_one :: "instant \<Rightarrow> output_channel \<Rightarrow> output_channel" where
  "dispatch_one now ch =
     (let i = current_dispatch_index ch; (s, p) = dispatch_queue ch ! i; stats = out_stats ch;
          op_code = (if is_fragment p then ReliableDataFragment else ReliableData);
          stats = stats\<lparr>total_sent := total_sent stats + 1\<rparr>;
          stats = (if sent p then stats\<lparr>total_resent := total_resent stats + 1\<rparr> else stats);
          p' = p\<lparr>resent := resent p \<or> sent p, sent := True, sent_at := Some now\<rparr> in
      ch\<lparr>dispatch_queue := (dispatch_queue ch)[i := (s, p')], current_dispatch_index := i + 1,
         out_outgoing := out_outgoing ch @ [\<lparr>or_op_code = op_code, or_payload = packet_data p\<rparr>],
         out_stats := stats\<rparr>)"

function dispatch_loop :: "instant \<Rightarrow> nat \<Rightarrow> output_channel \<Rightarrow> output_channel" where
  "dispatch_loop now max_index ch =
     (if current_dispatch_index ch < max_index
      then dispatch_loop now max_index (dispatch_one now ch) else ch)"
  by pat_completeness auto
termination
  by (relation "measure (\<lambda>(_, max_index, ch). max_index - current_dispatch_index ch)")
    (auto simp: dispatch_one_def Let_def split_beta)

declare dispatch_loop.simps [simp del]

definition oldest_timed_out :: "output_channel \<Rightarrow> instant \<Rightarrow> bool" where
  "oldest_timed_out ch now =
     (case dispatch_queue ch of
        (_, front) # _ \<Rightarrow> sent front \<and>
          (case sent_at front of Some t \<Rightarrow> rto ch < duration_since now t | None \<Rightarrow> False)
      | [] \<Rightarrow> False)"

definition output_run_tick :: "output_channel \<Rightarrow> instant \<Rightarrow> output_channel" where
  "output_run_tick ch now =
     (let ch = (if oldest_timed_out ch now
                then ch\<lparr>current_dispatch_index := 0, rto := min (rto ch * 2) RTO_MAX\<rparr> else ch);
          max_index = min (length (dispatch_queue ch)) (max_queued_outgoing (out_config ch)) in
      dispatch_loop now max_index ch)"

section \<open>Acknowledgements\<close>

definition abs_diff :: "nat \<Rightarrow> nat \<Rightarrow> nat" where
  "abs_diff a b = (if a < b then b - a else a - b)"

definition update_rto :: "output_channel \<Rightarrow> duration \<Rightarrow> output_channel" where
  "update_rto ch sample =
     (let ch = (case srtt ch of
          None \<Rightarrow> ch\<lparr>srtt := Some sample, rttvar := sample div 2\<rparr>
        | Some s \<Rightarrow> ch\<lparr>rttvar := (rttvar ch * 3 + abs_diff s sample) div 4,
                      srtt := Some ((s * 7 + sample) div 8)\<rparr>);
          s = (case srtt ch of None \<Rightarrow> sample | Some s \<Rightarrow> s);
          rto' = s + max RTO_GRANULARITY (rttvar ch * RTT_K) in
      ch\<lparr>rto := max RTO_MIN (min RTO_MAX rto')\<rparr>)"

definition true_incoming :: "output_channel \<Rightarrow> u16 \<Rightarrow> int" where
  "true_incoming ch packet_sequence =
     true_incoming_sequence packet_sequence (max_client_sequence ch)
       (int (max_queued_outgoing (out_config ch)))"

text \<open>The round-trip sample of a packet: none once it was retransmitted (Karn).\<close>

definition rtt_sample :: "stashed_output_packet \<Rightarrow> instant \<Rightarrow> duration option" where
  "rtt_sample p now =
     (if sent p \<and> \<not> resent p
      then map_option (\<lambda>t. duration_since now t) (sent_at p) else None)"

definition count_incoming :: "output_channel \<Rightarrow> output_channel" where
  "count_incoming ch = ch\<lparr>out_stats := (out_stats ch)
     \<lparr>incoming_acknowledge_count := incoming_acknowledge_count (out_stats ch) + 1\<rparr>\<rparr>"

definition count_actual :: "output_channel \<Rightarrow> output_channel" where
  "count_actual ch = ch\<lparr>out_stats := (out_stats ch)
     \<lparr>actual_acknowledge_count := actual_acknowledge_count (out_stats ch) + 1\<rparr>\<rparr>"

primrec position :: "('a \<Rightarrow> bool) \<Rightarrow> 'a list \<Rightarrow> nat option" where
  "position P [] = None"
| "position P (x # xs) = (if P x then Some 0 else map_option Suc (position P xs))"

definition remove_at :: "nat \<Rightarrow> 'a list \<Rightarrow> 'a list" where
  "remove_at i xs = take i xs @ drop (Suc i) xs"

definition raise_max_client :: "int \<Rightarrow> output_channel \<Rightarrow> output_channel" where
  "raise_max_client s ch =
     (if max_client_sequence ch < s then ch\<lparr>max_client_sequence := s\<rparr> else ch)"

definition notify_of_acknowledge :: "output_channel \<Rightarrow> u16 \<Rightarrow> instant \<Rightarrow> output_channel" where
  "notify_of_acknowledge ch sequence now =
     (let s = true_incoming ch sequence; ch = count_incoming ch;
          ch = (case position (\<lambda>e. fst e = s) (dispatch_queue ch) of
              Some pos \<Rightarrow>
                let sample = rtt_sample (snd (dispatch_queue ch ! pos)) now;
                    ch = ch\<lparr>dispatch_queue := remove_at pos (dispatch_queue ch),
                            current_dispatch_index := current_dispatch_index ch - 1\<rparr>;
                    ch = count_actual ch in
                (case sample of Some d \<Rightarrow> update_rto ch d | None \<Rightarrow> ch)
            | None \<Rightarrow> ch) in
      raise_max_client s ch)"

text \<open>The loop of \<open>notify_of_acknowledge_all\<close>, which keeps the last unambiguous sample.\<close>

function ack_all_loop :: "int \<Rightarrow> instant \<Rightarrow> output_channel \<Rightarrow> duration option \<Rightarrow>
    output_channel \<times> duration option" where
  "ack_all_loop s now ch sample =
     (case dispatch_queue ch of
        (t, p) # rest \<Rightarrow>
          if t \<le> s then
            let this_sample = rtt_sample p now;
                sample = (if this_sample \<noteq> None then this_sample else sample) in
            ack_all_loop s now
              (count_actual (ch\<lparr>dispatch_queue := rest,
                 current_dispatch_index := current_dispatch_index ch - 1\<rparr>)) sample
          else (ch, sample)
      | [] \<Rightarrow> (ch, sample))"
  by pat_completeness auto
termination
  by (relation "measure (\<lambda>(_, _, ch, _). length (dispatch_queue ch))")
    (auto simp: count_actual_def)

declare ack_all_loop.simps [simp del]

definition notify_of_acknowledge_all :: "output_channel \<Rightarrow> u16 \<Rightarrow> instant \<Rightarrow> output_channel" where
  "notify_of_acknowledge_all ch sequence now =
     (let s = true_incoming ch sequence; ch = count_incoming ch;
          (ch, sample) = ack_all_loop s now ch None;
          ch = (case sample of Some d \<Rightarrow> update_rto ch d | None \<Rightarrow> ch) in
      raise_max_client s ch)"

section \<open>What enqueueing produces\<close>

fun chunks :: "nat \<Rightarrow> bytes \<Rightarrow> rpacket list" where
  "chunks m data =
     (if data = [] \<or> m = 0 then [] else (True, take m data) # chunks m (drop m data))"

declare chunks.simps [simp del]

text \<open>The specification of fragmentation: a message that fits is one packet; a longer one
  is a master fragment with the total length and then full chunks.\<close>

definition packets_of :: "nat \<Rightarrow> bytes \<Rightarrow> rpacket list" where
  "packets_of m data =
     (if length data \<le> m then [(False, data)]
      else (True, be32 (of_nat (length data)) @ take (m - 4) data) # chunks m (drop (m - 4) data))"

text \<open>The specification of encryption: the ciphertext, a zero byte in front of a leading
  zero.\<close>

definition pad_zero :: "bytes \<Rightarrow> bytes" where
  "pad_zero enc = (if enc \<noteq> [] \<and> hd enc = 0 then 0 # enc else enc)"

definition seal :: "rc4_key_state option \<Rightarrow> bytes \<Rightarrow> bytes \<times> rc4_key_state option" where
  "seal cipher data = (case cipher of
      None \<Rightarrow> (data, None)
    | Some ks \<Rightarrow> (pad_zero (fst (rc4_transform_in_place ks data)),
        Some (snd (rc4_transform_in_place ks data))))"

definition stash_entry :: "int \<Rightarrow> rpacket \<Rightarrow> int \<times> stashed_output_packet" where
  "stash_entry s p = (s, \<lparr>is_fragment = fst p, packet_data = be16 (wire_sequence s) @ snd p,
     sent = False, sent_at = None, resent = False\<rparr>)"

primrec stash_all :: "int \<Rightarrow> rpacket list \<Rightarrow> (int \<times> stashed_output_packet) list" where
  "stash_all s [] = []"
| "stash_all s (p # ps) = stash_entry s p # stash_all (s + 1) ps"

lemma length_stash_all [simp]: "length (stash_all s ps) = length ps"
  by (induction ps arbitrary: s) simp_all

lemma nth_stash_all: "i < length ps \<Longrightarrow> stash_all s ps ! i = stash_entry (s + int i) (ps ! i)"
proof (induction ps arbitrary: s i)
  case (Cons p ps)
  then show ?case by (cases i) (simp_all add: add.assoc)
qed simp

lemma stash_all_append: "stash_all s (ps @ qs) = stash_all s ps @ stash_all (s + int (length ps)) qs"
  by (induction ps arbitrary: s) (simp_all add: add.assoc)

definition append_packets :: "rpacket list \<Rightarrow> output_channel \<Rightarrow> output_channel" where
  "append_packets ps ch =
     ch\<lparr>dispatch_queue := dispatch_queue ch @ stash_all (total_sequence ch) ps,
        total_sequence := total_sequence ch + int (length ps)\<rparr>"

lemma append_packets_Nil [simp]: "append_packets [] ch = ch"
  by (simp add: append_packets_def)

lemma append_packets_append:
  "append_packets qs (append_packets ps ch) = append_packets (ps @ qs) ch"
  by (simp add: append_packets_def stash_all_append add.assoc)

lemma max_chunk_append [simp]: "max_chunk (append_packets ps ch) = max_chunk ch"
  by (simp add: append_packets_def max_chunk_def)

lemma stash_fragment_rest:
  assumes "max_chunk ch = Some m"
  shows "stash_fragment ch data False f = Some (drop m data, append_packets [(f, take m data)] ch)"
  using assms by (simp add: stash_fragment_def append_packets_def stash_entry_def min_def)

lemma stash_fragment_whole:
  assumes "max_chunk ch = Some m" and "length data \<le> m"
  shows "stash_fragment ch data True False = Some ([], append_packets [(False, data)] ch)"
  using assms by (simp add: stash_fragment_def append_packets_def stash_entry_def)

lemma stash_fragment_master:
  assumes "max_chunk ch = Some m" and "m < length data" and "4 \<le> m"
  shows "stash_fragment ch data True True = Some (drop (m - 4) data,
    append_packets [(True, be32 (of_nat (length data)) @ take (m - 4) data)] ch)"
  using assms
  by (simp add: stash_fragment_def append_packets_def stash_entry_def output_constants)

lemma stash_rest_eq:
  assumes "max_chunk ch = Some m" and "0 < m"
  shows "stash_rest ch data = Some (append_packets (chunks m data) ch)"
  using assms(1)
proof (induction data arbitrary: ch rule: length_induct)
  case (1 data)
  show ?case
  proof (cases "data = []")
    case False
    with assms(2) have "length (drop m data) < length data" by simp
    with 1 have "stash_rest (append_packets [(True, take m data)] ch) (drop m data) =
        Some (append_packets (chunks m (drop m data)) (append_packets [(True, take m data)] ch))"
      by (metis max_chunk_append)
    with False assms(2) show ?thesis
      by (subst stash_rest.simps, subst chunks.simps)
        (simp add: stash_fragment_rest [OF 1(2)] append_packets_append)
  qed (subst stash_rest.simps, subst chunks.simps, simp)
qed

lemma encrypt_eq:
  assumes "out_cipher ch = Some ks" and "data \<noteq> []"
  shows "encrypt ch data = Some (fst (seal (Some ks) data), ch\<lparr>out_cipher := snd (seal (Some ks) data)\<rparr>)"
proof -
  obtain e es where "fst (rc4_transform_in_place ks data) = e # es"
    using assms(2) rc4_length [of ks data] by (cases "fst (rc4_transform_in_place ks data)") auto
  with assms show ?thesis
    by (simp add: encrypt_def seal_def pad_zero_def split_beta index_def)
qed

lemma seal_nonempty: "data \<noteq> [] \<Longrightarrow> fst (seal c data) \<noteq> []"
  using rc4_length [of "the c" data]
  by (cases c) (auto simp: seal_def pad_zero_def)

text \<open>The effect of \<open>enqueue_data\<close>: the sealed message is cut by the specification, and
  the operation ends. A chunk of four bytes is enough.\<close>

lemma enqueue_eq:
  assumes "data \<noteq> []" and "6 \<le> max_data_length (out_config ch)"
  shows "enqueue_data ch data =
    Some (append_packets (packets_of (max_data_length (out_config ch) - 2) (fst (seal (out_cipher ch) data)))
      (ch\<lparr>out_cipher := snd (seal (out_cipher ch) data)\<rparr>))"
proof -
  define m where "m = max_data_length (out_config ch) - 2"
  define body where "body = fst (seal (out_cipher ch) data)"
  define ch1 where "ch1 = ch\<lparr>out_cipher := snd (seal (out_cipher ch) data)\<rparr>"
  have chunk: "max_chunk ch1 = Some m" and m: "4 \<le> m"
    using assms(2) by (simp_all add: max_chunk_def ch1_def m_def output_constants)
  have pre: "(case out_cipher ch of Some _ \<Rightarrow> encrypt ch data | None \<Rightarrow> Some (data, ch)) = Some (body, ch1)"
    using assms(1) by (auto simp: body_def ch1_def encrypt_eq seal_def split: option.split)
  have rest: "stash_rest (append_packets ps ch1) r = Some (append_packets (ps @ chunks m r) ch1)" for ps r
    using stash_rest_eq [of "append_packets ps ch1" m r] chunk m by (simp add: append_packets_append)
  have "enqueue_data ch data = Some (append_packets (packets_of m body) ch1)"
  proof (cases "length body \<le> m")
    case True
    then show ?thesis
      using assms(1) rest [of "[(False, body)]" "[]"]
      by (simp add: enqueue_data_def pre chunk stash_fragment_whole packets_of_def chunks.simps)
  next
    case False
    then show ?thesis
      using assms(1) rest m
      by (simp add: enqueue_data_def pre chunk stash_fragment_master packets_of_def not_le)
  qed
  then show ?thesis by (simp add: m_def body_def ch1_def)
qed

lemma enqueue_Nil [simp]: "enqueue_data ch [] = Some ch"
  by (simp add: enqueue_data_def)

section \<open>What a tick does\<close>

definition mark_sent :: "instant \<Rightarrow> int \<times> stashed_output_packet \<Rightarrow> int \<times> stashed_output_packet" where
  "mark_sent now e = (fst e, (snd e)\<lparr>resent := resent (snd e) \<or> sent (snd e), sent := True,
     sent_at := Some now\<rparr>)"

definition packet_out :: "int \<times> stashed_output_packet \<Rightarrow> outgoing_reliable" where
  "packet_out e = \<lparr>or_op_code = (if is_fragment (snd e) then ReliableDataFragment else ReliableData),
     or_payload = packet_data (snd e)\<rparr>"

lemma mark_sent_simps [simp]:
  "fst (mark_sent now e) = fst e" "sent (snd (mark_sent now e))"
  "sent_at (snd (mark_sent now e)) = Some now"
  "packet_data (snd (mark_sent now e)) = packet_data (snd e)"
  "is_fragment (snd (mark_sent now e)) = is_fragment (snd e)"
  by (simp_all add: mark_sent_def)

lemma dispatch_one_eq:
  "dispatch_queue (dispatch_one now ch) =
     (dispatch_queue ch)[current_dispatch_index ch :=
        mark_sent now (dispatch_queue ch ! current_dispatch_index ch)]"
  "current_dispatch_index (dispatch_one now ch) = current_dispatch_index ch + 1"
  "out_outgoing (dispatch_one now ch) =
     out_outgoing ch @ [packet_out (dispatch_queue ch ! current_dispatch_index ch)]"
  by (simp_all add: dispatch_one_def Let_def split_beta mark_sent_def packet_out_def)

lemma dispatch_one_frame [simp, frame_simps]:
  "out_config (dispatch_one now ch) = out_config ch"
  "out_cipher (dispatch_one now ch) = out_cipher ch"
  "total_sequence (dispatch_one now ch) = total_sequence ch"
  "max_client_sequence (dispatch_one now ch) = max_client_sequence ch"
  "srtt (dispatch_one now ch) = srtt ch" "rttvar (dispatch_one now ch) = rttvar ch"
  "rto (dispatch_one now ch) = rto ch"
  by (simp_all add: dispatch_one_def Let_def split_beta)

lemma dispatch_loop_frame [simp, frame_simps]:
  "out_config (dispatch_loop now mx ch) = out_config ch \<and>
   out_cipher (dispatch_loop now mx ch) = out_cipher ch \<and>
   total_sequence (dispatch_loop now mx ch) = total_sequence ch \<and>
   max_client_sequence (dispatch_loop now mx ch) = max_client_sequence ch \<and>
   srtt (dispatch_loop now mx ch) = srtt ch \<and> rttvar (dispatch_loop now mx ch) = rttvar ch \<and>
   rto (dispatch_loop now mx ch) = rto ch"
proof (induction now mx ch rule: dispatch_loop.induct)
  case (1 now mx ch)
  then show ?case by (subst (1 2 3 4 5 6 7) dispatch_loop.simps) simp
qed

lemma dispatch_loop_effect:
  assumes "current_dispatch_index ch \<le> mx" and "mx \<le> length (dispatch_queue ch)"
  shows "dispatch_queue (dispatch_loop now mx ch) =
      take (current_dispatch_index ch) (dispatch_queue ch) @
      map (mark_sent now) (drop (current_dispatch_index ch) (take mx (dispatch_queue ch))) @
      drop mx (dispatch_queue ch) \<and>
    current_dispatch_index (dispatch_loop now mx ch) = mx \<and>
    out_outgoing (dispatch_loop now mx ch) = out_outgoing ch @
      map packet_out (drop (current_dispatch_index ch) (take mx (dispatch_queue ch)))"
  using assms
proof (induction "mx - current_dispatch_index ch" arbitrary: ch)
  case 0
  then show ?case by (subst (1 2 3) dispatch_loop.simps) simp
next
  case (Suc n)
  let ?i = "current_dispatch_index ch" and ?q = "dispatch_queue ch"
  let ?ch = "dispatch_one now ch"
  have i: "?i < mx" and il: "?i < length ?q" using Suc by simp_all
  have split: "drop ?i (take mx ?q) = ?q ! ?i # drop (Suc ?i) (take mx ?q)"
    using Cons_nth_drop_Suc [of ?i "take mx ?q"] i il by simp
  have step: "dispatch_loop now mx ch = dispatch_loop now mx ?ch"
    using i by (subst dispatch_loop.simps) simp
  have "dispatch_queue (dispatch_loop now mx ?ch) =
      take (Suc ?i) (dispatch_queue ?ch) @
      map (mark_sent now) (drop (Suc ?i) (take mx (dispatch_queue ?ch))) @
      drop mx (dispatch_queue ?ch) \<and>
    current_dispatch_index (dispatch_loop now mx ?ch) = mx \<and>
    out_outgoing (dispatch_loop now mx ?ch) = out_outgoing ?ch @
      map packet_out (drop (Suc ?i) (take mx (dispatch_queue ?ch)))"
    using Suc.hyps(1) [of ?ch] Suc.hyps(2) Suc.prems i by (simp add: dispatch_one_eq)
  moreover have "take (Suc ?i) (dispatch_queue ?ch) = take ?i ?q @ [mark_sent now (?q ! ?i)]"
    using il by (simp add: dispatch_one_eq take_Suc_conv_app_nth)
  moreover have "drop (Suc ?i) (take mx (dispatch_queue ?ch)) = drop (Suc ?i) (take mx ?q)"
    by (simp add: dispatch_one_eq take_update_swap)
  moreover have "drop mx (dispatch_queue ?ch) = drop mx ?q"
    using i by (simp add: dispatch_one_eq)
  ultimately show ?case
    by (simp add: step split dispatch_one_eq)
qed

text \<open>The window invariant: the dispatch index stays inside the window, everything before it
  has been sent, nothing outside the window has, and the queue is ordered by sequence.\<close>

definition window_of :: "output_channel \<Rightarrow> nat" where
  "window_of ch = min (length (dispatch_queue ch)) (max_queued_outgoing (out_config ch))"

definition entry_ok :: "output_channel \<Rightarrow> nat \<Rightarrow> bool" where
  "entry_ok ch i \<longleftrightarrow>
     (let p = snd (dispatch_queue ch ! i) in
      (i < current_dispatch_index ch \<longrightarrow> sent p) \<and>
      (sent p \<longrightarrow> i < max_queued_outgoing (out_config ch) \<and> sent_at p \<noteq> None))"

definition output_ok :: "output_channel \<Rightarrow> bool" where
  "output_ok ch \<longleftrightarrow>
     current_dispatch_index ch \<le> window_of ch \<and>
     (\<forall>i<length (dispatch_queue ch). entry_ok ch i) \<and>
     sorted_wrt (<) (map fst (dispatch_queue ch)) \<and>
     (\<forall>e\<in>set (dispatch_queue ch). 0 \<le> fst e \<and> fst e < total_sequence ch) \<and>
     0 \<le> total_sequence ch"

lemma output_ok_new: "output_ok (output_new config cipher now)"
  by (simp add: output_ok_def output_new_def)

lemma output_ok_cong:
  assumes "dispatch_queue ch' = dispatch_queue ch"
    and "current_dispatch_index ch' = current_dispatch_index ch"
    and "total_sequence ch' = total_sequence ch" and "out_config ch' = out_config ch"
  shows "output_ok ch' = output_ok ch"
  by (simp add: output_ok_def window_of_def entry_ok_def assms)

lemmas output_ok_same = output_ok_cong [THEN iffD2]

lemma window_of_dispatch:
  assumes "output_ok ch" and "dispatch_queue ch' = dispatch_queue ch"
    and "out_config ch' = out_config ch" and "total_sequence ch' = total_sequence ch"
    and "current_dispatch_index ch' \<le> current_dispatch_index ch"
  shows "output_ok (dispatch_loop now (window_of ch') ch')"
proof -
  let ?q = "dispatch_queue ch" and ?i = "current_dispatch_index ch'" and ?w = "window_of ch'"
  let ?r = "dispatch_loop now ?w ch'"
  have w: "?w = window_of ch" by (simp add: window_of_def assms)
  have i: "?i \<le> ?w" using assms(1,5) by (simp add: w output_ok_def)
  have wl: "?w \<le> length ?q" by (simp add: window_of_def assms)
  note eff = dispatch_loop_effect [OF i, unfolded assms(2), OF wl, of now]
  have len: "length (dispatch_queue ?r) = length ?q" using eff i wl by simp
  have index: "current_dispatch_index ?r = ?w" using eff by blast
  have fsts: "map fst (dispatch_queue ?r) = map fst ?q"
  proof -
    have "map fst (dispatch_queue ?r) =
        map fst (take ?i ?q @ drop ?i (take ?w ?q) @ drop ?w ?q)" using eff by simp
    also have "take ?i ?q @ drop ?i (take ?w ?q) = take ?w ?q"
      using append_take_drop_id [of ?i "take ?w ?q"] i by (simp add: min_def)
    then have "take ?i ?q @ drop ?i (take ?w ?q) @ drop ?w ?q = ?q"
      by (metis append.assoc append_take_drop_id)
    finally show ?thesis .
  qed
  have entries: "entry_ok ?r k" if k: "k < length ?q" for k
  proof (cases "k < ?w")
    case True
    then have "sent (snd (dispatch_queue ?r ! k)) \<and> sent_at (snd (dispatch_queue ?r ! k)) \<noteq> None"
    proof (cases "k < ?i")
      case True
      then have "dispatch_queue ?r ! k = ?q ! k" using eff k by (simp add: nth_append)
      moreover have "entry_ok ch k" using assms(1) k by (simp add: output_ok_def)
      ultimately show ?thesis using True assms(5) by (simp add: entry_ok_def Let_def)
    next
      case False
      then have "dispatch_queue ?r ! k = mark_sent now (?q ! k)"
        using eff k \<open>k < ?w\<close> wl by (auto simp: nth_append)
      then show ?thesis by simp
    qed
    with True show ?thesis by (simp add: entry_ok_def window_of_def)
  next
    case False
    then have "dispatch_queue ?r ! k = ?q ! k"
      using eff k i wl by (auto simp: nth_append)
    moreover have "entry_ok ch k" using assms(1) k by (simp add: output_ok_def)
    ultimately show ?thesis using False eff assms(3) by (simp add: entry_ok_def Let_def)
  qed
  have "fst e \<in> set (map fst ?q)" if "e \<in> set (dispatch_queue ?r)" for e
    using that unfolding fsts [symmetric] by simp
  then have "\<forall>e\<in>set (dispatch_queue ?r). 0 \<le> fst e \<and> fst e < total_sequence ch"
    using assms(1) unfolding output_ok_def by fastforce
  moreover have "current_dispatch_index ?r \<le> window_of ?r"
    unfolding index window_of_def [of ?r] len by (simp add: window_of_def assms)
  ultimately show ?thesis
    using assms(1,4) entries unfolding output_ok_def len fsts by simp
qed

lemma output_ok_run_tick: "output_ok ch \<Longrightarrow> output_ok (output_run_tick ch now)"
  using window_of_dispatch [of ch "ch\<lparr>current_dispatch_index := 0, rto := min (rto ch * 2) RTO_MAX\<rparr>" now]
    window_of_dispatch [of ch ch now]
  by (auto simp: output_run_tick_def Let_def window_of_def)

section \<open>What an acknowledgement does\<close>

lemma update_rto_frame [simp, frame_simps]:
  "dispatch_queue (update_rto ch d) = dispatch_queue ch"
  "current_dispatch_index (update_rto ch d) = current_dispatch_index ch"
  "total_sequence (update_rto ch d) = total_sequence ch"
  "out_config (update_rto ch d) = out_config ch"
  "out_cipher (update_rto ch d) = out_cipher ch"
  "out_outgoing (update_rto ch d) = out_outgoing ch"
  "max_client_sequence (update_rto ch d) = max_client_sequence ch"
  by (simp_all add: update_rto_def Let_def split: option.split)

lemma count_frame [simp, frame_simps]:
  "dispatch_queue (count_incoming ch) = dispatch_queue ch"
  "current_dispatch_index (count_incoming ch) = current_dispatch_index ch"
  "total_sequence (count_incoming ch) = total_sequence ch"
  "out_config (count_incoming ch) = out_config ch"
  "out_cipher (count_incoming ch) = out_cipher ch"
  "out_outgoing (count_incoming ch) = out_outgoing ch"
  "max_client_sequence (count_incoming ch) = max_client_sequence ch"
  "rto (count_incoming ch) = rto ch"
  "dispatch_queue (count_actual ch) = dispatch_queue ch"
  "current_dispatch_index (count_actual ch) = current_dispatch_index ch"
  "total_sequence (count_actual ch) = total_sequence ch"
  "out_config (count_actual ch) = out_config ch"
  "out_cipher (count_actual ch) = out_cipher ch"
  "out_outgoing (count_actual ch) = out_outgoing ch"
  "max_client_sequence (count_actual ch) = max_client_sequence ch"
  "rto (count_actual ch) = rto ch"
  by (simp_all add: count_incoming_def count_actual_def)

lemma raise_frame [simp, frame_simps]:
  "dispatch_queue (raise_max_client s ch) = dispatch_queue ch"
  "current_dispatch_index (raise_max_client s ch) = current_dispatch_index ch"
  "total_sequence (raise_max_client s ch) = total_sequence ch"
  "out_config (raise_max_client s ch) = out_config ch"
  "out_cipher (raise_max_client s ch) = out_cipher ch"
  "out_outgoing (raise_max_client s ch) = out_outgoing ch"
  "max_client_sequence (raise_max_client s ch) = max (max_client_sequence ch) s"
  "rto (raise_max_client s ch) = rto ch"
  by (simp_all add: raise_max_client_def)

lemma position_Some:
  "position P xs = Some i \<Longrightarrow> i < length xs \<and> P (xs ! i) \<and> (\<forall>j<i. \<not> P (xs ! j))"
proof (induction xs arbitrary: i)
  case (Cons x xs)
  then show ?case by (auto simp: less_Suc_eq_0_disj split: if_splits)
qed simp

lemma position_None: "position P xs = None \<longleftrightarrow> (\<forall>x\<in>set xs. \<not> P x)"
  by (induction xs) simp_all

lemma length_remove_at [simp]: "i < length xs \<Longrightarrow> length (remove_at i xs) = length xs - 1"
  by (simp add: remove_at_def)

lemma nth_remove_at:
  "i < length xs \<Longrightarrow> k < length xs - 1 \<Longrightarrow>
     remove_at i xs ! k = (if k < i then xs ! k else xs ! Suc k)"
  by (auto simp: remove_at_def nth_append min_def)

lemma set_remove_at: "set (remove_at i xs) \<subseteq> set xs"
  by (auto simp: remove_at_def dest: in_set_takeD in_set_dropD)

lemma map_remove_at: "map f (remove_at i xs) = remove_at i (map f xs)"
  by (simp add: remove_at_def take_map drop_map)

lemma sorted_wrt_remove_at:
  assumes "sorted_wrt R xs"
  shows "sorted_wrt R (remove_at i xs)"
proof -
  have "sorted_wrt R (take i xs @ drop i xs)" using assms by simp
  moreover have "set (drop (Suc i) xs) \<subseteq> set (drop i xs)" by (simp add: set_drop_subset_set_drop)
  moreover have "sorted_wrt R (drop (Suc i) xs)" using assms by (rule sorted_wrt_drop)
  ultimately show ?thesis unfolding remove_at_def sorted_wrt_append by blast
qed

lemma output_ok_remove:
  assumes "output_ok ch" and "pos < length (dispatch_queue ch)"
  shows "output_ok (ch\<lparr>dispatch_queue := remove_at pos (dispatch_queue ch),
    current_dispatch_index := current_dispatch_index ch - 1\<rparr>)" (is "output_ok ?ch")
proof -
  let ?q = "dispatch_queue ch" and ?q' = "remove_at pos (dispatch_queue ch)"
  have "entry_ok ?ch k" if k: "k < length ?q'" for k
  proof (cases "k < pos")
    case True
    have "entry_ok ch k" using assms k by (simp add: output_ok_def)
    with True show ?thesis using assms k by (simp add: entry_ok_def Let_def nth_remove_at)
  next
    case False
    have "entry_ok ch (Suc k)" using assms k by (simp add: output_ok_def)
    with False show ?thesis using assms k by (auto simp: entry_ok_def Let_def nth_remove_at)
  qed
  moreover have "sorted_wrt (<) (map fst ?q')"
    using assms(1) by (simp add: map_remove_at sorted_wrt_remove_at output_ok_def)
  moreover have "current_dispatch_index ?ch \<le> window_of ?ch"
    using assms by (auto simp: output_ok_def window_of_def)
  moreover have "\<forall>e\<in>set ?q'. 0 \<le> fst e \<and> fst e < total_sequence ch"
    using assms(1) set_remove_at [of pos ?q] by (auto simp: output_ok_def)
  ultimately show ?thesis using assms(1) by (simp add: output_ok_def)
qed

lemma output_ok_ack: "output_ok ch \<Longrightarrow> output_ok (notify_of_acknowledge ch sequence now)"
proof -
  assume ok: "output_ok ch"
  show ?thesis
  proof (cases "position (\<lambda>e. fst e = true_incoming ch sequence) (dispatch_queue ch)")
    case None
    then show ?thesis
      by (intro output_ok_same [OF _ _ _ _ ok]) (simp_all add: notify_of_acknowledge_def Let_def)
  next
    case (Some pos)
    then have "pos < length (dispatch_queue ch)" by (blast dest: position_Some)
    from output_ok_remove [OF ok this] Some show ?thesis
      by (elim output_ok_same [rotated -1])
        (simp_all add: notify_of_acknowledge_def Let_def split: option.split)
  qed
qed

text \<open>The loop drops the acknowledged prefix and moves the dispatch index with it.\<close>

lemma ack_all_loop_effect:
  "dispatch_queue (fst (ack_all_loop s now ch d)) = dropWhile (\<lambda>(t, _). t \<le> s) (dispatch_queue ch) \<and>
   current_dispatch_index (fst (ack_all_loop s now ch d)) =
     current_dispatch_index ch - length (takeWhile (\<lambda>(t, _). t \<le> s) (dispatch_queue ch)) \<and>
   total_sequence (fst (ack_all_loop s now ch d)) = total_sequence ch \<and>
   out_config (fst (ack_all_loop s now ch d)) = out_config ch \<and>
   out_cipher (fst (ack_all_loop s now ch d)) = out_cipher ch \<and>
   out_outgoing (fst (ack_all_loop s now ch d)) = out_outgoing ch \<and>
   rto (fst (ack_all_loop s now ch d)) = rto ch \<and>
   max_client_sequence (fst (ack_all_loop s now ch d)) = max_client_sequence ch"
proof (induction "dispatch_queue ch" arbitrary: ch d)
  case Nil
  show ?case by (subst (1 2 3 4 5 6 7 8) ack_all_loop.simps) (simp add: Nil [symmetric])
next
  case (Cons e rest)
  obtain t p where e: "e = (t, p)" by (cases e)
  let ?ch = "count_actual (ch\<lparr>dispatch_queue := rest,
    current_dispatch_index := current_dispatch_index ch - 1\<rparr>)"
  show ?case
  proof (cases "t \<le> s")
    case True
    then have "\<exists>d'. ack_all_loop s now ch d = ack_all_loop s now ?ch d'"
      by (subst ack_all_loop.simps) (auto simp: Cons.hyps(2) [symmetric] e Let_def)
    then obtain d' where d': "ack_all_loop s now ch d = ack_all_loop s now ?ch d'" by blast
    show ?thesis
      using Cons.hyps(1) [of ?ch d'] True by (simp add: d' Cons.hyps(2) [symmetric] e)
  next
    case False
    then have "ack_all_loop s now ch d = (ch, d)"
      by (subst ack_all_loop.simps) (simp add: Cons.hyps(2) [symmetric] e)
    with False show ?thesis by (simp add: Cons.hyps(2) [symmetric] e)
  qed
qed

lemma output_ok_ack_all_loop: "output_ok ch \<Longrightarrow> output_ok (fst (ack_all_loop s now ch d))"
proof (induction "dispatch_queue ch" arbitrary: ch d)
  case Nil
  then show ?case by (subst ack_all_loop.simps) (simp add: Nil.hyps [symmetric])
next
  case (Cons e rest)
  obtain t p where e: "e = (t, p)" by (cases e)
  let ?ch = "ch\<lparr>dispatch_queue := rest, current_dispatch_index := current_dispatch_index ch - 1\<rparr>"
  have "remove_at 0 (dispatch_queue ch) = rest"
    by (simp add: remove_at_def Cons.hyps(2) [symmetric])
  then have "output_ok ?ch"
    using output_ok_remove [OF Cons.prems, of 0] by (simp add: Cons.hyps(2) [symmetric])
  then have ok: "output_ok (count_actual ?ch)" by (elim output_ok_same [rotated -1]) simp_all
  show ?case
    using Cons.prems Cons.hyps(1) [OF _ ok]
    by (subst ack_all_loop.simps) (simp add: Cons.hyps(2) [symmetric] e Let_def)
qed

lemma output_ok_ack_all: "output_ok ch \<Longrightarrow> output_ok (notify_of_acknowledge_all ch sequence now)"
proof -
  assume ok: "output_ok ch"
  from ok have "output_ok (count_incoming ch)" by (elim output_ok_same [rotated -1]) simp_all
  from output_ok_ack_all_loop [OF this, of "true_incoming ch sequence" now None] show ?thesis
    by (elim output_ok_same [rotated -1])
      (simp_all add: notify_of_acknowledge_all_def Let_def split_beta split: option.split)
qed

end
