(* ===== verification/Soe_Output_Run.thy ===== *)
theory Soe_Output_Run
  imports Soe_Output
begin

text \<open>
  Runs of the reliable output channel: every sequence of its operations keeps the send window
  and the retransmit timeout in their bounds, and every packet it queues or emits is one of the
  packets the enqueued messages were cut into. The properties of the channel close the theory.
\<close>

section \<open>Enqueueing keeps the window\<close>

lemma set_stash_all: "e \<in> set (stash_all s ps) \<Longrightarrow>
    s \<le> fst e \<and> fst e < s + int (length ps) \<and> \<not> sent (snd e)"
  by (induction ps arbitrary: s) (fastforce simp: stash_entry_def)+

lemma sorted_stash_all: "sorted_wrt (<) (map fst (stash_all s ps))"
  by (induction ps arbitrary: s) (auto simp: stash_entry_def dest: set_stash_all)

lemma output_ok_append: "output_ok ch \<Longrightarrow> output_ok (append_packets ps ch)"
proof -
  assume ok: "output_ok ch"
  let ?ch = "append_packets ps ch"
  have q: "dispatch_queue ?ch = dispatch_queue ch @ stash_all (total_sequence ch) ps"
    by (simp add: append_packets_def)
  have fields: "current_dispatch_index ?ch = current_dispatch_index ch"
    "out_config ?ch = out_config ch" "total_sequence ?ch = total_sequence ch + int (length ps)"
    by (simp_all add: append_packets_def)
  have idx: "current_dispatch_index ch \<le> length (dispatch_queue ch)"
    using ok by (simp add: output_ok_def window_of_def)
  have "entry_ok ?ch k" if "k < length (dispatch_queue ?ch)" for k
  proof (cases "k < length (dispatch_queue ch)")
    case True
    then have "entry_ok ch k" using ok by (simp add: output_ok_def)
    with True show ?thesis by (simp add: entry_ok_def q fields nth_append)
  next
    case False
    with that have "\<not> sent (snd (dispatch_queue ?ch ! k))"
      by (simp add: q nth_append nth_stash_all stash_entry_def)
    with False idx show ?thesis by (simp add: entry_ok_def fields Let_def)
  qed
  moreover have "sorted_wrt (<) (map fst (dispatch_queue ?ch))"
    using ok sorted_stash_all [of "total_sequence ch" ps]
    by (fastforce simp: q output_ok_def sorted_wrt_append dest: set_stash_all)
  moreover have "\<forall>e\<in>set (dispatch_queue ?ch). 0 \<le> fst e \<and> fst e < total_sequence ?ch"
    using ok by (fastforce simp: q fields output_ok_def dest: set_stash_all)
  moreover have "current_dispatch_index ?ch \<le> window_of ?ch"
    using ok by (auto simp: fields q output_ok_def window_of_def)
  ultimately show ?thesis using ok by (simp add: output_ok_def fields)
qed

section \<open>Runs of the channel\<close>

datatype output_event =
    EvEnqueue bytes
  | EvTick instant
  | EvAck u16 instant
  | EvAckAll u16 instant
  | EvDrain

primrec output_step :: "output_channel \<Rightarrow> output_event \<Rightarrow> output_channel option" where
  "output_step ch (EvEnqueue data) = enqueue_data ch data"
| "output_step ch (EvTick now) = Some (output_run_tick ch now)"
| "output_step ch (EvAck sequence now) = Some (notify_of_acknowledge ch sequence now)"
| "output_step ch (EvAckAll sequence now) = Some (notify_of_acknowledge_all ch sequence now)"
| "output_step ch EvDrain = Some (snd (output_take_outgoing ch))"

primrec output_run :: "output_channel \<Rightarrow> output_event list \<Rightarrow> output_channel option" where
  "output_run ch [] = Some ch"
| "output_run ch (e # es) = Option.bind (output_step ch e) (\<lambda>ch. output_run ch es)"

text \<open>An invariant of every step is an invariant of every run, and steps that are defined
  under it make every run defined.\<close>

lemma output_run_invariant:
  assumes "\<And>ch e. I ch \<Longrightarrow> \<exists>ch'. output_step ch e = Some ch' \<and> I ch'" and "I ch"
  shows "\<exists>ch'. output_run ch es = Some ch' \<and> I ch'"
  using assms(2)
proof (induction es arbitrary: ch)
  case (Cons e es)
  obtain ch1 where "output_step ch e = Some ch1" and "I ch1" using assms(1) [OF Cons.prems] by blast
  with Cons.IH show ?case by simp
qed simp

lemma output_config_frame [simp, frame_simps]:
  "out_config (output_run_tick ch now) = out_config ch"
  "out_config (notify_of_acknowledge ch sequence now) = out_config ch"
  "out_config (notify_of_acknowledge_all ch sequence now) = out_config ch"
  "out_cipher (output_run_tick ch now) = out_cipher ch"
  "out_cipher (notify_of_acknowledge ch sequence now) = out_cipher ch"
  "out_cipher (notify_of_acknowledge_all ch sequence now) = out_cipher ch"
  "total_sequence (output_run_tick ch now) = total_sequence ch"
  "total_sequence (notify_of_acknowledge ch sequence now) = total_sequence ch"
  "total_sequence (notify_of_acknowledge_all ch sequence now) = total_sequence ch"
  by (simp_all add: output_run_tick_def notify_of_acknowledge_def notify_of_acknowledge_all_def
      Let_def split_beta ack_all_loop_effect split: option.split)

lemma drain_frame [simp, frame_simps]:
  "out_config (snd (output_take_outgoing ch)) = out_config ch"
  "out_cipher (snd (output_take_outgoing ch)) = out_cipher ch"
  "rto (snd (output_take_outgoing ch)) = rto ch"
  by (simp_all add: output_take_outgoing_def)

lemma append_packets_frame [simp, frame_simps]:
  "out_config (append_packets ps ch) = out_config ch"
  "out_cipher (append_packets ps ch) = out_cipher ch"
  "rto (append_packets ps ch) = rto ch"
  "out_outgoing (append_packets ps ch) = out_outgoing ch"
  "current_dispatch_index (append_packets ps ch) = current_dispatch_index ch"
  by (simp_all add: append_packets_def)

lemma output_ok_enqueue:
  assumes "output_ok ch" and "6 \<le> max_data_length (out_config ch)"
  shows "\<exists>ch'. enqueue_data ch data = Some ch' \<and> output_ok ch' \<and> out_config ch' = out_config ch \<and>
    rto ch' = rto ch"
proof (cases "data = []")
  case False
  have "output_ok (ch\<lparr>out_cipher := snd (seal (out_cipher ch) data)\<rparr>)"
    by (rule output_ok_same [OF _ _ _ _ assms(1)]) simp_all
  then show ?thesis
    by (simp add: enqueue_eq [OF False assms(2)] output_ok_append)
qed (simp add: assms)

lemma output_ok_drain: "output_ok ch \<Longrightarrow> output_ok (snd (output_take_outgoing ch))"
  by (elim output_ok_same [rotated -1]) (simp_all add: output_take_outgoing_def)

lemma output_step_ok:
  assumes "6 \<le> max_data_length config" and "output_ok ch \<and> out_config ch = config"
  shows "\<exists>ch'. output_step ch e = Some ch' \<and> output_ok ch' \<and> out_config ch' = config"
  using assms output_ok_enqueue [of ch]
  by (cases e) (auto simp: output_ok_run_tick output_ok_ack output_ok_ack_all output_ok_drain)

lemma output_run_ok:
  assumes "6 \<le> max_data_length config"
  shows "\<exists>ch. output_run (output_new config cipher now) es = Some ch \<and> output_ok ch \<and>
    out_config ch = config"
  using output_run_invariant [of "\<lambda>ch. output_ok ch \<and> out_config ch = config"]
    output_step_ok [OF assms] output_ok_new
  by (simp add: output_new_def)

text \<open>The packets in flight: sent and not acknowledged.\<close>

definition in_flight :: "output_channel \<Rightarrow> nat" where
  "in_flight ch = length (filter (\<lambda>e. sent (snd e)) (dispatch_queue ch))"

lemma in_flight_le: "output_ok ch \<Longrightarrow> in_flight ch \<le> max_queued_outgoing (out_config ch)"
proof -
  assume "output_ok ch"
  then have "{i. i < length (dispatch_queue ch) \<and> sent (snd (dispatch_queue ch ! i))}
      \<subseteq> {..<max_queued_outgoing (out_config ch)}"
    by (auto simp: output_ok_def entry_ok_def Let_def)
  from card_mono [OF _ this] show ?thesis
    by (simp add: in_flight_def length_filter_conv_card)
qed

section \<open>The retransmit timeout\<close>

lemma rto_bounds_update: "RTO_MIN \<le> rto (update_rto ch d) \<and> rto (update_rto ch d) \<le> RTO_MAX"
  by (simp add: update_rto_def Let_def rto_constants)

definition rto_ok :: "output_channel \<Rightarrow> bool" where
  "rto_ok ch \<longleftrightarrow> RTO_MIN \<le> rto ch \<and> rto ch \<le> RTO_MAX"

lemma rto_ok_step:
  assumes "output_ok ch" and "6 \<le> max_data_length (out_config ch)" and "rto_ok ch"
    and "output_step ch e = Some ch'"
  shows "rto_ok ch'"
proof (cases e)
  case (EvEnqueue data)
  with assms output_ok_enqueue [OF assms(1,2), of data] show ?thesis by (auto simp: rto_ok_def)
next
  case (EvTick now)
  with assms show ?thesis
    by (auto simp: rto_ok_def output_run_tick_def Let_def rto_constants)
next
  case (EvAck sequence now)
  with assms rto_bounds_update show ?thesis
    by (auto simp: rto_ok_def notify_of_acknowledge_def Let_def split: option.split)
next
  case (EvAckAll sequence now)
  with assms rto_bounds_update show ?thesis
    by (auto simp: rto_ok_def notify_of_acknowledge_all_def Let_def split_beta
        ack_all_loop_effect split: option.split)
next
  case EvDrain
  with assms show ?thesis by (auto simp: rto_ok_def output_take_outgoing_def)
qed

section \<open>What the channel carries\<close>

text \<open>Every queued and every emitted packet is one of the packets \<open>P\<close> the messages were cut
  into, under its own sequence.\<close>

definition packet_wire :: "rpacket list \<Rightarrow> nat \<Rightarrow> outgoing_reliable" where
  "packet_wire P i = \<lparr>or_op_code = (if fst (P ! i) then ReliableDataFragment else ReliableData),
     or_payload = be16 (wire_sequence (int i)) @ snd (P ! i)\<rparr>"

definition carries :: "rpacket list \<Rightarrow> output_channel \<Rightarrow> bool" where
  "carries P ch \<longleftrightarrow> total_sequence ch = int (length P) \<and>
     (\<forall>e\<in>set (dispatch_queue ch).
        0 \<le> fst e \<and> fst e < int (length P) \<and> packet_out e = packet_wire P (nat (fst e))) \<and>
     (\<forall>r\<in>set (out_outgoing ch). \<exists>i<length P. r = packet_wire P i)"

lemma packet_out_mark [simp]: "packet_out (mark_sent now e) = packet_out e"
  by (simp add: packet_out_def)

lemma packet_wire_append [simp]: "i < length P \<Longrightarrow> packet_wire (P @ Q) i = packet_wire P i"
  by (simp add: packet_wire_def nth_append)

lemma carries_new: "carries [] (output_new config cipher now)"
  by (simp add: carries_def output_new_def)

lemma carries_subset:
  assumes "carries P ch" and "set (dispatch_queue ch') \<subseteq> set (dispatch_queue ch)"
    and "set (out_outgoing ch') \<subseteq> set (out_outgoing ch)"
    and "total_sequence ch' = total_sequence ch"
  shows "carries P ch'"
  using assms by (auto simp: carries_def)

definition entry_of :: "rpacket list \<Rightarrow> int \<times> stashed_output_packet \<Rightarrow> bool" where
  "entry_of P e \<longleftrightarrow>
     0 \<le> fst e \<and> fst e < int (length P) \<and> packet_out e = packet_wire P (nat (fst e))"

lemma carries_alt:
  "carries P ch \<longleftrightarrow> total_sequence ch = int (length P) \<and>
     list_all (entry_of P) (dispatch_queue ch) \<and>
     list_all (\<lambda>r. \<exists>i<length P. r = packet_wire P i) (out_outgoing ch)"
  by (simp add: carries_def entry_of_def list_all_iff)

lemma entry_of_append: "entry_of P e \<Longrightarrow> entry_of (P @ Q) e"
  by (simp add: entry_of_def nat_less_iff)

lemma entry_of_mark [simp]: "entry_of P (mark_sent now e) = entry_of P e"
  by (simp add: entry_of_def)

lemma entry_of_out: "entry_of P e \<Longrightarrow> \<exists>i<length P. packet_out e = packet_wire P i"
  by (intro exI [of _ "nat (fst e)"]) (simp add: entry_of_def nat_less_iff)

lemma entry_of_stash_all: "list_all (entry_of (P @ ps)) (stash_all (int (length P)) ps)"
proof (rule list_all_length [THEN iffD2], intro allI impI)
  fix i
  assume "i < length (stash_all (int (length P)) ps)"
  then show "entry_of (P @ ps) (stash_all (int (length P)) ps ! i)"
    by (simp add: nth_stash_all entry_of_def packet_out_def packet_wire_def stash_entry_def
        nat_add_distrib nth_append)
qed

lemma carries_append_packets:
  assumes "carries P ch"
  shows "carries (P @ ps) (append_packets ps ch)"
proof -
  have total: "total_sequence ch = int (length P)"
    and queue: "list_all (entry_of P) (dispatch_queue ch)"
    and out: "list_all (\<lambda>r. \<exists>i<length P. r = packet_wire P i) (out_outgoing ch)"
    using assms by (simp_all add: carries_alt)
  have "list_all (entry_of (P @ ps)) (dispatch_queue ch)"
    using queue by (rule list.pred_mono_strong) (simp add: entry_of_append)
  moreover have "list_all (\<lambda>r. \<exists>i<length (P @ ps). r = packet_wire (P @ ps) i) (out_outgoing ch)"
    using out by (rule list.pred_mono_strong) (metis length_append packet_wire_append trans_less_add1)
  ultimately show ?thesis
    using entry_of_stash_all [of P ps]
    by (simp add: carries_alt append_packets_def total)
qed

lemma list_all_take: "list_all Q xs \<Longrightarrow> list_all Q (take n xs)"
  by (auto simp: list_all_iff dest: in_set_takeD)

lemma list_all_drop: "list_all Q xs \<Longrightarrow> list_all Q (drop n xs)"
  by (auto simp: list_all_iff dest: in_set_dropD)

lemma carries_dispatch:
  assumes "carries P ch" and "current_dispatch_index ch \<le> mx" and "mx \<le> length (dispatch_queue ch)"
  shows "carries P (dispatch_loop now mx ch)"
proof -
  let ?q = "dispatch_queue ch" and ?i = "current_dispatch_index ch"
  let ?sent = "drop ?i (take mx ?q)"
  have queue: "list_all (entry_of P) ?q"
    and out: "list_all (\<lambda>r. \<exists>i<length P. r = packet_wire P i) (out_outgoing ch)"
    using assms(1) by (simp_all add: carries_alt)
  have "list_all (entry_of P) ?sent" using queue by (simp add: list_all_take list_all_drop)
  then have "list_all (\<lambda>r. \<exists>i<length P. r = packet_wire P i) (map packet_out ?sent)"
    and "list_all (entry_of P) (map (mark_sent now) ?sent)"
    by (auto simp: list_all_iff entry_of_out)
  with queue out assms(1) show ?thesis
    using dispatch_loop_effect [OF assms(2,3), of now]
    by (simp add: carries_alt list_all_take list_all_drop)
qed

lemma carries_run_tick:
  assumes "carries P ch" and "output_ok ch"
  shows "carries P (output_run_tick ch now)"
proof -
  let ?ch = "ch\<lparr>current_dispatch_index := 0, rto := min (rto ch * 2) RTO_MAX\<rparr>"
  have "carries P ?ch" by (rule carries_subset [OF assms(1)]) simp_all
  then show ?thesis
    using assms carries_dispatch [of P ?ch "window_of ch" now]
      carries_dispatch [of P ch "window_of ch" now]
    by (auto simp: output_run_tick_def Let_def output_ok_def window_of_def)
qed

lemma carries_acks:
  assumes "carries P ch"
  shows "carries P (notify_of_acknowledge ch sequence now)"
    and "carries P (notify_of_acknowledge_all ch sequence now)"
proof -
  show "carries P (notify_of_acknowledge ch sequence now)"
    by (intro carries_subset [OF assms])
      (auto simp: notify_of_acknowledge_def Let_def split: option.split
        dest: subsetD [OF set_remove_at])
  show "carries P (notify_of_acknowledge_all ch sequence now)"
    by (intro carries_subset [OF assms])
      (auto simp: notify_of_acknowledge_all_def Let_def split_beta ack_all_loop_effect
        split: option.split dest: set_dropWhileD)
qed

lemma carries_drain: "carries P ch \<Longrightarrow> carries P (snd (output_take_outgoing ch))"
  by (elim carries_subset) (simp_all add: output_take_outgoing_def)

text \<open>The packets of a list of messages, the cipher running through.\<close>

primrec stream_packets ::
    "nat \<Rightarrow> rc4_key_state option \<Rightarrow> bytes list \<Rightarrow> rpacket list \<times> rc4_key_state option" where
  "stream_packets m c [] = ([], c)"
| "stream_packets m c (d # ds) =
     (if d = [] then stream_packets m c ds
      else let (body, c) = seal c d; (ps, c) = stream_packets m c ds in (packets_of m body @ ps, c))"

lemma stream_packets_append:
  "stream_packets m c (ds @ es) =
     (let (ps, c) = stream_packets m c ds; (qs, c) = stream_packets m c es in (ps @ qs, c))"
  by (induction ds arbitrary: c) (simp_all add: Let_def split_beta)

lemma carries_enqueue:
  assumes "carries P ch" and "6 \<le> max_data_length (out_config ch)"
    and "enqueue_data ch data = Some ch'"
    and "(P, out_cipher ch) = stream_packets (max_data_length (out_config ch) - 2) c ms"
  shows "\<exists>P'. carries P' ch' \<and> prefix P P' \<and>
    (P', out_cipher ch') = stream_packets (max_data_length (out_config ch) - 2) c (ms @ [data])"
proof (cases "data = []")
  case True
  with assms show ?thesis by (auto simp: stream_packets_append Let_def split_beta)
next
  case False
  let ?m = "max_data_length (out_config ch) - 2"
  let ?ps = "packets_of ?m (fst (seal (out_cipher ch) data))"
  have sp: "stream_packets ?m c ms = (P, out_cipher ch)" using assms(4) by simp
  have "carries P (ch\<lparr>out_cipher := snd (seal (out_cipher ch) data)\<rparr>)"
    by (rule carries_subset [OF assms(1)]) simp_all
  then have "carries (P @ ?ps) ch'"
    using assms(3) carries_append_packets by (auto simp: enqueue_eq [OF False assms(2)])
  moreover have "(P @ ?ps, out_cipher ch') = stream_packets ?m c (ms @ [data])"
    using assms(3) False sp
    by (auto simp: enqueue_eq [OF False assms(2)] stream_packets_append split_beta)
  ultimately show ?thesis by (intro exI [of _ "P @ ?ps"]) simp
qed

section \<open>Reassembly\<close>

text \<open>The inverse of fragmentation: a lone unfragmented packet is the message; otherwise the
  master fragment's length prefix is dropped and the rest joined.\<close>

definition reassemble :: "rpacket list \<Rightarrow> bytes" where
  "reassemble ps = (case ps of
      [] \<Rightarrow> []
    | p # rest \<Rightarrow> if fst p then drop 4 (snd p) @ concat (map snd rest) else snd p)"

lemma concat_chunks: "0 < m \<Longrightarrow> concat (map snd (chunks m data)) = data"
proof (induction m data rule: chunks.induct)
  case (1 m data)
  then show ?case by (subst chunks.simps) simp
qed

lemma chunks_sizes: "p \<in> set (chunks m data) \<Longrightarrow> fst p \<and> snd p \<noteq> [] \<and> length (snd p) \<le> m"
proof (induction m data rule: chunks.induct)
  case (1 m data)
  show ?case
  proof (cases "data = [] \<or> m = 0")
    case True
    with 1(2) show ?thesis by (subst (asm) chunks.simps) simp
  next
    case False
    with 1(2) have "p = (True, take m data) \<or> p \<in> set (chunks m (drop m data))"
      by (subst (asm) chunks.simps) simp
    with 1(1) [OF False] False show ?thesis by auto
  qed
qed

lemma reassemble_packets_of: "4 \<le> m \<Longrightarrow> reassemble (packets_of m body) = body"
  by (simp add: packets_of_def reassemble_def concat_chunks)

lemma packets_of_sizes: "4 \<le> m \<Longrightarrow> p \<in> set (packets_of m body) \<Longrightarrow> length (snd p) \<le> m"
  by (auto simp: packets_of_def dest: chunks_sizes split: if_splits)

section \<open>Acknowledging a sequence\<close>

lemma dropWhile_sorted:
  "sorted_wrt (<) (map fst q) \<Longrightarrow>
     dropWhile (\<lambda>(t, _). t \<le> s) q = filter (\<lambda>e. (s :: int) < fst e) q"
proof (induction q)
  case (Cons e q)
  then have "s < fst e \<Longrightarrow> filter (\<lambda>e. s < fst e) q = q"
    by (intro filter_True) fastforce
  with Cons show ?case by (auto simp: split_beta)
qed simp

lemma remove_at_position:
  "sorted_wrt (<) (map fst q) \<Longrightarrow> position (\<lambda>e. fst e = s) q = Some pos \<Longrightarrow>
     remove_at pos q = filter (\<lambda>e. fst e \<noteq> (s :: int)) q"
proof (induction q arbitrary: pos)
  case (Cons e q)
  show ?case
  proof (cases "fst e = s")
    case True
    with Cons.prems have "pos = 0" by (simp add: split_beta)
    moreover have "filter (\<lambda>e. fst e \<noteq> s) q = q"
      using Cons.prems(1) True by (intro filter_True) fastforce
    ultimately show ?thesis using True by (simp add: remove_at_def)
  next
    case False
    with Cons.prems(2) obtain k where k: "pos = Suc k" "position (\<lambda>e. fst e = s) q = Some k"
      by (auto simp: split_beta)
    have "remove_at k q = filter (\<lambda>e. fst e \<noteq> s) q"
      using Cons.IH [OF _ k(2)] Cons.prems(1) by simp
    with k False show ?thesis by (simp add: remove_at_def)
  qed
qed simp

lemma ack_queue:
  assumes "output_ok ch"
  shows "dispatch_queue (notify_of_acknowledge ch sequence now) =
      filter (\<lambda>e. fst e \<noteq> true_incoming ch sequence) (dispatch_queue ch)"
    and "dispatch_queue (notify_of_acknowledge_all ch sequence now) =
      filter (\<lambda>e. true_incoming ch sequence < fst e) (dispatch_queue ch)"
proof -
  have sorted: "sorted_wrt (<) (map fst (dispatch_queue ch))"
    using assms by (simp add: output_ok_def)
  show "dispatch_queue (notify_of_acknowledge ch sequence now) =
      filter (\<lambda>e. fst e \<noteq> true_incoming ch sequence) (dispatch_queue ch)"
  proof (cases "position (\<lambda>e. fst e = true_incoming ch sequence) (dispatch_queue ch)")
    case None
    then have "filter (\<lambda>e. fst e \<noteq> true_incoming ch sequence) (dispatch_queue ch) = dispatch_queue ch"
      by (intro filter_True) (auto simp: position_None)
    with None show ?thesis by (simp add: notify_of_acknowledge_def Let_def)
  next
    case (Some pos)
    with remove_at_position [OF sorted Some] show ?thesis
      by (simp add: notify_of_acknowledge_def Let_def split: option.split)
  qed
  show "dispatch_queue (notify_of_acknowledge_all ch sequence now) =
      filter (\<lambda>e. true_incoming ch sequence < fst e) (dispatch_queue ch)"
    using dropWhile_sorted [OF sorted, of "true_incoming ch sequence"]
    by (simp add: notify_of_acknowledge_all_def Let_def split_beta ack_all_loop_effect
        split: option.split)
qed

lemma true_incoming_behind:
  assumes "0 \<le> a" and "a + int w < m" and "m < 65536"
  shows "true_incoming_sequence (wire_sequence a) m (int w) = a + 65536"
proof -
  have "m < 2 ^ 62" and "0 \<le> m" using assms by simp_all
  then show ?thesis
    using assms by (simp add: true_incoming_eq Let_def)
qed

lemma run_tick_effect:
  assumes "output_ok ch"
  shows "(let start = (if oldest_timed_out ch now then 0 else current_dispatch_index ch);
      ch' = output_run_tick ch now in
    out_outgoing ch' = out_outgoing ch @
      map packet_out (drop start (take (window_of ch) (dispatch_queue ch))) \<and>
    current_dispatch_index ch' = window_of ch \<and>
    rto ch' = (if oldest_timed_out ch now then min (rto ch * 2) RTO_MAX else rto ch))"
  using assms
    dispatch_loop_effect [of "ch\<lparr>current_dispatch_index := 0, rto := min (rto ch * 2) RTO_MAX\<rparr>"
      "window_of ch" now]
    dispatch_loop_effect [of ch "window_of ch" now]
  by (simp add: output_run_tick_def Let_def output_ok_def window_of_def)

section \<open>The sequences left in the queue\<close>

lemma output_run_append:
  "output_run ch (es @ fs) = Option.bind (output_run ch es) (\<lambda>ch. output_run ch fs)"
  by (induction es arbitrary: ch) simp_all

lemma enqueue_short:
  assumes "out_cipher ch = None" and "6 \<le> max_data_length (out_config ch)" and "d \<noteq> []"
    and "length d + 2 \<le> max_data_length (out_config ch)"
  shows "enqueue_data ch d = Some (append_packets [(False, d)] ch)"
proof -
  have same: "ch\<lparr>out_cipher := None\<rparr> = ch" using assms(1) by (cases ch) simp
  have "enqueue_data ch d = Some (append_packets [(False, d)] (ch\<lparr>out_cipher := None\<rparr>))"
    using assms by (auto simp: enqueue_eq seal_def packets_of_def)
  then show ?thesis unfolding same .
qed

lemma run_enqueues:
  assumes "out_cipher ch = None" and "6 \<le> max_data_length (out_config ch)"
    and "list_all (\<lambda>d. d \<noteq> [] \<and> length d + 2 \<le> max_data_length (out_config ch)) ds"
  shows "output_run ch (map EvEnqueue ds) = Some (append_packets (map (Pair False) ds) ch)"
  using assms
  by (induction ds arbitrary: ch) (simp_all add: enqueue_short append_packets_append)

lemma tick_queue:
  assumes "output_ok ch"
  shows "map fst (dispatch_queue (output_run_tick ch now)) = map fst (dispatch_queue ch) \<and>
    max_client_sequence (output_run_tick ch now) = max_client_sequence ch"
proof -
  have "map fst (dispatch_queue (dispatch_loop now w c)) = map fst (dispatch_queue c)"
    if "current_dispatch_index c \<le> w" and "w \<le> length (dispatch_queue c)" for c w
  proof -
    let ?q = "dispatch_queue c" and ?i = "current_dispatch_index c"
    have "take ?i ?q = take ?i (take w ?q)" using that by (simp add: min_def)
    then have "map fst (take ?i ?q @ map (mark_sent now) (drop ?i (take w ?q)) @ drop w ?q) =
        map fst ((take ?i (take w ?q) @ drop ?i (take w ?q)) @ drop w ?q)" by simp
    then show ?thesis
      using dispatch_loop_effect [OF that, of now] by (simp only: append_take_drop_id)
  qed
  from this [of "ch\<lparr>current_dispatch_index := 0, rto := min (rto ch * 2) RTO_MAX\<rparr>"]
    this [of ch] assms show ?thesis
    by (simp add: output_run_tick_def Let_def output_ok_def window_of_def)
qed

lemma ack_max_client:
  "max_client_sequence (notify_of_acknowledge ch sequence now) =
     max (max_client_sequence ch) (true_incoming ch sequence)"
  by (simp add: notify_of_acknowledge_def Let_def split: option.split)

text \<open>The abstract state of the acknowledgement protocol: the queued sequences and the
  highest one acknowledged.\<close>

definition tracks :: "output_config \<Rightarrow> int list \<Rightarrow> int \<Rightarrow> int \<Rightarrow> output_channel \<Rightarrow> bool" where
  "tracks config qs m n ch \<longleftrightarrow> output_ok ch \<and> map fst (dispatch_queue ch) = qs \<and>
     max_client_sequence ch = m \<and> total_sequence ch = n \<and> out_config ch = config"

lemma tracks_tick: "tracks config qs m n ch \<Longrightarrow> tracks config qs m n (output_run_tick ch now)"
  by (simp add: tracks_def tick_queue output_ok_run_tick)

lemma tracks_ack:
  assumes "tracks config qs m n ch" and "0 \<le> m" and "m < 2 ^ 62"
    and "\<bar>s - m\<bar> \<le> int (max_queued_outgoing config)" and "max_queued_outgoing config \<le> 32767"
  shows "tracks config (filter (\<lambda>t. t \<noteq> s) qs) (max m s) n
    (notify_of_acknowledge ch (wire_sequence s) now)"
proof -
  have "true_incoming ch (wire_sequence s) = s"
    using assms true_incoming_window [of m s] by (simp add: true_incoming_def tracks_def)
  with assms(1) show ?thesis
    by (auto simp: tracks_def output_ok_ack ack_queue ack_max_client filter_map o_def)
qed

section \<open>Properties\<close>

text \<open>C27: Enqueueing a message always returns when a chunk has four bytes: it appends
  packets with consecutive sequences whose reassembly is the message as sealed by the cipher,
  each fitting the configured length, and leaves the window and the timers alone.\<close>

theorem enqueue_data_fragments:
  assumes "data \<noteq> []" and "6 \<le> max_data_length (out_config ch)"
  shows "\<exists>ch' ps. enqueue_data ch data = Some ch' \<and>
    dispatch_queue ch' = dispatch_queue ch @ stash_all (total_sequence ch) ps \<and>
    total_sequence ch' = total_sequence ch + int (length ps) \<and>
    (reassemble ps, out_cipher ch') = seal (out_cipher ch) data \<and>
    list_all (\<lambda>p. SEQUENCE_SIZE + length (snd p) \<le> max_data_length (out_config ch)) ps \<and>
    current_dispatch_index ch' = current_dispatch_index ch \<and> rto ch' = rto ch"
proof -
  let ?m = "max_data_length (out_config ch) - 2"
  let ?ps = "packets_of ?m (fst (seal (out_cipher ch) data))"
  have "list_all (\<lambda>p. SEQUENCE_SIZE + length (snd p) \<le> max_data_length (out_config ch)) ?ps"
    using assms(2) packets_of_sizes [of ?m] by (fastforce simp: list_all_iff SEQUENCE_SIZE_def)
  then show ?thesis
    using assms(2)
    by (intro exI [of _ "append_packets ?ps (ch\<lparr>out_cipher := snd (seal (out_cipher ch) data)\<rparr>)"]
        exI [of _ ?ps])
      (simp add: enqueue_eq [OF assms] append_packets_def reassemble_packets_of)
qed

theorem enqueue_data_fragments_witness:
  "\<exists>ch' ps. enqueue_data (output_new output_config_default None 0) [7, 7] = Some ch' \<and>
     reassemble ps = [7, 7]"
  using enqueue_data_fragments [of "[7, 7]" "output_new output_config_default None 0"]
  by (auto simp: output_new_def output_config_default_def seal_def)

text \<open>C26: Whatever sequence of messages, ticks, acknowledgements (also forged ones) and
  drains a channel goes through, it returns; never more packets are in flight than the window
  allows, only packets inside the window have been sent, and the queue stays ordered.\<close>

theorem output_window_invariant:
  assumes "6 \<le> max_data_length config"
  shows "\<exists>ch. output_run (output_new config cipher now) es = Some ch \<and> output_ok ch \<and>
    in_flight ch \<le> max_queued_outgoing config"
  using output_run_ok [OF assms, of cipher now es] in_flight_le by fastforce

theorem output_window_invariant_witness:
  "\<exists>ch. output_run (output_new output_config_default None 0) [EvEnqueue [1], EvTick 5, EvAck 9 6] =
       Some ch \<and> output_ok ch \<and> in_flight ch \<le> max_queued_outgoing output_config_default"
  by (rule output_window_invariant) (simp add: output_config_default_def)

text \<open>The retransmit timeout stays between 200 milliseconds and 8 seconds through every
  run of a channel whose initial timeout is in that range: neither backing off nor a sample,
  however large or small, takes it out.\<close>

theorem output_rto_bounds:
  assumes "6 \<le> max_data_length config" and "RTO_MIN \<le> ack_wait config"
    and "ack_wait config \<le> RTO_MAX"
  shows "\<exists>ch. output_run (output_new config cipher now) es = Some ch \<and>
    RTO_MIN \<le> rto ch \<and> rto ch \<le> RTO_MAX"
proof -
  let ?I = "\<lambda>ch. output_ok ch \<and> out_config ch = config \<and> rto_ok ch"
  have "\<exists>ch'. output_step ch e = Some ch' \<and> ?I ch'" if I: "?I ch" for ch e
  proof -
    obtain ch' where "output_run ch [e] = Some ch'" and "output_ok ch'" "out_config ch' = config"
      using output_run_invariant [of "\<lambda>ch. output_ok ch \<and> out_config ch = config" ch "[e]"]
        output_step_ok [OF assms(1)] I by blast
    with I assms(1) rto_ok_step [of ch e ch'] show ?thesis by (auto simp: bind_eq_Some_iff)
  qed
  moreover have "?I (output_new config cipher now)"
    using assms(2,3) by (simp add: output_ok_new) (simp add: output_new_def rto_ok_def)
  ultimately have "\<exists>ch. output_run (output_new config cipher now) es = Some ch \<and> ?I ch"
    by (rule output_run_invariant)
  then show ?thesis by (auto simp: rto_ok_def)
qed

theorem output_rto_bounds_witness:
  "\<exists>ch. output_run (output_new output_config_default None 0)
       [EvEnqueue [1], EvTick 1, EvTick (from_secs 1), EvAck 0 (from_secs 90)] = Some ch \<and>
     RTO_MIN \<le> rto ch \<and> rto ch \<le> RTO_MAX"
  by (rule output_rto_bounds) (simp_all add: output_config_default_def rto_constants)

text \<open>A tick emits, in order, exactly the packets of the window that were not
  dispatched yet, or the whole window again when the oldest packet has been unacknowledged for
  longer than the timeout, which then doubles up to its ceiling. Afterwards the whole window is
  sent.\<close>

theorem output_tick_dispatches:
  assumes "output_ok ch"
  shows "(let start = (if oldest_timed_out ch now then 0 else current_dispatch_index ch);
      ch' = output_run_tick ch now in
    out_outgoing ch' = out_outgoing ch @
      map packet_out (drop start (take (window_of ch) (dispatch_queue ch))) \<and>
    current_dispatch_index ch' = window_of ch \<and>
    rto ch' = (if oldest_timed_out ch now then min (rto ch * 2) RTO_MAX else rto ch))"
  using assms by (rule run_tick_effect)

theorem output_tick_dispatches_witness:
  "out_outgoing (output_run_tick (append_packets [(False, [9])]
     (output_new output_config_default None 0)) 5) =
     [\<lparr>or_op_code = ReliableData, or_payload = [0, 0, 9]\<rparr>]"
  using output_tick_dispatches [OF output_ok_append [OF output_ok_new],
    of "[(False, [9])]" output_config_default None 0 5]
  by (simp add: append_packets_def output_new_def oldest_timed_out_def window_of_def
      stash_entry_def output_config_default_def packet_out_def be16_def wire_sequence_def Let_def)

text \<open>C15: An acknowledgement within a window's distance of the highest one so far removes
  exactly what it acknowledges: a single one its own sequence, a cumulative one every sequence
  up to it.\<close>

theorem acknowledgement_removes_exactly:
  assumes "output_ok ch" and "0 \<le> max_client_sequence ch" and "max_client_sequence ch < 2 ^ 62"
    and "max_queued_outgoing (out_config ch) \<le> 32767"
    and "\<bar>s - max_client_sequence ch\<bar> \<le> int (max_queued_outgoing (out_config ch))"
  shows "dispatch_queue (notify_of_acknowledge ch (wire_sequence s) now) =
      filter (\<lambda>e. fst e \<noteq> s) (dispatch_queue ch) \<and>
    dispatch_queue (notify_of_acknowledge_all ch (wire_sequence s) now) =
      filter (\<lambda>e. s < fst e) (dispatch_queue ch)"
proof -
  have "true_incoming ch (wire_sequence s) = s"
    using true_incoming_window [OF assms(2,3,5)] assms(4) by (simp add: true_incoming_def)
  then show ?thesis using ack_queue [OF assms(1)] by simp
qed

theorem acknowledgement_removes_exactly_witness:
  "map fst (dispatch_queue (notify_of_acknowledge
     (append_packets [(False, [1]), (False, [2])] (output_new output_config_default None 0)) 1 9)) = [0]"
proof -
  let ?ch = "append_packets [(False, [1]), (False, [2])] (output_new output_config_default None 0)"
  have "dispatch_queue (notify_of_acknowledge ?ch (wire_sequence 1) 9) =
      filter (\<lambda>e. fst e \<noteq> 1) (dispatch_queue ?ch)"
  proof (rule acknowledgement_removes_exactly [THEN conjunct1])
    show "output_ok ?ch" by (rule output_ok_append [OF output_ok_new])
  qed (simp_all add: append_packets_def output_new_def output_config_default_def)
  then show ?thesis
    by (simp add: append_packets_def output_new_def stash_entry_def wire_sequence_def)
qed

text \<open>C34: A cumulative acknowledgement that lies further behind the highest individually
  acknowledged sequence than the send window is read as one block ahead, and discards the whole
  queue: sent packets that were lost and packets never sent are not sent again.\<close>

theorem late_acknowledge_all_discards_queue:
  assumes "output_ok ch" and "0 \<le> a"
    and "a + int (max_queued_outgoing (out_config ch)) < max_client_sequence ch"
    and "max_client_sequence ch < 65536" and "total_sequence ch \<le> 65536"
  shows "dispatch_queue (notify_of_acknowledge_all ch (wire_sequence a) now) = []"
proof -
  have "true_incoming ch (wire_sequence a) = a + 65536"
    using true_incoming_behind [OF assms(2,3,4)] by (simp add: true_incoming_def)
  then show ?thesis
    using assms(1,2,5) by (fastforce simp: ack_queue [OF assms(1)] output_ok_def filter_empty_conv)
qed

text \<open>The first two packets are lost and the next three acknowledged singly; then the first
  is received and acknowledged cumulatively.\<close>

definition late_config :: output_config where
  "late_config = \<lparr>max_data_length = 508, max_queued_outgoing = 3, ack_wait = from_millis 500\<rparr>"

definition late_run :: "output_event list" where
  "late_run = map EvEnqueue [[10], [11], [12], [13], [14], [15], [16]] @
     [EvTick 1, EvAck (wire_sequence 2) 2, EvTick 3, EvAck (wire_sequence 3) 4, EvTick 5,
      EvAck (wire_sequence 4) 6]"

lemma late_run_state:
  "\<exists>ch. output_run (output_new late_config None 0) late_run = Some ch \<and>
     tracks late_config [0, 1, 5, 6] 4 7 ch"
proof -
  let ?ps = "map (Pair False) [[10], [11], [12], [13], [14], [15], [16]]"
  let ?ch0 = "append_packets ?ps (output_new late_config None 0)"
  have t0: "tracks late_config [0, 1, 2, 3, 4, 5, 6] 0 7 ?ch0"
    unfolding tracks_def
    by (intro conjI output_ok_append output_ok_new)
      (simp_all add: append_packets_def output_new_def stash_entry_def)
  define ch1 where "ch1 = notify_of_acknowledge (output_run_tick ?ch0 1) (wire_sequence 2) 2"
  define ch2 where "ch2 = notify_of_acknowledge (output_run_tick ch1 3) (wire_sequence 3) 4"
  define ch3 where "ch3 = notify_of_acknowledge (output_run_tick ch2 5) (wire_sequence 4) 6"
  have "tracks late_config [0, 1, 3, 4, 5, 6] 2 7 ch1"
    using tracks_ack [OF tracks_tick [OF t0], of 2] by (simp add: ch1_def late_config_def)
  then have "tracks late_config [0, 1, 4, 5, 6] 3 7 ch2"
    using tracks_ack [OF tracks_tick, of late_config "[0, 1, 3, 4, 5, 6]" 2 7 ch1 3]
    by (simp add: ch2_def late_config_def)
  then have "tracks late_config [0, 1, 5, 6] 4 7 ch3"
    using tracks_ack [OF tracks_tick, of late_config "[0, 1, 4, 5, 6]" 3 7 ch2 4]
    by (simp add: ch3_def late_config_def)
  moreover have "output_run (output_new late_config None 0) late_run = Some ch3"
  proof -
    have "output_run (output_new late_config None 0)
        (map EvEnqueue [[10], [11], [12], [13], [14], [15], [16]]) = Some ?ch0"
      by (rule run_enqueues) (simp_all add: output_new_def late_config_def)
    then show ?thesis
      unfolding late_run_def output_run_append
      by (simp only: Option.bind.simps output_run.simps output_step.simps ch1_def ch2_def ch3_def)
  qed
  ultimately show ?thesis by blast
qed

theorem late_acknowledge_all_discards_queue_witness:
  "\<exists>ch. output_run (output_new late_config None 0) late_run = Some ch \<and>
     map fst (dispatch_queue ch) = [0, 1, 5, 6] \<and>
     dispatch_queue (notify_of_acknowledge_all ch (wire_sequence 0) 9) = []"
proof -
  obtain ch where run: "output_run (output_new late_config None 0) late_run = Some ch"
    and t: "tracks late_config [0, 1, 5, 6] 4 7 ch"
    using late_run_state by blast
  then have "dispatch_queue (notify_of_acknowledge_all ch (wire_sequence 0) 9) = []"
    by (intro late_acknowledge_all_discards_queue) (simp_all add: tracks_def late_config_def)
  with run t show ?thesis by (auto simp: tracks_def)
qed

end
