(* ===== verification/Soe_Utf8.thy ===== *)
theory Soe_Utf8
  imports Soe_Prelude
begin

text \<open>
  \<open>String::from_utf8_lossy\<close> of the Rust standard library, which the reader of
  null-terminated strings uses (\<open>src/io.rs\<close>). A \<open>String\<close> is modelled by its bytes.
  Scanning from the left, each well-formed sequence is kept and each maximal ill-formed
  prefix becomes U+FFFD, as the library documents.
\<close>

definition is_cont :: "u8 \<Rightarrow> bool" where
  "is_cont b \<longleftrightarrow> 0x80 \<le> b \<and> b \<le> 0xBF"

text \<open>A byte past the end reads as zero, which continues no sequence.\<close>

definition byte_at :: "bytes \<Rightarrow> nat \<Rightarrow> u8" where
  "byte_at bs i = (if i < length bs then bs ! i else 0)"

definition second_of_three :: "u8 \<Rightarrow> u8 \<Rightarrow> bool" where
  "second_of_three b c \<longleftrightarrow>
     (if b = 0xE0 then 0xA0 \<le> c \<and> c \<le> 0xBF
      else if b = 0xED then 0x80 \<le> c \<and> c \<le> 0x9F
      else is_cont c)"

definition second_of_four :: "u8 \<Rightarrow> u8 \<Rightarrow> bool" where
  "second_of_four b c \<longleftrightarrow>
     (if b = 0xF0 then 0x90 \<le> c \<and> c \<le> 0xBF
      else if b = 0xF4 then 0x80 \<le> c \<and> c \<le> 0x8F
      else is_cont c)"

text \<open>Whether the first sequence is well formed, and how many bytes it takes.\<close>

definition utf8_step :: "bytes \<Rightarrow> bool \<times> nat" where
  "utf8_step bs =
     (let b = byte_at bs 0; c = byte_at bs 1; d = byte_at bs 2; e = byte_at bs 3 in
      if b < 0x80 then (True, 1)
      else if 0xC2 \<le> b \<and> b \<le> 0xDF then
        (if is_cont c then (True, 2) else (False, 1))
      else if 0xE0 \<le> b \<and> b \<le> 0xEF then
        (if \<not> second_of_three b c then (False, 1)
         else if \<not> is_cont d then (False, 2) else (True, 3))
      else if 0xF0 \<le> b \<and> b \<le> 0xF4 then
        (if \<not> second_of_four b c then (False, 1)
         else if \<not> is_cont d then (False, 2)
         else if \<not> is_cont e then (False, 3) else (True, 4))
      else (False, 1))"

lemma utf8_step_pos: "utf8_step bs = (ok, n) \<Longrightarrow> 0 < n"
  by (auto simp: utf8_step_def Let_def split: if_splits)

function valid_utf8 :: "bytes \<Rightarrow> bool" where
  "valid_utf8 bs =
     (if bs = [] then True
      else case utf8_step bs of (ok, n) \<Rightarrow> ok \<and> n \<le> length bs \<and> valid_utf8 (drop n bs))"
  by pat_completeness auto
termination
  by (relation "measure length") (auto dest!: sym [THEN utf8_step_pos])

function from_utf8_lossy :: "bytes \<Rightarrow> bytes" where
  "from_utf8_lossy bs =
     (if bs = [] then []
      else case utf8_step bs of (ok, n) \<Rightarrow>
        (if ok then take n bs else [0xEF, 0xBF, 0xBD]) @ from_utf8_lossy (drop n bs))"
  by pat_completeness auto
termination
  by (relation "measure length") (auto dest!: sym [THEN utf8_step_pos])

declare valid_utf8.simps [simp del] from_utf8_lossy.simps [simp del]

lemma from_utf8_lossy_Nil [simp]: "from_utf8_lossy [] = []"
  by (simp add: from_utf8_lossy.simps)

text \<open>Well-formed text is unchanged.\<close>

lemma from_utf8_lossy_valid: "valid_utf8 bs \<Longrightarrow> from_utf8_lossy bs = bs"
proof (induction bs rule: valid_utf8.induct)
  case (1 bs)
  show ?case
  proof (cases "bs = []")
    case False
    obtain ok n where step: "utf8_step bs = (ok, n)" by fastforce
    with "1.prems" False have "ok" "valid_utf8 (drop n bs)"
      by (simp_all add: valid_utf8.simps [of bs])
    with "1.IH" False step show ?thesis
      by (simp add: from_utf8_lossy.simps [of bs])
  qed simp
qed

text \<open>Plain ASCII is well formed.\<close>

lemma ascii_valid_utf8: "list_all (\<lambda>b. b < 0x80) bs \<Longrightarrow> valid_utf8 bs"
proof (induction bs)
  case Nil
  then show ?case by (simp add: valid_utf8.simps)
next
  case (Cons b bs)
  then show ?case
    by (simp add: valid_utf8.simps [of "b # bs"] utf8_step_def byte_at_def)
qed

end
