(* ===== verification/Soe_Io.thy ===== *)
theory Soe_Io
  imports Soe_Protocol Soe_Utf8
begin

text \<open>
  The cursor-style binary reader and writer (\<open>src/io.rs\<close>). A failing operation returns
  the error; the cursor and buffer it leaves behind are dropped, since every caller abandons
  them after an error.
\<close>

section \<open>BinaryReader\<close>

record binary_reader =
  rd_data :: bytes
  rd_offset :: nat

definition reader_new :: "bytes \<Rightarrow> binary_reader" where
  "reader_new data = \<lparr>rd_data = data, rd_offset = 0\<rparr>"

definition reader_remaining :: "binary_reader \<Rightarrow> nat" where
  "reader_remaining r = length (rd_data r) - rd_offset r"

definition peek :: "binary_reader \<Rightarrow> nat \<Rightarrow> u8 option" where
  "peek r ahead = index (rd_data r) (rd_offset r + ahead)"

definition reader_ensure :: "binary_reader \<Rightarrow> nat \<Rightarrow> error + unit" where
  "reader_ensure r needed =
     (if reader_remaining r < needed then Inl (BufferTooShort needed (reader_remaining r))
      else Inr ())"

definition skip :: "binary_reader \<Rightarrow> nat \<Rightarrow> error + binary_reader" where
  "skip r n = and_then (reader_ensure r n) (\<lambda>_. Inr (r\<lparr>rd_offset := rd_offset r + n\<rparr>))"

definition read_u8 :: "binary_reader \<Rightarrow> error + u8 \<times> binary_reader" where
  "read_u8 r = and_then (reader_ensure r 1) (\<lambda>_.
     Inr (rd_data r ! rd_offset r, r\<lparr>rd_offset := rd_offset r + 1\<rparr>))"

definition read_bool :: "binary_reader \<Rightarrow> error + bool \<times> binary_reader" where
  "read_bool r = and_then (read_u8 r) (\<lambda>(v, r). Inr (v \<noteq> 0, r))"

definition read_u16 :: "binary_reader \<Rightarrow> error + u16 \<times> binary_reader" where
  "read_u16 r = and_then (reader_ensure r 2) (\<lambda>_.
     Inr (of_be16 (rd_data r ! rd_offset r) (rd_data r ! (rd_offset r + 1)),
          r\<lparr>rd_offset := rd_offset r + 2\<rparr>))"

definition read_u32 :: "binary_reader \<Rightarrow> error + u32 \<times> binary_reader" where
  "read_u32 r = and_then (reader_ensure r 4) (\<lambda>_.
     let buf = take 4 (drop (rd_offset r) (rd_data r)) in
     Inr (of_be32 (buf ! 0) (buf ! 1) (buf ! 2) (buf ! 3),
          r\<lparr>rd_offset := rd_offset r + 4\<rparr>))"

definition read_u64 :: "binary_reader \<Rightarrow> error + u64 \<times> binary_reader" where
  "read_u64 r = and_then (reader_ensure r 8) (\<lambda>_.
     let buf = take 8 (drop (rd_offset r) (rd_data r)) in
     Inr (of_be64 (of_be32 (buf ! 0) (buf ! 1) (buf ! 2) (buf ! 3))
                  (of_be32 (buf ! 4) (buf ! 5) (buf ! 6) (buf ! 7)),
          r\<lparr>rd_offset := rd_offset r + 8\<rparr>))"

definition read_bytes :: "binary_reader \<Rightarrow> nat \<Rightarrow> error + bytes \<times> binary_reader" where
  "read_bytes r n = and_then (reader_ensure r n) (\<lambda>_.
     Inr (take n (drop (rd_offset r) (rd_data r)), r\<lparr>rd_offset := rd_offset r + n\<rparr>))"

text \<open>The scan stops at the first zero byte; without one the string is unterminated.\<close>

definition read_null_terminated_string ::
    "binary_reader \<Rightarrow> error + bytes \<times> binary_reader" where
  "read_null_terminated_string r =
     (let rest = drop (rd_offset r) (rd_data r); s = takeWhile (\<lambda>b. b \<noteq> 0) rest in
      if length s < length rest
      then Inr (from_utf8_lossy s, r\<lparr>rd_offset := rd_offset r + length s + 1\<rparr>)
      else Inl (BufferTooShort 1 0))"

definition remaining_bytes :: "binary_reader \<Rightarrow> bytes" where
  "remaining_bytes r = drop (rd_offset r) (rd_data r)"

section \<open>BinaryWriter\<close>

record binary_writer =
  wr_data :: bytes
  wr_offset :: nat

definition writer_new :: "bytes \<Rightarrow> binary_writer" where
  "writer_new data = \<lparr>wr_data = data, wr_offset = 0\<rparr>"

definition writer_remaining :: "binary_writer \<Rightarrow> nat" where
  "writer_remaining w = length (wr_data w) - wr_offset w"

definition writer_ensure :: "binary_writer \<Rightarrow> nat \<Rightarrow> error + unit" where
  "writer_ensure w needed =
     (if writer_remaining w < needed then Inl (BufferTooShort needed (writer_remaining w))
      else Inr ())"

text \<open>Copying a slice to the cursor and moving the cursor past it.\<close>

definition copy_in :: "bytes \<Rightarrow> binary_writer \<Rightarrow> binary_writer" where
  "copy_in bs w =
     w\<lparr>wr_data := take (wr_offset w) (wr_data w) @ bs @
         drop (wr_offset w + length bs) (wr_data w),
       wr_offset := wr_offset w + length bs\<rparr>"

definition write_u8 :: "binary_writer \<Rightarrow> u8 \<Rightarrow> error + binary_writer" where
  "write_u8 w v = and_then (writer_ensure w 1) (\<lambda>_. Inr (copy_in [v] w))"

definition write_bool :: "binary_writer \<Rightarrow> bool \<Rightarrow> error + binary_writer" where
  "write_bool w v = write_u8 w (if v then 1 else 0)"

definition write_u16 :: "binary_writer \<Rightarrow> u16 \<Rightarrow> error + binary_writer" where
  "write_u16 w v = and_then (writer_ensure w 2) (\<lambda>_. Inr (copy_in (be16 v) w))"

definition write_u32 :: "binary_writer \<Rightarrow> u32 \<Rightarrow> error + binary_writer" where
  "write_u32 w v = and_then (writer_ensure w 4) (\<lambda>_. Inr (copy_in (be32 v) w))"

definition write_u64 :: "binary_writer \<Rightarrow> u64 \<Rightarrow> error + binary_writer" where
  "write_u64 w v = and_then (writer_ensure w 8) (\<lambda>_. Inr (copy_in (be64 v) w))"

definition write_bytes :: "binary_writer \<Rightarrow> bytes \<Rightarrow> error + binary_writer" where
  "write_bytes w bs = and_then (writer_ensure w (length bs)) (\<lambda>_. Inr (copy_in bs w))"

definition write_null_terminated_string :: "binary_writer \<Rightarrow> bytes \<Rightarrow> error + binary_writer" where
  "write_null_terminated_string w s = and_then (write_bytes w s) (\<lambda>w. write_u8 w 0)"

section \<open>What the reader sees\<close>

definition advance :: "nat \<Rightarrow> binary_reader \<Rightarrow> binary_reader" where
  "advance n r = r\<lparr>rd_offset := rd_offset r + n\<rparr>"

lemma remaining_bytes_new [simp, codec_simps]: "remaining_bytes (reader_new bs) = bs"
  by (simp add: remaining_bytes_def reader_new_def)

lemma remaining_bytes_advance [simp, codec_simps]:
  "remaining_bytes (advance n r) = drop n (remaining_bytes r)"
  by (simp add: remaining_bytes_def advance_def add.commute)

lemma advance_advance [simp, codec_simps]: "advance m (advance n r) = advance (n + m) r"
  by (simp add: advance_def)

lemma rd_offset_advance [simp, codec_simps]: "rd_offset (advance n r) = rd_offset r + n"
  by (simp add: advance_def)

lemma rd_data_advance [simp, codec_simps]: "rd_data (advance n r) = rd_data r"
  by (simp add: advance_def)

lemma rd_new [simp, codec_simps]:
  "rd_offset (reader_new bs) = 0" "rd_data (reader_new bs) = bs"
  by (simp_all add: reader_new_def)

lemma advance_0 [simp]: "advance 0 r = r"
  by (simp add: advance_def)

lemma reader_remaining_eq: "reader_remaining r = length (remaining_bytes r)"
  by (simp add: reader_remaining_def remaining_bytes_def)

lemma peek_eq [codec_simps]: "peek r n = index (remaining_bytes r) n"
  by (auto simp: peek_def index_def remaining_bytes_def)

lemma skip_eq [codec_simps]:
  "skip r n = (if n \<le> length (remaining_bytes r) then Inr (advance n r)
     else Inl (BufferTooShort n (length (remaining_bytes r))))"
  by (simp add: skip_def reader_ensure_def reader_remaining_eq advance_def)

lemma nth_remaining:
  "n < length (remaining_bytes r) \<Longrightarrow> rd_data r ! (rd_offset r + n) = remaining_bytes r ! n"
  by (simp add: remaining_bytes_def)

lemma nth_remaining_0:
  "remaining_bytes r \<noteq> [] \<Longrightarrow> rd_data r ! rd_offset r = remaining_bytes r ! 0"
  using nth_remaining [of 0 r] by simp

lemma read_u8_Cons [codec_simps]:
  "remaining_bytes r = a # bs \<Longrightarrow> read_u8 r = Inr (a, advance 1 r)"
  by (simp add: read_u8_def reader_ensure_def reader_remaining_eq advance_def nth_remaining_0)

lemma read_bool_Cons [codec_simps]:
  "remaining_bytes r = a # bs \<Longrightarrow> read_bool r = Inr (a \<noteq> 0, advance 1 r)"
  by (simp add: read_bool_def read_u8_Cons)

lemma read_u16_Cons:
  "remaining_bytes r = a # b # bs \<Longrightarrow> read_u16 r = Inr (of_be16 a b, advance 2 r)"
  using nth_remaining [of 1 r]
  by (simp add: read_u16_def reader_ensure_def reader_remaining_eq advance_def nth_remaining_0)

lemma read_u32_Cons:
  "remaining_bytes r = a # b # c # d # bs \<Longrightarrow> read_u32 r = Inr (of_be32 a b c d, advance 4 r)"
  unfolding read_u32_def reader_ensure_def reader_remaining_eq
  by (simp add: advance_def flip: remaining_bytes_def)

lemma read_bytes_eq [codec_simps]:
  "read_bytes r n = (if n \<le> length (remaining_bytes r)
     then Inr (take n (remaining_bytes r), advance n r)
     else Inl (BufferTooShort n (length (remaining_bytes r))))"
  by (simp add: read_bytes_def reader_ensure_def reader_remaining_eq advance_def
      flip: remaining_bytes_def)

text \<open>Reading back what a writer lays out.\<close>

lemma read_u16_be16 [codec_simps]:
  "remaining_bytes r = be16 v @ bs \<Longrightarrow> read_u16 r = Inr (v, advance 2 r)"
  by (simp add: be16_def read_u16_Cons)

lemma read_u32_be32 [codec_simps]:
  "remaining_bytes r = be32 v @ bs \<Longrightarrow> read_u32 r = Inr (v, advance 4 r)"
  by (simp add: be32_def read_u32_Cons)

lemma read_u64_be64 [codec_simps]:
  "remaining_bytes r = be64 v @ bs \<Longrightarrow> read_u64 r = Inr (v, advance 8 r)"
  unfolding read_u64_def reader_ensure_def reader_remaining_eq
  by (simp add: advance_def be64_def be32_def flip: remaining_bytes_def)

lemma read_string_terminated [codec_simps]:
  assumes "remaining_bytes r = s @ 0 # bs" and "0 \<notin> set s"
  shows "read_null_terminated_string r = Inr (from_utf8_lossy s, advance (length s + 1) r)"
proof -
  have "takeWhile (\<lambda>b. b \<noteq> 0) (s @ 0 # bs) = s"
    using assms(2) by (auto simp: takeWhile_append)
  with assms(1) show ?thesis
    by (simp add: read_null_terminated_string_def advance_def flip: remaining_bytes_def)
qed

text \<open>Too few bytes: every fixed-width read reports the width it needed.\<close>

lemma read_short:
  "length (remaining_bytes r) < 1 \<Longrightarrow> read_u8 r = Inl (BufferTooShort 1 (length (remaining_bytes r)))"
  "length (remaining_bytes r) < 2 \<Longrightarrow> read_u16 r = Inl (BufferTooShort 2 (length (remaining_bytes r)))"
  "length (remaining_bytes r) < 4 \<Longrightarrow> read_u32 r = Inl (BufferTooShort 4 (length (remaining_bytes r)))"
  "length (remaining_bytes r) < 8 \<Longrightarrow> read_u64 r = Inl (BufferTooShort 8 (length (remaining_bytes r)))"
  by (simp_all add: read_u8_def read_u16_def read_u32_def read_u64_def reader_ensure_def
      reader_remaining_eq)

text \<open>The cursor never moves past the end of the data.\<close>

definition reader_ok :: "binary_reader \<Rightarrow> bool" where
  "reader_ok r \<longleftrightarrow> rd_offset r \<le> length (rd_data r)"

lemma reader_ok_new [simp]: "reader_ok (reader_new bs)"
  by (simp add: reader_ok_def reader_new_def)

lemma reader_ok_advance [simp]:
  "reader_ok r \<Longrightarrow> reader_ok (advance n r) \<longleftrightarrow> n \<le> length (remaining_bytes r)"
  by (auto simp: reader_ok_def remaining_bytes_def)

text \<open>A successful read moves the cursor by the width it read.\<close>

lemma read_u16_Inr:
  "read_u16 r = Inr (v, r') \<longleftrightarrow>
     (2 \<le> length (remaining_bytes r) \<and> r' = advance 2 r \<and>
      v = of_be16 (remaining_bytes r ! 0) (remaining_bytes r ! 1))"
proof (cases "2 \<le> length (remaining_bytes r)")
  case True
  then obtain a b bs where "remaining_bytes r = a # b # bs" by (auto simp: length_ge_2_conv)
  then show ?thesis by (auto simp: read_u16_Cons)
qed (simp add: read_short)

lemma read_u32_Inr:
  "read_u32 r = Inr (v, r') \<longleftrightarrow>
     (4 \<le> length (remaining_bytes r) \<and> r' = advance 4 r \<and>
      v = of_be32 (remaining_bytes r ! 0) (remaining_bytes r ! 1)
            (remaining_bytes r ! 2) (remaining_bytes r ! 3))"
  by (auto simp: read_u32_def reader_ensure_def reader_remaining_eq advance_def
      and_then_eq_Inr Let_def simp flip: remaining_bytes_def split: if_splits)

section \<open>What the writer produces\<close>

definition writer_ok :: "binary_writer \<Rightarrow> bool" where
  "writer_ok w \<longleftrightarrow> wr_offset w \<le> length (wr_data w)"

lemma copy_in_copy_in [simp, codec_simps]:
  assumes "writer_ok w" and "length bs \<le> writer_remaining w"
  shows "copy_in cs (copy_in bs w) = copy_in (bs @ cs) w"
  using assms by (simp add: copy_in_def writer_ok_def writer_remaining_def ac_simps)

lemma writer_remaining_copy_in [simp, codec_simps]:
  assumes "writer_ok w" and "length bs \<le> writer_remaining w"
  shows "writer_remaining (copy_in bs w) = writer_remaining w - length bs"
  using assms by (simp add: copy_in_def writer_ok_def writer_remaining_def)

lemma writer_ok_copy_in [simp, codec_simps]:
  assumes "writer_ok w" and "length bs \<le> writer_remaining w"
  shows "writer_ok (copy_in bs w)"
  using assms by (simp add: copy_in_def writer_ok_def writer_remaining_def)

lemma writer_new_simps [simp, codec_simps]:
  "writer_ok (writer_new buf)" "writer_remaining (writer_new buf) = length buf"
  "wr_offset (writer_new buf) = 0" "wr_data (writer_new buf) = buf"
  "copy_in [] (writer_new buf) = writer_new buf"
  by (simp_all add: writer_ok_def writer_remaining_def writer_new_def copy_in_def)

lemma wr_offset_copy_in [simp, codec_simps]: "wr_offset (copy_in bs w) = wr_offset w + length bs"
  by (simp add: copy_in_def)

lemma wr_data_copy_in_new [simp, codec_simps]:
  "wr_data (copy_in bs (writer_new buf)) = bs @ drop (length bs) buf"
  by (simp add: copy_in_def writer_new_def)

lemma write_fits [codec_simps]:
  "1 \<le> writer_remaining w \<Longrightarrow> write_u8 w v = Inr (copy_in [v] w)"
  "1 \<le> writer_remaining w \<Longrightarrow> write_bool w b = Inr (copy_in [if b then 1 else 0] w)"
  "2 \<le> writer_remaining w \<Longrightarrow> write_u16 w x = Inr (copy_in (be16 x) w)"
  "4 \<le> writer_remaining w \<Longrightarrow> write_u32 w y = Inr (copy_in (be32 y) w)"
  "length bs \<le> writer_remaining w \<Longrightarrow> write_bytes w bs = Inr (copy_in bs w)"
  by (simp_all add: write_u8_def write_bool_def write_u16_def write_u32_def write_bytes_def
      writer_ensure_def)

lemma write_string_fits [codec_simps]:
  assumes "writer_ok w" and "length s + 1 \<le> writer_remaining w"
  shows "write_null_terminated_string w s = Inr (copy_in (s @ [0]) w)"
  using assms by (simp add: write_null_terminated_string_def write_fits)


text \<open>Writes decided by the room that is left.\<close>

lemma write_eqs:
  "write_u8 w v = (if 1 \<le> writer_remaining w then Inr (copy_in [v] w)
     else Inl (BufferTooShort 1 (writer_remaining w)))"
  "write_u16 w x = (if 2 \<le> writer_remaining w then Inr (copy_in (be16 x) w)
     else Inl (BufferTooShort 2 (writer_remaining w)))"
  "write_u32 w y = (if 4 \<le> writer_remaining w then Inr (copy_in (be32 y) w)
     else Inl (BufferTooShort 4 (writer_remaining w)))"
  "write_bytes w bs = (if length bs \<le> writer_remaining w then Inr (copy_in bs w)
     else Inl (BufferTooShort (length bs) (writer_remaining w)))"
  by (simp_all add: write_u8_def write_u16_def write_u32_def write_bytes_def writer_ensure_def)

end
