(* ===== verification/Soe_Varint.thy ===== *)
theory Soe_Varint
  imports Soe_Io
begin

text \<open>
  The two variable-length integer schemes (\<open>src/varint.rs\<close>): \<open>multi_packet\<close>, which
  prefixes the sub-packets of a MultiPacket, and \<open>data_bundle\<close>, which prefixes the buffers
  of a reliable-data bundle. The locale \<open>varint_scheme\<close> is the contract the bundlers rely
  on; both schemes interpret it.
\<close>

definition write_multibyte :: "binary_writer \<Rightarrow> u32 \<Rightarrow> error + binary_writer" where
  "write_multibyte w len =
     (if len < 0xFFFF then
        and_then (write_u8 w 0xFF) (\<lambda>w. write_u16 w (ucast len))
      else
        and_then (write_u8 w 0xFF) (\<lambda>w.
        and_then (write_u8 w 0xFF) (\<lambda>w.
        and_then (write_u8 w 0xFF) (\<lambda>w. write_u32 w len))))"

section \<open>Module \<open>multi_packet\<close>\<close>

definition mp_encoded_size :: "u32 \<Rightarrow> nat" where
  "mp_encoded_size len = (if len \<le> 0xFF then 1 else if len < 0xFFFF then 3 else 7)"

definition mp_read :: "binary_reader \<Rightarrow> error + u32 \<times> binary_reader" where
  "mp_read r =
     (case peek r 0 of
        None \<Rightarrow> Inl (BufferTooShort 1 0)
      | Some b0 \<Rightarrow>
          if b0 < 0xFF then and_then (skip r 1) (\<lambda>r. Inr (ucast b0, r))
          else if peek r 1 = Some 0 then and_then (skip r 1) (\<lambda>r. Inr (0xFF, r))
          else if peek r 1 = Some 0xFF \<and> peek r 2 = Some 0xFF then
            and_then (skip r 3) read_u32
          else
            and_then (skip r 1) (\<lambda>r. and_then (read_u16 r) (\<lambda>(v, r). Inr (ucast v, r))))"

definition mp_write :: "binary_writer \<Rightarrow> u32 \<Rightarrow> error + binary_writer" where
  "mp_write w len = (if len \<le> 0xFF then write_u8 w (ucast len) else write_multibyte w len)"

section \<open>Module \<open>data_bundle\<close>\<close>

definition db_encoded_size :: "u32 \<Rightarrow> nat" where
  "db_encoded_size len = (if len < 0xFF then 1 else if len < 0xFFFF then 3 else 7)"

definition db_read :: "binary_reader \<Rightarrow> error + u32 \<times> binary_reader" where
  "db_read r =
     (case peek r 0 of
        None \<Rightarrow> Inl (BufferTooShort 1 0)
      | Some b0 \<Rightarrow>
          if b0 < 0xFF then and_then (skip r 1) (\<lambda>r. Inr (ucast b0, r))
          else if peek r 1 = Some 0xFF \<and> peek r 2 = Some 0xFF then
            and_then (skip r 3) read_u32
          else
            and_then (skip r 1) (\<lambda>r. and_then (read_u16 r) (\<lambda>(v, r). Inr (ucast v, r))))"

definition db_write :: "binary_writer \<Rightarrow> u32 \<Rightarrow> error + binary_writer" where
  "db_write w len = (if len < 0xFF then write_u8 w (ucast len) else write_multibyte w len)"

section \<open>The bytes of an encoded length\<close>

definition multibyte :: "u32 \<Rightarrow> bytes" where
  "multibyte len =
     (if len < 0xFFFF then 0xFF # be16 (ucast len) else [0xFF, 0xFF, 0xFF] @ be32 len)"

definition mp_bytes :: "u32 \<Rightarrow> bytes" where
  "mp_bytes len = (if len \<le> 0xFF then [ucast len] else multibyte len)"

definition db_bytes :: "u32 \<Rightarrow> bytes" where
  "db_bytes len = (if len < 0xFF then [ucast len] else multibyte len)"

text \<open>
  A single byte \<open>0xFF\<close> in the MultiPacket scheme is a length only when a zero byte, the
  high byte of an OP code, follows.
\<close>

definition mp_follows :: "u32 \<Rightarrow> bytes \<Rightarrow> bool" where
  "mp_follows len bs \<longleftrightarrow> (len = 0xFF \<longrightarrow> bs \<noteq> [] \<and> hd bs = 0)"

lemma write_multibyte_eq:
  assumes "writer_ok w" and "length (multibyte len) \<le> writer_remaining w"
  shows "write_multibyte w len = Inr (copy_in (multibyte len) w)"
  using assms by (auto simp: write_multibyte_def multibyte_def write_fits split: if_splits)

lemma ucast_u8_small:
  assumes "len \<le> (0xFF :: u32)"
  shows "ucast (ucast len :: u8) = len"
proof -
  have "unat len < 2 ^ 8" using assms by (simp add: word_le_nat_alt)
  then have "take_bit 8 (unat len) = unat len" by (rule take_bit_nat_eq_self)
  then show ?thesis
    by (simp add: word_eq_iff_unsigned [where 'a = nat] unsigned_ucast_eq unsigned_take_bit_eq)
qed

lemma ucast_u16_small:
  assumes "len < (0xFFFF :: u32)"
  shows "ucast (ucast len :: u16) = len"
proof -
  have "unat len < 2 ^ 16" using assms by (simp add: word_less_nat_alt)
  then have "take_bit 16 (unat len) = unat len" by (rule take_bit_nat_eq_self)
  then show ?thesis
    by (simp add: word_eq_iff_unsigned [where 'a = nat] unsigned_ucast_eq unsigned_take_bit_eq)
qed

text \<open>The three-byte form never looks like the single-byte or the seven-byte one.\<close>

lemma of_be16_high_zero: "of_be16 0 b \<le> 0xFF"
proof -
  have "unat b < 2 ^ 16" by (rule order_less_trans [OF unat_u8_less]) simp
  then have "unat (of_be16 0 b) = unat b"
    by (simp add: of_be16_def unsigned_ucast_eq take_bit_nat_eq_self)
  moreover have "unat b \<le> 255" using unat_u8_less [of b] by linarith
  ultimately show ?thesis by (simp add: word_le_nat_alt)
qed

lemma be16_split:
  obtains hi lo where "be16 v = [hi, lo]" and "of_be16 hi lo = v"
  by (metis be16_def of_be16_be16)

lemma three_byte_form:
  assumes "0xFF < (len :: u32)" and "len < 0xFFFF"
  obtains hi lo where "be16 (ucast len) = [hi, lo]" and "of_be16 hi lo = ucast len"
    and "hi \<noteq> 0" and "\<not> (hi = 0xFF \<and> lo = 0xFF)"
proof -
  obtain hi lo where b: "be16 (ucast len :: u16) = [hi, lo]" and v: "of_be16 hi lo = ucast len"
    by (rule be16_split)
  have same: "ucast (of_be16 hi lo) = len"
    using assms(2) by (simp add: v ucast_u16_small)
  have "hi \<noteq> 0"
  proof
    assume "hi = 0"
    then have "unat (of_be16 hi lo) \<le> 0xFF"
      using of_be16_high_zero [of lo] by (simp add: word_le_nat_alt)
    then have "unat (ucast (of_be16 hi lo) :: u32) \<le> 0xFF"
      by (simp add: unsigned_ucast_eq take_bit_nat_eq_self)
    with same assms(1) show False by (simp add: word_less_nat_alt)
  qed
  moreover have "\<not> (hi = 0xFF \<and> lo = 0xFF)"
  proof
    assume "hi = 0xFF \<and> lo = 0xFF"
    then have "len = 0xFFFF" using same by (simp add: of_be16_def)
    with assms(2) show False by simp
  qed
  ultimately show thesis using that b v by blast
qed

section \<open>The contract of a scheme\<close>

locale varint_scheme =
  fixes enc :: "u32 \<Rightarrow> bytes"
    and follows :: "u32 \<Rightarrow> bytes \<Rightarrow> bool"
    and size_of :: "u32 \<Rightarrow> nat"
    and wr :: "binary_writer \<Rightarrow> u32 \<Rightarrow> error + binary_writer"
    and rd :: "binary_reader \<Rightarrow> error + u32 \<times> binary_reader"
  assumes size_enc: "size_of len = length (enc len)"
    and wr_enc: "writer_ok w \<Longrightarrow> length (enc len) \<le> writer_remaining w \<Longrightarrow>
      wr w len = Inr (copy_in (enc len) w)"
    and rd_enc: "remaining_bytes r = enc len @ bs \<Longrightarrow> follows len bs \<Longrightarrow>
      rd r = Inr (len, advance (length (enc len)) r)"
    and rd_advances: "rd r = Inr (len, r') \<Longrightarrow>
      \<exists>k. 0 < k \<and> k \<le> length (remaining_bytes r) \<and> r' = advance k r"
begin

text \<open>An encoding determines the length and where the data starts.\<close>

lemma enc_prefix_free:
  assumes "enc m @ xs = enc n @ ys" and "follows m xs" and "follows n ys"
  shows "m = n \<and> xs = ys"
proof -
  have "rd (reader_new (enc m @ xs)) = Inr (m, advance (length (enc m)) (reader_new (enc m @ xs)))"
    using assms(2) by (intro rd_enc) simp_all
  moreover have "rd (reader_new (enc n @ ys)) =
      Inr (n, advance (length (enc n)) (reader_new (enc n @ ys)))"
    using assms(3) by (intro rd_enc) simp_all
  ultimately have "m = n" using assms(1) by simp
  with assms(1) show ?thesis by simp
qed

text \<open>Reading the length of a buffer that follows it.\<close>

lemma rd_frame:
  assumes "remaining_bytes r = enc (of_nat (length p)) @ p @ bs"
    and "length p < 2 ^ 32" and "follows (of_nat (length p)) (p @ bs)"
  obtains r1 where "rd r = Inr (of_nat (length p), r1)"
    and "r1 = advance (length (enc (of_nat (length p)))) r"
    and "remaining_bytes r1 = p @ bs" and "unat (of_nat (length p) :: u32) = length p"
proof -
  have "unat (of_nat (length p) :: u32) = length p"
    using assms(2) by (simp add: unsigned_of_nat take_bit_nat_eq_self)
  with assms show thesis by (intro that) (auto simp: rd_enc)
qed

lemma rd_remaining_less:
  "rd r = Inr (len, r') \<Longrightarrow> length (remaining_bytes r') < length (remaining_bytes r)"
  using rd_advances by fastforce

lemma rd_reader_ok: "rd r = Inr (len, r') \<Longrightarrow> reader_ok r \<Longrightarrow> reader_ok r'"
  using rd_advances by fastforce

end

lemma u32_sum_read_advances:
  assumes "and_then (skip r 3) read_u32 = Inr (len, r')"
  shows "\<exists>k. 0 < k \<and> k \<le> length (remaining_bytes r) \<and> r' = advance k r"
  using assms
  by (auto simp: and_then_eq_Inr skip_eq read_u32_Inr split: if_splits intro!: exI [of _ 7])

lemma u16_read_advances:
  assumes "and_then (skip r 1) (\<lambda>r. and_then (read_u16 r) (\<lambda>(v, r). Inr (f v, r))) = Inr (len, r')"
  shows "\<exists>k. 0 < k \<and> k \<le> length (remaining_bytes r) \<and> r' = advance k r"
  using assms
  by (auto simp: and_then_eq_Inr skip_eq read_u16_Inr split: if_splits intro!: exI [of _ 3])

lemma u8_read_advances:
  assumes "and_then (skip r 1) (\<lambda>r. Inr (v, r)) = Inr (len, r')"
  shows "\<exists>k. 0 < k \<and> k \<le> length (remaining_bytes r) \<and> r' = advance k r"
  using assms
  by (auto simp: and_then_eq_Inr skip_eq split: if_splits intro!: exI [of _ 1])

lemmas varint_advances = u8_read_advances u16_read_advances u32_sum_read_advances

lemma multibyte_cases:
  assumes "0xFF < (len :: u32)" and "remaining_bytes r = multibyte len @ bs"
  shows "mp_read r = Inr (len, advance (length (multibyte len)) r)"
    and "db_read r = Inr (len, advance (length (multibyte len)) r)"
proof -
  have "mp_read r = Inr (len, advance (length (multibyte len)) r) \<and>
        db_read r = Inr (len, advance (length (multibyte len)) r)"
  proof (cases "len < 0xFFFF")
    case True
    with assms(1) obtain hi lo where h: "be16 (ucast len) = [hi, lo]"
      "of_be16 hi lo = (ucast len :: u16)" "hi \<noteq> 0" "\<not> (hi = 0xFF \<and> lo = 0xFF)"
      by (rule three_byte_form)
    with True assms(2) have rem: "remaining_bytes r = 0xFF # hi # lo # bs"
      by (simp add: multibyte_def)
    then have "read_u16 (advance 1 r) = Inr (ucast len, advance 3 r)"
      using h(2) read_u16_Cons [of "advance 1 r" hi lo bs] by (simp add: numeral_3_eq_3)
    with True h rem show ?thesis
      by (auto simp: mp_read_def db_read_def peek_eq index_def skip_eq multibyte_def
          ucast_u16_small)
  next
    case False
    with assms(2) have rem: "remaining_bytes r = 0xFF # 0xFF # 0xFF # be32 len @ bs"
      by (simp add: multibyte_def)
    then have "read_u32 (advance 3 r) = Inr (len, advance 7 r)"
      using read_u32_be32 [of "advance 3 r" len bs] by simp
    with False rem show ?thesis
      by (simp add: mp_read_def db_read_def peek_eq index_def skip_eq multibyte_def)
  qed
  then show "mp_read r = Inr (len, advance (length (multibyte len)) r)"
    and "db_read r = Inr (len, advance (length (multibyte len)) r)" by blast+
qed

lemma unat_ucast_u8: "len \<le> (0xFF :: u32) \<Longrightarrow> unat (ucast len :: u8) = unat len"
  by (simp add: unsigned_ucast_eq take_bit_nat_eq_self word_le_nat_alt)

lemma ucast_small_less_FF: "len < (0xFF :: u32) \<Longrightarrow> (ucast len :: u8) < 0xFF"
  using unat_ucast_u8 [of len] by (simp add: word_less_nat_alt word_le_nat_alt)

text \<open>Every successful read consumes between one byte and what remains.\<close>

lemma mp_read_advances:
  "mp_read r = Inr (len, r') \<Longrightarrow>
     \<exists>k. 0 < k \<and> k \<le> length (remaining_bytes r) \<and> r' = advance k r"
  by (auto simp: mp_read_def split: option.splits if_splits dest: varint_advances simp del: One_nat_def)

lemma db_read_advances:
  "db_read r = Inr (len, r') \<Longrightarrow>
     \<exists>k. 0 < k \<and> k \<le> length (remaining_bytes r) \<and> r' = advance k r"
  by (auto simp: db_read_def split: option.splits if_splits dest: varint_advances simp del: One_nat_def)

lemma mp_read_bytes:
  assumes "remaining_bytes r = mp_bytes len @ bs" and "mp_follows len bs"
  shows "mp_read r = Inr (len, advance (length (mp_bytes len)) r)"
proof (cases "len < 0xFF")
  case True
  then have le: "len \<le> 0xFF" by simp
  with assms(1) have "remaining_bytes r = ucast len # bs" by (simp add: mp_bytes_def)
  with True le show ?thesis
    by (simp add: mp_read_def peek_eq index_def skip_eq ucast_small_less_FF mp_bytes_def
        ucast_u8_small)
next
  case False
  show ?thesis
  proof (cases "len = 0xFF")
    case True
    with assms obtain bs' where "remaining_bytes r = 0xFF # 0 # bs'"
      by (cases bs) (auto simp: mp_bytes_def mp_follows_def)
    with True show ?thesis
      by (simp add: mp_read_def peek_eq index_def skip_eq mp_bytes_def)
  next
    case neq: False
    with False have "0xFF < len" by simp
    with assms(1) show ?thesis
      using multibyte_cases(1) [of len r bs] by (simp add: mp_bytes_def)
  qed
qed

lemma db_read_bytes:
  assumes "remaining_bytes r = db_bytes len @ bs"
  shows "db_read r = Inr (len, advance (length (db_bytes len)) r)"
proof (cases "len < 0xFF")
  case True
  with assms have "remaining_bytes r = ucast len # bs" by (simp add: db_bytes_def)
  with True show ?thesis
    by (simp add: db_read_def peek_eq index_def skip_eq ucast_small_less_FF db_bytes_def
        ucast_u8_small)
next
  case False
  show ?thesis
  proof (cases "len = 0xFF")
    case True
    then have "multibyte len = [0xFF, 0x00, 0xFF]" by (simp add: multibyte_def be16_def)
    with True assms have rem: "remaining_bytes r = 0xFF # 0x00 # 0xFF # bs"
      by (simp add: db_bytes_def)
    then have "read_u16 (advance 1 r) = Inr (0xFF, advance 3 r)"
      using read_u16_Cons [of "advance 1 r" 0 "0xFF" bs] by (simp add: of_be16_def numeral_3_eq_3)
    with True rem \<open>multibyte len = _\<close> show ?thesis
      by (simp add: db_read_def peek_eq index_def skip_eq db_bytes_def)
  next
    case neq: False
    with False have "0xFF < len" by simp
    with False assms show ?thesis
      using multibyte_cases(2) [of len r bs] by (simp add: db_bytes_def)
  qed
qed

lemma mp_encoded_size_eq: "mp_encoded_size len = length (mp_bytes len)"
  by (simp add: mp_encoded_size_def mp_bytes_def multibyte_def)

lemma db_encoded_size_eq: "db_encoded_size len = length (db_bytes len)"
  by (auto simp: db_encoded_size_def db_bytes_def multibyte_def)

lemma mp_write_eq:
  "writer_ok w \<Longrightarrow> length (mp_bytes len) \<le> writer_remaining w \<Longrightarrow>
     mp_write w len = Inr (copy_in (mp_bytes len) w)"
  by (auto simp: mp_write_def mp_bytes_def write_multibyte_eq write_fits split: if_splits)

lemma db_write_eq:
  "writer_ok w \<Longrightarrow> length (db_bytes len) \<le> writer_remaining w \<Longrightarrow>
     db_write w len = Inr (copy_in (db_bytes len) w)"
  by (auto simp: db_write_def db_bytes_def write_multibyte_eq write_fits split: if_splits)

interpretation mp: varint_scheme mp_bytes mp_follows mp_encoded_size mp_write mp_read
  by unfold_locales
    (use mp_encoded_size_eq mp_write_eq mp_read_bytes mp_read_advances in blast)+

interpretation db: varint_scheme db_bytes "\<lambda>_ _. True" db_encoded_size db_write db_read
  by unfold_locales
    (use db_encoded_size_eq db_write_eq db_read_bytes db_read_advances in blast)+

section \<open>Properties\<close>

text \<open>C30: Writing a length with the MultiPacket scheme into a buffer with room and reading it
  back returns the length and stops where the writer stopped, provided the single-byte
  \<open>0xFF\<close> is followed by the zero byte that begins every sub-packet.\<close>

theorem multi_packet_round_trip:
  assumes "mp_encoded_size len \<le> length buf"
    and "mp_follows len (drop (mp_encoded_size len) buf)"
  shows "\<exists>w. mp_write (writer_new buf) len = Inr w \<and> wr_offset w = mp_encoded_size len \<and>
    length (wr_data w) = length buf \<and>
    mp_read (reader_new (wr_data w)) = Inr (len, advance (wr_offset w) (reader_new (wr_data w)))"
  using assms mp.rd_enc [of "reader_new (mp_bytes len @ drop (length (mp_bytes len)) buf)" len]
  by (auto simp: mp_write_eq mp_encoded_size_eq)

theorem multi_packet_round_trip_witness:
  "\<exists>w. mp_write (writer_new [9, 0]) 0xFF = Inr w \<and> wr_offset w = mp_encoded_size 0xFF \<and>
    length (wr_data w) = length [9 :: u8, 0] \<and>
    mp_read (reader_new (wr_data w)) = Inr (0xFF, advance (wr_offset w) (reader_new (wr_data w)))"
  by (rule multi_packet_round_trip) (simp_all add: mp_encoded_size_def mp_follows_def)

text \<open>Writing a length with the data-bundle scheme into a buffer with room and reading it
  back returns the length, whatever follows.\<close>

theorem data_bundle_round_trip:
  assumes "db_encoded_size len \<le> length buf"
  shows "\<exists>w. db_write (writer_new buf) len = Inr w \<and> wr_offset w = db_encoded_size len \<and>
    length (wr_data w) = length buf \<and>
    db_read (reader_new (wr_data w)) = Inr (len, advance (wr_offset w) (reader_new (wr_data w)))"
  using assms db.rd_enc [of "reader_new (db_bytes len @ drop (length (db_bytes len)) buf)" len]
  by (auto simp: db_write_eq db_encoded_size_eq)

theorem data_bundle_round_trip_witness:
  "\<exists>w. db_write (writer_new [0, 0, 0]) 0xFF = Inr w \<and> wr_offset w = db_encoded_size 0xFF \<and>
    length (wr_data w) = length [0 :: u8, 0, 0] \<and>
    db_read (reader_new (wr_data w)) = Inr (0xFF, advance (wr_offset w) (reader_new (wr_data w)))"
  by (rule data_bundle_round_trip) (simp add: db_encoded_size_def)

end
