(* ===== verification/Soe_Input.thy ===== *)
theory Soe_Input
  imports Soe_Rc4 Soe_Protocol Soe_Varint Soe_Sequence
begin

text \<open>
  The reliable input channel (\<open>src/channel/input.rs\<close>): the receive window with its stash of
  out-of-order packets, fragment reassembly, unbundling and decryption, and the emission of
  acknowledgements. A handler returns the new channel with the \<open>Result\<close>; a panic
  (\<open>rem_euclid(0)\<close> for an empty window, an index outside the stash) is \<open>None\<close>.
\<close>

section \<open>State\<close>

definition FRAGMENT_COMPLETE_LENGTH_SIZE :: nat where "FRAGMENT_COMPLETE_LENGTH_SIZE = 4"

datatype CorruptData = CorruptData

record data_input_stats =
  total_received :: nat
  duplicate_count :: nat
  out_of_order_count :: nat
  total_received_bytes :: nat
  acknowledge_count :: nat

definition input_stats_default :: data_input_stats where
  "input_stats_default = \<lparr>total_received = 0, duplicate_count = 0, out_of_order_count = 0,
     total_received_bytes = 0, acknowledge_count = 0\<rparr>"

record input_config =
  max_queued_incoming :: u16
  acknowledge_all_data :: bool
  data_ack_window :: u16
  max_ack_delay :: duration

definition input_config_default :: input_config where
  "input_config_default = \<lparr>max_queued_incoming = 256, acknowledge_all_data = False,
     data_ack_window = 32, max_ack_delay = from_millis 2\<rparr>"

record outgoing_contextual =
  oc_op_code :: OpCode
  oc_sequence :: u16

record stashed =
  st_data :: bytes
  st_is_fragment :: bool

record input_channel =
  in_config :: input_config
  in_cipher :: "rc4_key_state option"
  window_start_sequence :: int
  current_buffer :: "bytes option"
  expected_data_length :: nat
  last_ack_all_sequence :: int
  last_ack_all_time :: instant
  stash :: "stashed option list"
  in_stats :: data_input_stats
  in_outgoing :: "outgoing_contextual list"
  app_data :: "bytes list"

definition input_new :: "input_config \<Rightarrow> rc4_key_state option \<Rightarrow> instant \<Rightarrow> input_channel" where
  "input_new config cipher now =
     \<lparr>in_config = config, in_cipher = cipher, window_start_sequence = 0, current_buffer = None,
      expected_data_length = 0, last_ack_all_sequence = -1, last_ack_all_time = now,
      stash = replicate (unat (max_queued_incoming config)) None,
      in_stats = input_stats_default, in_outgoing = [], app_data = []\<rparr>"

definition input_take_outgoing :: "input_channel \<Rightarrow> outgoing_contextual list \<times> input_channel" where
  "input_take_outgoing ch = (in_outgoing ch, ch\<lparr>in_outgoing := []\<rparr>)"

definition take_app_data :: "input_channel \<Rightarrow> bytes list \<times> input_channel" where
  "take_app_data ch = (app_data ch, ch\<lparr>app_data := []\<rparr>)"

definition max_queued :: "input_channel \<Rightarrow> int" where
  "max_queued ch = uint (max_queued_incoming (in_config ch))"

section \<open>Acknowledgements\<close>

definition emit :: "OpCode \<Rightarrow> u16 \<Rightarrow> input_channel \<Rightarrow> input_channel" where
  "emit op_code sequence ch =
     ch\<lparr>in_outgoing := in_outgoing ch @ [\<lparr>oc_op_code = op_code, oc_sequence = sequence\<rparr>]\<rparr>"

definition send_ack_all :: "int \<Rightarrow> instant \<Rightarrow> input_channel \<Rightarrow> input_channel" where
  "send_ack_all sequence now ch =
     (let ch = emit AcknowledgeAll (wire_sequence sequence) ch in
      ch\<lparr>in_stats := (in_stats ch)\<lparr>acknowledge_count := acknowledge_count (in_stats ch) + 1\<rparr>,
         last_ack_all_sequence := sequence, last_ack_all_time := now\<rparr>)"

definition input_run_tick :: "input_channel \<Rightarrow> instant \<Rightarrow> input_channel" where
  "input_run_tick ch now =
     (let to_ack = window_start_sequence ch - 1 in
      if acknowledge_all_data (in_config ch) \<or> to_ack \<le> last_ack_all_sequence ch then ch
      else if max_ack_delay (in_config ch) < duration_since now (last_ack_all_time ch) \<or>
              last_ack_all_sequence ch + uint (data_ack_window (in_config ch)) div 2 \<le> to_ack
           then send_ack_all to_ack now ch else ch)"

section \<open>The receive window\<close>

definition count_duplicate :: "input_channel \<Rightarrow> input_channel" where
  "count_duplicate ch =
     ch\<lparr>in_stats := (in_stats ch)\<lparr>duplicate_count := duplicate_count (in_stats ch) + 1\<rparr>\<rparr>"

definition count_received :: "input_channel \<Rightarrow> input_channel" where
  "count_received ch =
     ch\<lparr>in_stats := (in_stats ch)\<lparr>total_received := total_received (in_stats ch) + 1\<rparr>\<rparr>"

definition count_out_of_order :: "input_channel \<Rightarrow> input_channel" where
  "count_out_of_order ch =
     ch\<lparr>in_stats := (in_stats ch)\<lparr>out_of_order_count := out_of_order_count (in_stats ch) + 1\<rparr>\<rparr>"

definition is_valid_reliable_data ::
    "input_channel \<Rightarrow> bytes \<Rightarrow> instant \<Rightarrow> (int \<times> u16) option \<times> input_channel" where
  "is_valid_reliable_data ch data now =
     (if length data < 2 then (None, ch)
      else
        let packet_sequence = of_be16 (data ! 0) (data ! 1);
            sequence = true_incoming_sequence packet_sequence (window_start_sequence ch) (max_queued ch)
        in
        if window_start_sequence ch + max_queued ch < sequence then (None, ch)
        else if window_start_sequence ch \<le> sequence then (Some (sequence, packet_sequence), ch)
        else
          let ch = (if duration_since now (last_ack_all_time ch) < max_ack_delay (in_config ch)
                    then send_ack_all (window_start_sequence ch - 1) now ch else ch) in
          (None, count_duplicate ch))"

text \<open>\<open>rem_euclid(max_queued)\<close> as an index of the stash.\<close>

definition stash_spot :: "input_channel \<Rightarrow> int \<Rightarrow> nat option" where
  "stash_spot ch sequence =
     (if max_queued ch = 0 then None else Some (nat (sequence mod max_queued ch)))"

definition preprocess ::
    "input_channel \<Rightarrow> bytes \<Rightarrow> bool \<Rightarrow> instant \<Rightarrow> (bool \<times> input_channel) option" where
  "preprocess ch data fragment now =
     (let ch = count_received ch in
      case is_valid_reliable_data ch data now of
        (None, ch) \<Rightarrow> Some (False, ch)
      | (Some (sequence, packet_sequence), ch) \<Rightarrow>
          let ahead = sequence \<noteq> window_start_sequence ch;
              ch = (if acknowledge_all_data (in_config ch) \<or> ahead
                    then emit Acknowledge packet_sequence ch else ch) in
          if \<not> ahead then Some (True, ch)
          else
            let ch = count_out_of_order ch in do {
            spot \<leftarrow> stash_spot ch sequence;
            held \<leftarrow> index (stash ch) spot;
            if held \<noteq> None then Some (False, count_duplicate ch)
            else Some (False, ch\<lparr>stash := (stash ch)[spot := Some
                   \<lparr>st_data = drop 2 data, st_is_fragment = fragment\<rparr>]\<rparr>)
          })"

section \<open>Decryption and unbundling\<close>

definition decrypt_and_handle :: "input_channel \<Rightarrow> bytes \<Rightarrow> input_channel" where
  "decrypt_and_handle ch data =
     (let (processed, ch) =
        (case in_cipher ch of
           Some cipher \<Rightarrow>
             let d = (if 1 < length data \<and> data ! 0 = 0 then tl data else data);
                 (buf, cipher) = rc4_transform_in_place cipher d in
             (buf, ch\<lparr>in_cipher := Some cipher\<rparr>)
         | None \<Rightarrow> (data, ch)) in
      ch\<lparr>in_stats := (in_stats ch)
           \<lparr>total_received_bytes := total_received_bytes (in_stats ch) + length processed\<rparr>,
         app_data := app_data ch @ [processed]\<rparr>)"

text \<open>The loop over the buffers of a bundle: it stops at the first length that cannot be read
  or does not fit.\<close>

function bundle_loop :: "binary_reader \<Rightarrow> input_channel \<Rightarrow> input_channel" where
  "bundle_loop reader ch =
     (if 0 < reader_remaining reader then
        (case db_read reader of
           Inl e \<Rightarrow> ch
         | Inr (len, reader) \<Rightarrow>
             let len = unat len; start = rd_offset reader in
             (case skip reader len of
                Inl e \<Rightarrow> ch
              | Inr reader \<Rightarrow>
                  bundle_loop reader
                    (decrypt_and_handle ch (take len (drop start (rd_data reader))))))
      else ch)"
  by pat_completeness auto
termination
  by (relation "measure (\<lambda>(r, _). length (remaining_bytes r))")
    (auto simp: skip_eq dest!: db.rd_remaining_less split: if_splits)

declare bundle_loop.simps [simp del]

definition process_data :: "input_channel \<Rightarrow> bytes \<Rightarrow> input_channel" where
  "process_data ch data =
     (if 2 < length data \<and> take 2 data = MULTI_DATA_INDICATOR then
        (case skip (reader_new data) 2 of
           Inl e \<Rightarrow> ch
         | Inr reader \<Rightarrow> bundle_loop reader ch)
      else decrypt_and_handle ch data)"

section \<open>Reassembly\<close>

definition write_immediate_fragment ::
    "input_channel \<Rightarrow> bytes \<Rightarrow> input_channel \<times> (CorruptData + unit)" where
  "write_immediate_fragment ch data =
     (case current_buffer ch of
        Some buf \<Rightarrow> (ch\<lparr>current_buffer := Some (buf @ data)\<rparr>, Inr ())
      | None \<Rightarrow>
          if length data < FRAGMENT_COMPLETE_LENGTH_SIZE then (ch, Inl CorruptData)
          else
            let expected = unat (of_be32 (data ! 0) (data ! 1) (data ! 2) (data ! 3)) in
            (ch\<lparr>expected_data_length := expected,
                current_buffer := Some (drop FRAGMENT_COMPLETE_LENGTH_SIZE data)\<rparr>, Inr ()))"

definition try_process_current_buffer :: "input_channel \<Rightarrow> input_channel" where
  "try_process_current_buffer ch =
     (case current_buffer ch of
        Some buf \<Rightarrow>
          if expected_data_length ch \<le> length buf
          then (process_data (ch\<lparr>current_buffer := None\<rparr>) buf)\<lparr>expected_data_length := 0\<rparr>
          else ch
      | None \<Rightarrow> ch)"

text \<open>Only the cipher, the buffer, the expected length, the statistics and the application
  data change while a packet is processed.\<close>

lemma decrypt_frame [simp, frame_simps]:
  "stash (decrypt_and_handle ch d) = stash ch"
  "in_config (decrypt_and_handle ch d) = in_config ch"
  "window_start_sequence (decrypt_and_handle ch d) = window_start_sequence ch"
  "current_buffer (decrypt_and_handle ch d) = current_buffer ch"
  "expected_data_length (decrypt_and_handle ch d) = expected_data_length ch"
  "in_outgoing (decrypt_and_handle ch d) = in_outgoing ch"
  "last_ack_all_sequence (decrypt_and_handle ch d) = last_ack_all_sequence ch"
  "last_ack_all_time (decrypt_and_handle ch d) = last_ack_all_time ch"
  by (simp_all add: decrypt_and_handle_def Let_def split_beta split: option.split)

lemma bundle_frame:
  "stash (bundle_loop r ch) = stash ch \<and> in_config (bundle_loop r ch) = in_config ch \<and>
   window_start_sequence (bundle_loop r ch) = window_start_sequence ch \<and>
   current_buffer (bundle_loop r ch) = current_buffer ch \<and>
   expected_data_length (bundle_loop r ch) = expected_data_length ch \<and>
   in_outgoing (bundle_loop r ch) = in_outgoing ch \<and>
   last_ack_all_sequence (bundle_loop r ch) = last_ack_all_sequence ch \<and>
   last_ack_all_time (bundle_loop r ch) = last_ack_all_time ch"
proof (induction r ch rule: bundle_loop.induct)
  case (1 r ch)
  show ?case
  proof (cases "\<exists>len r1 r2. 0 < reader_remaining r \<and> db_read r = Inr (len, r1) \<and>
      skip r1 (unat len) = Inr r2")
    case True
    then obtain len r1 r2 where a: "0 < reader_remaining r" "db_read r = Inr (len, r1)"
      "skip r1 (unat len) = Inr r2" by blast
    let ?ch = "decrypt_and_handle ch (take (unat len) (drop (rd_offset r1) (rd_data r2)))"
    have "bundle_loop r ch = bundle_loop r2 ?ch"
      using a by (subst bundle_loop.simps) (simp add: Let_def)
    with 1 [OF a(1) a(2) refl refl refl a(3)] show ?thesis by simp
  next
    case False
    then have "bundle_loop r ch = ch"
      by (subst bundle_loop.simps) (auto simp: Let_def split: sum.split)
    then show ?thesis by simp
  qed
qed

lemma process_data_frame [simp, frame_simps]:
  "stash (process_data ch d) = stash ch" "in_config (process_data ch d) = in_config ch"
  "window_start_sequence (process_data ch d) = window_start_sequence ch"
  "current_buffer (process_data ch d) = current_buffer ch"
  "expected_data_length (process_data ch d) = expected_data_length ch"
  "in_outgoing (process_data ch d) = in_outgoing ch"
  "last_ack_all_sequence (process_data ch d) = last_ack_all_sequence ch"
  "last_ack_all_time (process_data ch d) = last_ack_all_time ch"
  by (simp_all add: process_data_def bundle_frame split: sum.split)

lemma write_fragment_frame [simp, frame_simps]:
  "stash (fst (write_immediate_fragment ch d)) = stash ch"
  "in_config (fst (write_immediate_fragment ch d)) = in_config ch"
  "window_start_sequence (fst (write_immediate_fragment ch d)) = window_start_sequence ch"
  "in_cipher (fst (write_immediate_fragment ch d)) = in_cipher ch"
  "app_data (fst (write_immediate_fragment ch d)) = app_data ch"
  "in_outgoing (fst (write_immediate_fragment ch d)) = in_outgoing ch"
  by (simp_all add: write_immediate_fragment_def Let_def split: option.split)

lemma try_process_frame [simp, frame_simps]:
  "stash (try_process_current_buffer ch) = stash ch"
  "in_config (try_process_current_buffer ch) = in_config ch"
  "window_start_sequence (try_process_current_buffer ch) = window_start_sequence ch"
  "in_outgoing (try_process_current_buffer ch) = in_outgoing ch"
  by (simp_all add: try_process_current_buffer_def split: option.split)

section \<open>Handlers\<close>

lemma filter_update_less:
  "i < length xs \<Longrightarrow> P (xs ! i) \<Longrightarrow> \<not> P y \<Longrightarrow> length (filter P (xs[i := y])) < length (filter P xs)"
proof (induction xs arbitrary: i)
  case (Cons x xs)
  then show ?case by (cases i) auto
qed simp

text \<open>The loop releasing stashed packets ends because each round empties a slot.\<close>

function consume_stashed :: "input_channel \<Rightarrow> (input_channel \<times> (CorruptData + unit)) option" where
  "consume_stashed ch =
     (case stash_spot ch (window_start_sequence ch) of
        None \<Rightarrow> None
      | Some spot \<Rightarrow>
          (case index (stash ch) spot of
             None \<Rightarrow> None
           | Some None \<Rightarrow> Some (ch, Inr ())
           | Some (Some item) \<Rightarrow>
               let ch1 = ch\<lparr>stash := (stash ch)[spot := None]\<rparr> in
               if st_is_fragment item then
                 let w = write_immediate_fragment ch1 (st_data item) in
                 (case snd w of
                    Inl e \<Rightarrow> Some (fst w, Inl e)
                  | Inr _ \<Rightarrow>
                      let ch2 = try_process_current_buffer (fst w) in
                      consume_stashed (ch2\<lparr>window_start_sequence := window_start_sequence ch2 + 1\<rparr>))
               else
                 let ch2 = process_data ch1 (st_data item) in
                 consume_stashed (ch2\<lparr>window_start_sequence := window_start_sequence ch2 + 1\<rparr>)))"
  by pat_completeness auto
termination
  by (relation "measure (\<lambda>ch. length (filter (\<lambda>s. s \<noteq> None) (stash ch)))")
    (auto simp: index_def intro!: filter_update_less split: if_splits)

declare consume_stashed.simps [simp del]

definition handle_reliable_data ::
    "input_channel \<Rightarrow> bytes \<Rightarrow> instant \<Rightarrow> (input_channel \<times> (CorruptData + unit)) option" where
  "handle_reliable_data ch data now = do {
     (immediate, ch) \<leftarrow> preprocess ch data False now;
     if \<not> immediate then Some (ch, Inr ())
     else
       let ch = process_data ch (drop 2 data);
           ch = ch\<lparr>window_start_sequence := window_start_sequence ch + 1\<rparr> in
       consume_stashed ch
   }"

definition handle_reliable_data_fragment ::
    "input_channel \<Rightarrow> bytes \<Rightarrow> instant \<Rightarrow> (input_channel \<times> (CorruptData + unit)) option" where
  "handle_reliable_data_fragment ch data now = do {
     (immediate, ch) \<leftarrow> preprocess ch data True now;
     if \<not> immediate then Some (ch, Inr ())
     else case write_immediate_fragment ch (drop 2 data) of
         (ch, Inl e) \<Rightarrow> Some (ch, Inl e)
       | (ch, Inr _) \<Rightarrow>
           let ch = ch\<lparr>window_start_sequence := window_start_sequence ch + 1\<rparr>;
               ch = try_process_current_buffer ch in
           consume_stashed ch
   }"

end
