(* ===== verification/Soe_Input_Run.thy ===== *)
theory Soe_Input_Run
  imports Soe_Input
begin

text \<open>
  The reliable input channel against an abstract receiver that is handed the packets one by one
  in order. The abstract receiver has no window, no stash and no acknowledgements; the channel is
  shown to keep, in whatever order packets arrive, the state the abstract receiver reaches on the
  packets below the window start.
\<close>

section \<open>The abstract receiver\<close>

record receiver =
  rx_cipher :: "rc4_key_state option"
  rx_partial :: "(nat \<times> bytes) option"
  rx_app :: "bytes list"

text \<open>Undoing the padding and the encryption of one buffer.\<close>

definition unseal :: "rc4_key_state option \<Rightarrow> bytes \<Rightarrow> bytes \<times> rc4_key_state option" where
  "unseal cipher data = (case cipher of
      None \<Rightarrow> (data, None)
    | Some ks \<Rightarrow>
        let r = rc4_transform_in_place ks
          (if 1 < length data \<and> hd data = 0 then tl data else data) in (fst r, Some (snd r)))"

definition receive_buffer :: "receiver \<Rightarrow> bytes \<Rightarrow> receiver" where
  "receive_buffer r data =
     r\<lparr>rx_cipher := snd (unseal (rx_cipher r) data), rx_app := rx_app r @ [fst (unseal (rx_cipher r) data)]\<rparr>"

text \<open>The buffers of a bundle, as far as it can be read.\<close>

function bundle_buffers :: "binary_reader \<Rightarrow> bytes list" where
  "bundle_buffers reader =
     (if remaining_bytes reader = [] then []
      else case db_read reader of
        Inl e \<Rightarrow> []
      | Inr (len, reader) \<Rightarrow>
          if unat len \<le> length (remaining_bytes reader)
          then take (unat len) (remaining_bytes reader) # bundle_buffers (advance (unat len) reader)
          else [])"
  by pat_completeness auto
termination
  by (relation "measure (\<lambda>r. length (remaining_bytes r))") (auto dest!: db.rd_remaining_less)

declare bundle_buffers.simps [simp del]

definition buffers_of :: "bytes \<Rightarrow> bytes list" where
  "buffers_of data =
     (if 2 < length data \<and> take 2 data = MULTI_DATA_INDICATOR
      then bundle_buffers (advance 2 (reader_new data)) else [data])"

definition receive_unit :: "receiver \<Rightarrow> bytes \<Rightarrow> receiver" where
  "receive_unit r data = foldl receive_buffer r (buffers_of data)"

definition complete_partial :: "receiver \<Rightarrow> receiver" where
  "complete_partial r = (case rx_partial r of
      None \<Rightarrow> r
    | Some (n, buf) \<Rightarrow> if n \<le> length buf then receive_unit (r\<lparr>rx_partial := None\<rparr>) buf else r)"

definition extend_partial :: "receiver \<Rightarrow> bytes \<Rightarrow> receiver option" where
  "extend_partial r data = (case rx_partial r of
      Some (n, buf) \<Rightarrow> Some (r\<lparr>rx_partial := Some (n, buf @ data)\<rparr>)
    | None \<Rightarrow> if length data < 4 then None
        else Some (r\<lparr>rx_partial :=
          Some (unat (of_be32 (data ! 0) (data ! 1) (data ! 2) (data ! 3)), drop 4 data)\<rparr>))"

definition receive :: "receiver \<Rightarrow> rpacket \<Rightarrow> receiver option" where
  "receive r p = (if fst p then map_option complete_partial (extend_partial r (snd p))
     else Some (receive_unit r (snd p)))"

primrec receive_all :: "receiver \<Rightarrow> rpacket list \<Rightarrow> receiver option" where
  "receive_all r [] = Some r"
| "receive_all r (p # ps) = Option.bind (receive r p) (\<lambda>r. receive_all r ps)"

lemma receive_all_append:
  "receive_all r (ps @ qs) = Option.bind (receive_all r ps) (\<lambda>r. receive_all r qs)"
  by (induction ps arbitrary: r) simp_all

lemma receive_all_snoc:
  "k < length P \<Longrightarrow> receive_all r (take (Suc k) P) =
     Option.bind (receive_all r (take k P)) (\<lambda>r. receive r (P ! k))"
  by (simp add: take_Suc_conv_app_nth receive_all_append)

text \<open>A list of packets is well formed when no prefix of it is corrupt.\<close>

lemma receive_all_prefix: "receive_all r P \<noteq> None \<Longrightarrow> receive_all r (take k P) \<noteq> None"
proof -
  assume "receive_all r P \<noteq> None"
  then have "receive_all r (take k P @ drop k P) \<noteq> None" by simp
  then show ?thesis unfolding receive_all_append by (auto simp: bind_eq_Some_iff)
qed

section \<open>The channel processes packets as the abstract receiver does\<close>

definition core :: "input_channel \<Rightarrow> receiver" where
  "core ch = \<lparr>rx_cipher = in_cipher ch,
     rx_partial = map_option (\<lambda>buf. (expected_data_length ch, buf)) (current_buffer ch),
     rx_app = app_data ch\<rparr>"

lemma core_cong:
  "in_cipher ch = in_cipher ch' \<Longrightarrow> current_buffer ch = current_buffer ch' \<Longrightarrow>
   expected_data_length ch = expected_data_length ch' \<Longrightarrow> app_data ch = app_data ch' \<Longrightarrow>
   core ch = core ch'"
  by (simp add: core_def)

lemma core_frame [simp]:
  "core (ch\<lparr>stash := s\<rparr>) = core ch" "core (ch\<lparr>window_start_sequence := w\<rparr>) = core ch"
  "core (ch\<lparr>in_stats := st\<rparr>) = core ch" "core (emit op_code sequence ch) = core ch"
  "core (send_ack_all sq now ch) = core ch" "core (count_duplicate ch) = core ch"
  by (simp_all add: core_def emit_def send_ack_all_def count_duplicate_def Let_def)

lemma core_decrypt: "core (decrypt_and_handle ch d) = receive_buffer (core ch) d"
  by (cases d) (auto simp: core_def decrypt_and_handle_def receive_buffer_def unseal_def Let_def
      split_beta split: option.split)

lemma core_bundle: "core (bundle_loop r ch) = foldl receive_buffer (core ch) (bundle_buffers r)"
proof (induction r ch rule: bundle_loop.induct)
  case (1 r ch)
  show ?case
  proof (cases "\<exists>len r1 r2. 0 < reader_remaining r \<and> db_read r = Inr (len, r1) \<and>
      skip r1 (unat len) = Inr r2")
    case True
    then obtain len r1 r2 where a: "0 < reader_remaining r" "db_read r = Inr (len, r1)"
      "skip r1 (unat len) = Inr r2" by blast
    then have fits: "unat len \<le> length (remaining_bytes r1)" and r2: "r2 = advance (unat len) r1"
      by (auto simp: skip_eq split: if_splits)
    let ?ch = "decrypt_and_handle ch (take (unat len) (drop (rd_offset r1) (rd_data r2)))"
    have "bundle_loop r ch = bundle_loop r2 ?ch"
      using a by (subst bundle_loop.simps) (simp add: Let_def)
    moreover have "bundle_buffers r = take (unat len) (remaining_bytes r1) # bundle_buffers r2"
      using a fits by (subst bundle_buffers.simps) (simp add: r2 reader_remaining_eq)
    ultimately show ?thesis
      using 1 [OF a(1) a(2) refl refl refl a(3)]
      by (simp add: core_decrypt r2 remaining_bytes_def)
  next
    case False
    then have "bundle_loop r ch = ch"
      by (subst bundle_loop.simps) (auto simp: Let_def split: sum.split)
    moreover have "bundle_buffers r = []"
      using False by (subst bundle_buffers.simps) (auto simp: reader_remaining_eq skip_eq split: sum.split)
    ultimately show ?thesis by simp
  qed
qed

lemma core_process: "core (process_data ch d) = receive_unit (core ch) d"
  by (simp add: process_data_def receive_unit_def buffers_of_def core_bundle core_decrypt skip_eq)

lemma core_try_process: "core (try_process_current_buffer ch) = complete_partial (core ch)"
proof (cases "current_buffer ch")
  case None
  then show ?thesis by (simp add: try_process_current_buffer_def complete_partial_def core_def)
next
  case (Some buf)
  let ?ch = "process_data (ch\<lparr>current_buffer := None\<rparr>) buf"
  have "core (?ch\<lparr>expected_data_length := 0\<rparr>) = core ?ch" by (simp add: core_def)
  moreover have "core (ch\<lparr>current_buffer := None\<rparr>) = (core ch)\<lparr>rx_partial := None\<rparr>"
    by (simp add: core_def)
  moreover have "rx_partial (core ch) = Some (expected_data_length ch, buf)"
    using Some by (simp add: core_def)
  ultimately show ?thesis
    using Some by (simp add: try_process_current_buffer_def complete_partial_def core_process)
qed

lemma core_write_fragment:
  "(case write_immediate_fragment ch d of (ch', Inl e) \<Rightarrow> None | (ch', Inr u) \<Rightarrow> Some (core ch')) =
     extend_partial (core ch) d"
  by (simp add: write_immediate_fragment_def extend_partial_def core_def Let_def
      FRAGMENT_COMPLETE_LENGTH_SIZE_def split: option.split)

lemma write_fragment_ok:
  assumes "extend_partial (core ch) d = Some r"
  shows "\<exists>ch'. write_immediate_fragment ch d = (ch', Inr ()) \<and> core ch' = r"
  using assms core_write_fragment [of ch d]
  by (cases "write_immediate_fragment ch d") (auto split: sum.splits)

section \<open>The window\<close>

definition stashed_of :: "rpacket \<Rightarrow> stashed" where
  "stashed_of p = \<lparr>st_data = snd p, st_is_fragment = fst p\<rparr>"

definition spot_of :: "input_channel \<Rightarrow> int \<Rightarrow> nat" where
  "spot_of ch s = nat (s mod max_queued ch)"

text \<open>Every stashed packet is the packet of a sequence in a window of as many sequences as
  there are slots; its slot determines the sequence.\<close>

definition stash_in :: "rpacket list \<Rightarrow> int \<Rightarrow> input_channel \<Rightarrow> bool" where
  "stash_in P lo ch \<longleftrightarrow> (\<forall>spot<length (stash ch). \<forall>item. stash ch ! spot = Some item \<longrightarrow>
     (\<exists>s. lo \<le> s \<and> s < lo + max_queued ch \<and> s < int (length P) \<and> spot_of ch s = spot \<and>
        item = stashed_of (P ! nat s)))"

definition sized :: "input_channel \<Rightarrow> bool" where
  "sized ch \<longleftrightarrow> 0 < max_queued ch \<and> length (stash ch) = nat (max_queued ch) \<and>
     0 \<le> window_start_sequence ch"

text \<open>The invariant for packets \<open>P\<close> and an initial receiver; \<open>d\<close> is 1 between handlers and
  0 while the slot of the window start is still to be looked at.\<close>

definition window_inv :: "receiver \<Rightarrow> rpacket list \<Rightarrow> int \<Rightarrow> input_channel \<Rightarrow> bool" where
  "window_inv r0 P d ch \<longleftrightarrow> sized ch \<and> window_start_sequence ch \<le> int (length P) \<and>
     receive_all r0 (take (nat (window_start_sequence ch)) P) = Some (core ch) \<and>
     stash_in P (window_start_sequence ch + d) ch"

definition has_packet :: "int \<Rightarrow> input_channel \<Rightarrow> int \<Rightarrow> bool" where
  "has_packet d ch s \<longleftrightarrow> s < window_start_sequence ch \<or>
     (window_start_sequence ch + d \<le> s \<and> s < window_start_sequence ch + d + max_queued ch \<and>
      stash ch ! spot_of ch s \<noteq> None)"

lemma spot_less: "sized ch \<Longrightarrow> spot_of ch s < length (stash ch)"
  by (simp add: sized_def spot_of_def)

lemma stash_spot_eq: "sized ch \<Longrightarrow> stash_spot ch s = Some (spot_of ch s)"
  by (simp add: sized_def stash_spot_def spot_of_def)

lemma window_mod_inject:
  fixes s t lo n :: int
  assumes "lo \<le> s" and "s < lo + n" and "lo \<le> t" and "t < lo + n" and "s mod n = t mod n"
  shows "s = t"
proof (rule ccontr)
  assume "s \<noteq> t"
  moreover have "n dvd s - t" using assms(5) by (simp add: mod_eq_dvd_iff)
  ultimately have "\<bar>n\<bar> \<le> \<bar>s - t\<bar>" by (intro dvd_imp_le_int) simp_all
  with assms show False by simp
qed

lemma spot_inject:
  assumes "sized ch" and "lo \<le> s" and "s < lo + max_queued ch" and "lo \<le> t"
    and "t < lo + max_queued ch" and "spot_of ch s = spot_of ch t"
  shows "s = t"
  using assms
  by (intro window_mod_inject [OF assms(2-5)]) (simp add: spot_of_def sized_def eq_nat_nat_iff)

lemma stash_inD:
  assumes "stash_in P lo ch" and "sized ch" and "lo \<le> s" and "s < lo + max_queued ch"
    and "stash ch ! spot_of ch s = Some item"
  shows "s < int (length P)" and "item = stashed_of (P ! nat s)"
proof -
  obtain t where "lo \<le> t" "t < lo + max_queued ch" "t < int (length P)"
    "spot_of ch t = spot_of ch s" "item = stashed_of (P ! nat t)"
    using assms spot_less [OF assms(2), of s] unfolding stash_in_def by blast
  moreover from this have "t = s" using spot_inject assms(2-4) by blast
  ultimately show "s < int (length P)" and "item = stashed_of (P ! nat s)" by simp_all
qed

lemma same_config_simps:
  assumes "in_config ch' = in_config ch"
  shows "max_queued ch' = max_queued ch" and "spot_of ch' s = spot_of ch s"
  using assms by (simp_all add: max_queued_def spot_of_def)

section \<open>Processing the packet at the window start\<close>

text \<open>The part of a handler and of the release loop that processes one packet.\<close>

definition process_packet :: "input_channel \<Rightarrow> rpacket \<Rightarrow> input_channel" where
  "process_packet ch p =
     (if fst p then try_process_current_buffer (fst (write_immediate_fragment ch (snd p)))
      else process_data ch (snd p))"

lemma process_packet_core:
  assumes "receive (core ch) p = Some r"
  shows "core (process_packet ch p) = r"
    and "fst p \<Longrightarrow> snd (write_immediate_fragment ch (snd p)) = Inr ()"
proof -
  show "core (process_packet ch p) = r"
  proof (cases "fst p")
    case True
    with assms obtain r1 where r1: "extend_partial (core ch) (snd p) = Some r1"
      "r = complete_partial r1" by (auto simp: receive_def)
    from write_fragment_ok [OF r1(1)] r1(2) True show ?thesis
      by (auto simp: process_packet_def core_try_process)
  next
    case False
    with assms show ?thesis by (simp add: receive_def process_packet_def core_process)
  qed
  show "snd (write_immediate_fragment ch (snd p)) = Inr ()" if "fst p"
    using assms write_fragment_ok [of ch "snd p"] that by (auto simp: receive_def)
qed

lemma process_packet_frame [simp, frame_simps]:
  "stash (process_packet ch p) = stash ch" "in_config (process_packet ch p) = in_config ch"
  "window_start_sequence (process_packet ch p) = window_start_sequence ch"
  "in_outgoing (process_packet ch p) = in_outgoing ch"
  by (simp_all add: process_packet_def)

definition next_window :: "input_channel \<Rightarrow> input_channel" where
  "next_window ch = ch\<lparr>window_start_sequence := window_start_sequence ch + 1\<rparr>"

lemma next_window_simps [simp]:
  "window_start_sequence (next_window ch) = window_start_sequence ch + 1"
  "stash (next_window ch) = stash ch" "in_config (next_window ch) = in_config ch"
  "in_outgoing (next_window ch) = in_outgoing ch" "core (next_window ch) = core ch"
  by (simp_all add: next_window_def)

lemma consume_empty:
  assumes "sized ch" and "stash ch ! spot_of ch (window_start_sequence ch) = None"
  shows "consume_stashed ch = Some (ch, Inr ())"
  using assms spot_less [OF assms(1), of "window_start_sequence ch"]
  by (subst consume_stashed.simps) (simp add: stash_spot_eq)

lemma consume_packet:
  assumes "sized ch" and "stash ch ! spot_of ch (window_start_sequence ch) = Some (stashed_of p)"
    and "receive (core ch) p = Some r"
  shows "consume_stashed ch = consume_stashed (next_window (process_packet
    (ch\<lparr>stash := (stash ch)[spot_of ch (window_start_sequence ch) := None]\<rparr>) p))"
proof -
  let ?ch = "ch\<lparr>stash := (stash ch)[spot_of ch (window_start_sequence ch) := None]\<rparr>"
  have "receive (core ?ch) p = Some r" using assms(3) by simp
  from process_packet_core(2) [OF this]
  have "fst p \<Longrightarrow> snd (write_immediate_fragment ?ch (snd p)) = Inr ()" .
  then show ?thesis
    using assms(1,2) spot_less [OF assms(1), of "window_start_sequence ch"]
    by (subst consume_stashed.simps)
      (simp add: stash_spot_eq stashed_of_def process_packet_def next_window_def Let_def)
qed

text \<open>One round of the release loop keeps the invariant, and every packet held.\<close>

lemma release_round:
  assumes "window_inv r0 P 0 ch" and "receive_all r0 P \<noteq> None"
    and "stash ch ! spot_of ch (window_start_sequence ch) = Some item"
  obtains ch' where "consume_stashed ch = consume_stashed ch'" and "window_inv r0 P 0 ch'"
    and "stash ch' = (stash ch)[spot_of ch (window_start_sequence ch) := None]"
    and "in_config ch' = in_config ch" and "in_outgoing ch' = in_outgoing ch"
    and "window_start_sequence ch' = window_start_sequence ch + 1"
proof -
  let ?w = "window_start_sequence ch" and ?n = "max_queued ch"
  let ?spot = "spot_of ch ?w"
  let ?ch = "ch\<lparr>stash := (stash ch)[?spot := None]\<rparr>"
  have sized: "sized ch" and stash: "stash_in P ?w ch" and w: "0 \<le> ?w"
    and core: "receive_all r0 (take (nat ?w) P) = Some (core ch)"
    using assms(1) by (simp_all add: window_inv_def sized_def)
  have n: "0 < ?n" using sized by (simp add: sized_def)
  have wP: "?w < int (length P)" and item: "item = stashed_of (P ! nat ?w)"
    using stash_inD [OF stash sized _ _ assms(3)] n by simp_all
  have "receive_all r0 (take (Suc (nat ?w)) P) \<noteq> None" using assms(2) by (rule receive_all_prefix)
  then obtain r where r: "receive (core ch) (P ! nat ?w) = Some r"
    using wP w by (auto simp: receive_all_snoc core)
  define ch' where "ch' = next_window (process_packet ?ch (P ! nat ?w))"
  have fields: "stash ch' = (stash ch)[?spot := None]" "in_config ch' = in_config ch"
    "in_outgoing ch' = in_outgoing ch" "window_start_sequence ch' = ?w + 1"
    by (simp_all add: ch'_def)
  note cfg = same_config_simps [OF fields(2)]
  have "core ch' = r"
    using process_packet_core(1) [of ?ch "P ! nat ?w" r] r by (simp add: ch'_def)
  then have "receive_all r0 (take (nat (?w + 1)) P) = Some (core ch')"
    using wP w r core by (simp add: nat_add_distrib receive_all_snoc)
  moreover have "sized ch'" using sized by (simp add: sized_def fields cfg)
  moreover have "stash_in P (?w + 1) ch'"
    unfolding stash_in_def
  proof (intro allI impI)
    fix spot it
    assume "spot < length (stash ch')" and it: "stash ch' ! spot = Some it"
    then have len: "spot < length (stash ch)" by (simp add: fields)
    then have ne: "spot \<noteq> ?spot" using it by (auto simp: fields)
    then have "stash ch ! spot = Some it" using it by (simp add: fields)
    with len obtain t where t: "?w \<le> t" "t < ?w + ?n" "t < int (length P)" "spot_of ch t = spot"
      "it = stashed_of (P ! nat t)"
      using stash unfolding stash_in_def by blast
    with ne have "t \<noteq> ?w" by auto
    with t show "\<exists>s. ?w + 1 \<le> s \<and> s < ?w + 1 + max_queued ch' \<and> s < int (length P) \<and>
        spot_of ch' s = spot \<and> it = stashed_of (P ! nat s)"
      by (intro exI [of _ t]) (simp add: cfg)
  qed
  ultimately have "window_inv r0 P 0 ch'"
    using wP by (simp add: window_inv_def fields)
  moreover have "consume_stashed ch = consume_stashed ch'"
    unfolding ch'_def using assms(3) by (intro consume_packet [OF sized _ r]) (simp add: item)
  ultimately show thesis using that fields by blast
qed

lemma release_all:
  assumes "window_inv r0 P 0 ch" and "receive_all r0 P \<noteq> None"
  shows "\<exists>ch'. consume_stashed ch = Some (ch', Inr ()) \<and> window_inv r0 P 1 ch' \<and>
    (\<forall>s. has_packet 0 ch s \<longrightarrow> has_packet 1 ch' s) \<and> in_config ch' = in_config ch \<and>
    in_outgoing ch' = in_outgoing ch \<and> window_start_sequence ch \<le> window_start_sequence ch'"
  using assms(1)
proof (induction "length (filter (\<lambda>s. s \<noteq> None) (stash ch))" arbitrary: ch rule: less_induct)
  case less
  let ?w = "window_start_sequence ch" and ?n = "max_queued ch"
  have sized: "sized ch" and stash: "stash_in P ?w ch"
    using less.prems by (simp_all add: window_inv_def)
  show ?case
  proof (cases "stash ch ! spot_of ch ?w")
    case None
    have "stash_in P (?w + 1) ch"
      unfolding stash_in_def
    proof (intro allI impI)
      fix spot it
      assume "spot < length (stash ch)" and "stash ch ! spot = Some it"
      moreover from this obtain t where t: "?w \<le> t" "t < ?w + ?n" "t < int (length P)"
        "spot_of ch t = spot" "it = stashed_of (P ! nat t)"
        using stash unfolding stash_in_def by blast
      ultimately have "t \<noteq> ?w" using None by auto
      with t show "\<exists>s. ?w + 1 \<le> s \<and> s < ?w + 1 + ?n \<and> s < int (length P) \<and>
          spot_of ch s = spot \<and> it = stashed_of (P ! nat s)"
        by (intro exI [of _ t]) simp
    qed
    then have "window_inv r0 P 1 ch" using less.prems by (simp add: window_inv_def)
    moreover have "has_packet 1 ch s" if h: "has_packet 0 ch s" for s
    proof -
      have "s \<noteq> ?w" using h None by (auto simp: has_packet_def)
      with h show ?thesis by (auto simp: has_packet_def)
    qed
    ultimately show ?thesis using consume_empty [OF sized None] by auto
  next
    case (Some item)
    obtain ch1 where ch1: "consume_stashed ch = consume_stashed ch1" "window_inv r0 P 0 ch1"
      "stash ch1 = (stash ch)[spot_of ch ?w := None]" "in_config ch1 = in_config ch"
      "in_outgoing ch1 = in_outgoing ch" "window_start_sequence ch1 = ?w + 1"
      by (rule release_round [OF less.prems assms(2) Some])
    have "length (filter (\<lambda>s. s \<noteq> None) (stash ch1)) < length (filter (\<lambda>s. s \<noteq> None) (stash ch))"
      unfolding ch1(3) using Some by (intro filter_update_less spot_less [OF sized]) simp_all
    from less.hyps [OF this ch1(2)] obtain ch' where ch': "consume_stashed ch1 = Some (ch', Inr ())"
      "window_inv r0 P 1 ch'" "\<forall>s. has_packet 0 ch1 s \<longrightarrow> has_packet 1 ch' s"
      "in_config ch' = in_config ch1" "in_outgoing ch' = in_outgoing ch1"
      "window_start_sequence ch1 \<le> window_start_sequence ch'" by blast
    have "has_packet 0 ch1 s" if h: "has_packet 0 ch s" for s
    proof (cases "s \<le> ?w")
      case True
      then show ?thesis by (simp add: has_packet_def ch1(6))
    next
      case False
      with h have in_w: "?w \<le> s" "s < ?w + ?n" and st: "stash ch ! spot_of ch s \<noteq> None"
        by (auto simp: has_packet_def)
      have "spot_of ch s \<noteq> spot_of ch ?w"
        using spot_inject [OF sized in_w, of ?w] False in_w by force
      with st in_w False show ?thesis
        by (simp add: has_packet_def ch1(3,6) same_config_simps [OF ch1(4)])
    qed
    with ch' ch1 show ?thesis by auto
  qed
qed

section \<open>Accepting a packet\<close>

text \<open>Channels that differ in their acknowledgements and statistics only.\<close>

definition same_window :: "input_channel \<Rightarrow> input_channel \<Rightarrow> bool" where
  "same_window ch ch' \<longleftrightarrow> stash ch' = stash ch \<and> in_config ch' = in_config ch \<and>
     window_start_sequence ch' = window_start_sequence ch \<and> core ch' = core ch"

lemma same_window_inv: "same_window ch ch' \<Longrightarrow> window_inv r0 P d ch' = window_inv r0 P d ch"
  by (simp add: same_window_def window_inv_def sized_def stash_in_def same_config_simps [of ch' ch])

lemma same_window_has: "same_window ch ch' \<Longrightarrow> has_packet d ch' s = has_packet d ch s"
  by (simp add: same_window_def has_packet_def same_config_simps [of ch' ch])

definition true_sequence :: "input_channel \<Rightarrow> u16 \<Rightarrow> int" where
  "true_sequence ch q = true_incoming_sequence q (window_start_sequence ch) (max_queued ch)"

text \<open>The acknowledgements a packet can cause.\<close>

definition acks_of :: "input_channel \<Rightarrow> u16 \<Rightarrow> outgoing_contextual set" where
  "acks_of ch q =
     (if window_start_sequence ch \<le> true_sequence ch q \<and>
         true_sequence ch q \<le> window_start_sequence ch + max_queued ch
      then {\<lparr>oc_op_code = Acknowledge, oc_sequence = q\<rparr>}
      else if true_sequence ch q < window_start_sequence ch
      then {\<lparr>oc_op_code = AcknowledgeAll, oc_sequence = wire_sequence (window_start_sequence ch - 1)\<rparr>}
      else {})"

lemma core_parts:
  "core (ch\<lparr>last_ack_all_sequence := a, last_ack_all_time := t\<rparr>) = core ch"
  "core (ch\<lparr>in_outgoing := q\<rparr>) = core ch"
  by (simp_all add: core_def)

lemma wire_data:
  "\<not> length (be16 q @ d) < 2" "of_be16 ((be16 q @ d) ! 0) ((be16 q @ d) ! 1) = q"
  "drop 2 (be16 q @ d) = d"
  by (simp_all add: be16_def)

lemma validity_cases:
  "is_valid_reliable_data ch (be16 q @ d) now =
     (if window_start_sequence ch + max_queued ch < true_sequence ch q then (None, ch)
      else if window_start_sequence ch \<le> true_sequence ch q then (Some (true_sequence ch q, q), ch)
      else (None, count_duplicate
        (if duration_since now (last_ack_all_time ch) < max_ack_delay (in_config ch)
         then send_ack_all (window_start_sequence ch - 1) now ch else ch)))"
  by (simp only: is_valid_reliable_data_def wire_data Let_def true_sequence_def if_False)

lemma count_received_simps [simp]:
  "in_outgoing (count_received ch) = in_outgoing ch"
  "true_sequence (count_received ch) q = true_sequence ch q"
  "max_queued (count_received ch) = max_queued ch"
  "in_config (count_received ch) = in_config ch"
  "stash (count_received ch) = stash ch"
  "window_start_sequence (count_received ch) = window_start_sequence ch"
  "same_window ch' (count_received ch) = same_window ch' ch"
  by (simp_all add: count_received_def same_window_def true_sequence_def max_queued_def core_def)

lemma window_ops_same [simp]:
  "same_window ch (emit op_code q ch')  = same_window ch ch'"
  "same_window ch (count_duplicate ch') = same_window ch ch'"
  "same_window ch (send_ack_all sq now ch') = same_window ch ch'"
  "same_window ch (ch'\<lparr>in_stats := st\<rparr>) = same_window ch ch'"
  by (simp_all add: same_window_def emit_def count_duplicate_def send_ack_all_def Let_def core_def)

lemma outgoing_ops [simp]:
  "in_outgoing (emit op_code q ch) = in_outgoing ch @ [\<lparr>oc_op_code = op_code, oc_sequence = q\<rparr>]"
  "in_outgoing (count_duplicate ch) = in_outgoing ch"
  "in_outgoing (send_ack_all sq now ch) =
     in_outgoing ch @ [\<lparr>oc_op_code = AcknowledgeAll, oc_sequence = wire_sequence sq\<rparr>]"
  by (simp_all add: emit_def count_duplicate_def send_ack_all_def Let_def)

lemma same_window_refl [simp]: "same_window ch ch"
  by (simp add: same_window_def)

lemma preprocess_rejected:
  assumes "window_start_sequence ch + max_queued ch < true_sequence ch q \<or>
    true_sequence ch q < window_start_sequence ch"
  shows "\<exists>ch'. preprocess ch (be16 q @ d) f now = Some (False, ch') \<and> same_window ch ch' \<and>
    set (in_outgoing ch') \<subseteq> set (in_outgoing ch) \<union> acks_of ch q"
proof -
  let ?ch = "count_received ch"
  have "\<exists>ch'. is_valid_reliable_data ?ch (be16 q @ d) now = (None, ch') \<and> same_window ch ch' \<and>
      set (in_outgoing ch') \<subseteq> set (in_outgoing ch) \<union> acks_of ch q"
    using assms
    by (cases "true_sequence ch q < window_start_sequence ch") (auto simp: validity_cases acks_of_def)
  then show ?thesis by (auto simp: preprocess_def Let_def)
qed

lemma preprocess_immediate:
  assumes "true_sequence ch q = window_start_sequence ch" and "0 < max_queued ch"
  shows "\<exists>ch'. preprocess ch (be16 q @ d) f now = Some (True, ch') \<and> same_window ch ch' \<and>
    set (in_outgoing ch') \<subseteq> set (in_outgoing ch) \<union> acks_of ch q"
proof -
  let ?ch = "count_received ch"
  have "is_valid_reliable_data ?ch (be16 q @ d) now = (Some (window_start_sequence ch, q), ?ch)"
    using assms by (simp add: validity_cases)
  with assms show ?thesis by (auto simp: preprocess_def Let_def acks_of_def)
qed

lemma preprocess_ahead:
  assumes "window_start_sequence ch < true_sequence ch q"
    and "true_sequence ch q \<le> window_start_sequence ch + max_queued ch" and "sized ch"
  shows "\<exists>ch'. preprocess ch (be16 q @ d) f now = Some (False, ch') \<and>
    same_window (if stash ch ! spot_of ch (true_sequence ch q) = None
      then ch\<lparr>stash := (stash ch)[spot_of ch (true_sequence ch q) := Some (stashed_of (f, d))]\<rparr>
      else ch) ch' \<and>
    set (in_outgoing ch') \<subseteq> set (in_outgoing ch) \<union> acks_of ch q"
proof -
  let ?ch = "count_received ch"
  let ?s = "true_sequence ch q"
  have v: "is_valid_reliable_data ?ch (be16 q @ d) now = (Some (?s, q), ?ch)"
    using assms by (simp add: validity_cases)
  let ?spot = "spot_of ch ?s"
  define ch2 where "ch2 = count_out_of_order (emit Acknowledge q ?ch)"
  have fields: "stash ch2 = stash ch" "in_config ch2 = in_config ch" "same_window ch ch2"
    "set (in_outgoing ch2) = set (in_outgoing ch) \<union> acks_of ch q"
    using assms by (simp_all add: ch2_def acks_of_def emit_def same_window_def core_def
        count_received_def count_out_of_order_def)
  have "stash_spot ch2 ?s = Some ?spot"
    using assms(3) by (simp add: stash_spot_def sized_def spot_of_def max_queued_def fields)
  moreover have "index (stash ch2) ?spot = Some (stash ch ! ?spot)"
    using spot_less [OF assms(3), of ?s] by (simp add: fields)
  ultimately have pre: "preprocess ch (be16 q @ d) f now =
      (if stash ch ! ?spot \<noteq> None then Some (False, count_duplicate ch2)
       else Some (False, ch2\<lparr>stash := (stash ch)[?spot := Some (stashed_of (f, d))]\<rparr>))"
    using assms by (simp add: preprocess_def v Let_def wire_data stashed_of_def fields flip: ch2_def)
  have "same_window (ch\<lparr>stash := st\<rparr>) (ch2\<lparr>stash := st\<rparr>)" for st
    using fields by (simp add: same_window_def)
  then show ?thesis using fields by (auto simp: pre)
qed

section \<open>Handling a packet\<close>

definition handle_packet ::
    "input_channel \<Rightarrow> bool \<Rightarrow> bytes \<Rightarrow> instant \<Rightarrow> (input_channel \<times> (CorruptData + unit)) option" where
  "handle_packet ch fragment data now =
     (if fragment then handle_reliable_data_fragment ch data now
      else handle_reliable_data ch data now)"

text \<open>An acknowledgement is sound when it names a sequence that has been received; the sequence
  is at most one behind \<open>lo\<close>, a window start before the acknowledgement was emitted.\<close>

definition ack_sound :: "int \<Rightarrow> input_channel \<Rightarrow> outgoing_contextual \<Rightarrow> bool" where
  "ack_sound lo ch r \<longleftrightarrow> (\<exists>s\<ge>lo - 1. oc_sequence r = wire_sequence s \<and>
     (oc_op_code r = Acknowledge \<and> has_packet 1 ch s \<or>
      oc_op_code r = AcknowledgeAll \<and> s < window_start_sequence ch))"

definition acks_sound :: "int \<Rightarrow> input_channel \<Rightarrow> bool" where
  "acks_sound lo ch \<longleftrightarrow> (\<forall>r\<in>set (in_outgoing ch). ack_sound lo ch r)"

text \<open>What a step of the channel may do to the window: it never loses a packet it holds and
  never moves back.\<close>

definition grows :: "input_channel \<Rightarrow> input_channel \<Rightarrow> bool" where
  "grows ch ch' \<longleftrightarrow> (\<forall>s. has_packet 1 ch s \<longrightarrow> has_packet 1 ch' s) \<and>
     window_start_sequence ch \<le> window_start_sequence ch' \<and> in_config ch' = in_config ch"

lemma grows_same: "same_window ch ch' \<Longrightarrow> grows ch ch'"
  by (simp add: grows_def same_window_has) (simp add: same_window_def)

lemma ack_sound_grows: "grows ch ch' \<Longrightarrow> ack_sound lo ch r \<Longrightarrow> ack_sound lo ch' r"
  unfolding grows_def ack_sound_def by fastforce

lemma acks_sound_step:
  assumes "acks_sound lo ch" and "grows ch ch'" and "lo \<le> window_start_sequence ch"
    and "set (in_outgoing ch') \<subseteq> set (in_outgoing ch) \<union> acks_of ch q"
    and "q = wire_sequence i" and "window_start_sequence ch \<le> i \<and> has_packet 1 ch' i \<or>
      acks_of ch q = {} \<or> true_sequence ch q < window_start_sequence ch"
  shows "acks_sound lo ch'"
  unfolding acks_sound_def
proof
  fix r
  assume "r \<in> set (in_outgoing ch')"
  then consider "r \<in> set (in_outgoing ch)" | "r \<in> acks_of ch q" using assms(4) by blast
  then show "ack_sound lo ch' r"
  proof cases
    case 1
    then show ?thesis using assms(1,2) ack_sound_grows unfolding acks_sound_def by blast
  next
    case 2
    have below: "window_start_sequence ch - 1 < window_start_sequence ch'"
      using assms(2) by (simp add: grows_def)
    show ?thesis
    proof (cases "true_sequence ch q < window_start_sequence ch")
      case True
      with 2 below assms(3) show ?thesis
        unfolding ack_sound_def
        by (intro exI [of _ "window_start_sequence ch - 1"]) (simp add: acks_of_def)
    next
      case False
      with 2 assms(3,5,6) show ?thesis
        unfolding ack_sound_def by (intro exI [of _ i]) (auto simp: acks_of_def split: if_splits)
    qed
  qed
qed

lemma handle_immediate:
  assumes "preprocess ch (be16 q @ snd p) (fst p) now = Some (True, ch1)"
    and "receive (core ch1) p = Some r"
  shows "\<exists>ch2. handle_packet ch (fst p) (be16 q @ snd p) now = consume_stashed ch2 \<and>
    core ch2 = r \<and> stash ch2 = stash ch1 \<and> in_config ch2 = in_config ch1 \<and>
    in_outgoing ch2 = in_outgoing ch1 \<and>
    window_start_sequence ch2 = window_start_sequence ch1 + 1"
proof (cases "fst p")
  case True
  let ?w = "write_immediate_fragment ch1 (snd p)"
  have w: "?w = (fst ?w, Inr ())"
    using process_packet_core(2) [OF assms(2) True] by (simp add: prod_eq_iff)
  have "handle_packet ch (fst p) (be16 q @ snd p) now =
      consume_stashed (try_process_current_buffer (next_window (fst ?w)))"
    using assms(1) True
    by (simp add: handle_packet_def handle_reliable_data_fragment_def wire_data next_window_def
        Let_def, subst w, simp)
  moreover have "core (try_process_current_buffer (next_window (fst ?w))) = r"
    using process_packet_core(1) [OF assms(2)] True by (simp add: core_try_process process_packet_def)
  ultimately show ?thesis by (intro exI [of _ "try_process_current_buffer (next_window (fst ?w))"]) simp
next
  case False
  then have "handle_packet ch (fst p) (be16 q @ snd p) now =
      consume_stashed (next_window (process_packet ch1 p))"
    using assms(1)
    by (simp add: handle_packet_def handle_reliable_data_def wire_data next_window_def
        process_packet_def Let_def)
  moreover have "core (process_packet ch1 p) = r" by (rule process_packet_core(1) [OF assms(2)])
  ultimately show ?thesis by (intro exI [of _ "next_window (process_packet ch1 p)"]) simp
qed

lemma handle_not_immediate:
  assumes "preprocess ch data f now = Some (False, ch')"
  shows "handle_packet ch f data now = Some (ch', Inr ())"
  using assms
  by (cases f)
    (simp_all add: handle_packet_def handle_reliable_data_def handle_reliable_data_fragment_def)

text \<open>A delivery is timely when it lies within one block of 65536 sequences.\<close>

definition timely :: "input_channel \<Rightarrow> nat \<Rightarrow> bool" where
  "timely ch i \<longleftrightarrow> window_start_sequence ch + max_queued ch - 65536 < int i \<and>
     int i < window_start_sequence ch + 65536 \<and> window_start_sequence ch < 2 ^ 62"

definition handled :: "receiver \<Rightarrow> rpacket list \<Rightarrow> input_channel \<Rightarrow> input_channel \<Rightarrow> bool" where
  "handled r0 P ch ch' \<longleftrightarrow> window_inv r0 P 1 ch' \<and> grows ch ch' \<and>
     (\<forall>lo\<le>window_start_sequence ch. acks_sound lo ch \<longrightarrow> acks_sound lo ch')"

lemma handled_same:
  assumes "window_inv r0 P 1 ch" and "same_window ch ch'"
    and "set (in_outgoing ch') \<subseteq> set (in_outgoing ch) \<union> acks_of ch (wire_sequence i)"
    and "window_start_sequence ch \<le> i \<and> has_packet 1 ch i \<or> acks_of ch (wire_sequence i) = {} \<or>
      true_sequence ch (wire_sequence i) < window_start_sequence ch"
  shows "handled r0 P ch ch'"
  using assms acks_sound_step [OF _ grows_same [OF assms(2)] _ assms(3) refl]
  unfolding handled_def by (auto simp: same_window_inv same_window_has grows_same)

lemma stash_insert:
  assumes "window_inv r0 P 1 ch" and "window_start_sequence ch < int i" and "i < length P"
    and "int i \<le> window_start_sequence ch + max_queued ch"
  defines "ch1 \<equiv> ch\<lparr>stash := (stash ch)[spot_of ch (int i) := Some (stashed_of (P ! i))]\<rparr>"
  shows "window_inv r0 P 1 ch1" and "grows ch ch1" and "has_packet 1 ch1 (int i)"
proof -
  have sized: "sized ch" and st: "stash_in P (window_start_sequence ch + 1) ch"
    using assms(1) by (simp_all add: window_inv_def)
  note spot = spot_less [OF sized]
  have cfg: "in_config ch1 = in_config ch" by (simp add: ch1_def)
  note cfg_simps = same_config_simps [OF cfg]
  have "stash_in P (window_start_sequence ch + 1) ch1"
    unfolding stash_in_def
  proof (intro allI impI)
    fix k it
    assume "k < length (stash ch1)" and it: "stash ch1 ! k = Some it"
    then have k: "k < length (stash ch)" by (simp add: ch1_def)
    show "\<exists>s\<ge>window_start_sequence ch + 1.
        s < window_start_sequence ch + 1 + max_queued ch1 \<and> s < int (length P) \<and>
        spot_of ch1 s = k \<and> it = stashed_of (P ! nat s)"
    proof (cases "k = spot_of ch (int i)")
      case True
      with it k have "it = stashed_of (P ! i)" by (simp add: ch1_def)
      with True assms(2-4) show ?thesis by (intro exI [of _ "int i"]) (simp add: cfg_simps)
    next
      case False
      with it k have "stash ch ! k = Some it" by (simp add: ch1_def)
      with st k show ?thesis unfolding stash_in_def cfg_simps by blast
    qed
  qed
  then show "window_inv r0 P 1 ch1"
    using assms(1) by (simp add: window_inv_def sized_def cfg_simps) (simp add: ch1_def)
  have same_w: "window_start_sequence ch1 = window_start_sequence ch" by (simp add: ch1_def)
  have "stash ch1 ! k \<noteq> None" if "stash ch ! k \<noteq> None" for k
    using that spot by (cases "k = spot_of ch (int i)") (simp_all add: ch1_def)
  then show "grows ch ch1"
    by (auto simp: grows_def has_packet_def same_w cfg_simps cfg)
  have "stash ch1 ! spot_of ch (int i) \<noteq> None" using spot by (simp add: ch1_def)
  then show "has_packet 1 ch1 (int i)"
    using assms(2,4) by (simp add: has_packet_def same_w cfg_simps)
qed

lemma grows_trans: "grows ch ch' \<Longrightarrow> grows ch' ch'' \<Longrightarrow> grows ch ch''"
  by (auto simp: grows_def)

text \<open>The main lemma: a timely packet of \<open>P\<close>, in any order and any number of times, is
  handled without a panic and without an error, keeps the invariant, and is held afterwards if
  it lies in the window.\<close>

lemma handle_packet_invariant:
  assumes inv: "window_inv r0 P 1 ch" and ok: "receive_all r0 P \<noteq> None"
    and i: "i < length P" and timely: "timely ch i"
  shows "\<exists>ch'. handle_packet ch (fst (P ! i)) (be16 (wire_sequence (int i)) @ snd (P ! i)) now =
      Some (ch', Inr ()) \<and> handled r0 P ch ch' \<and>
    (true_sequence ch (wire_sequence (int i)) = int i \<and>
     int i \<le> window_start_sequence ch + max_queued ch \<longrightarrow> has_packet 1 ch' (int i))"
proof -
  let ?w = "window_start_sequence ch" and ?n = "max_queued ch" and ?q = "wire_sequence (int i)"
  let ?s = "true_sequence ch ?q"
  have sized: "sized ch" and w: "0 \<le> ?w" and n: "0 < ?n"
    using inv by (simp_all add: window_inv_def sized_def)
  have w62: "?w < 2 ^ 62" using timely by (simp add: timely_def)
  have small: "?n \<le> 65535"
    using uint_bounded [of "max_queued_incoming (in_config ch)"] by (simp add: max_queued_def)
  have exact: "?s = int i" if "?w \<le> ?s" and "?s \<le> ?w + ?n"
  proof -
    have "?s mod 65536 = int i mod 65536"
      using true_incoming_cong [OF w w62, of ?q ?n] by (simp add: true_sequence_def)
    moreover have "\<bar>?s - int i\<bar> < 65536"
      using that timely small unfolding timely_def by linarith
    ultimately show ?thesis by (rule cong_unique)
  qed
  consider "?w + ?n < ?s \<or> ?s < ?w" | "?s = ?w" | "?w < ?s" "?s \<le> ?w + ?n" by linarith
  then show ?thesis
  proof cases
    case 1
    obtain ch' where ch': "preprocess ch (be16 ?q @ snd (P ! i)) (fst (P ! i)) now = Some (False, ch')"
      "same_window ch ch'" "set (in_outgoing ch') \<subseteq> set (in_outgoing ch) \<union> acks_of ch ?q"
      using preprocess_rejected [OF 1, of "snd (P ! i)" "fst (P ! i)" now] by blast
    have "acks_of ch ?q = {} \<or> ?s < ?w" using 1 by (auto simp: acks_of_def)
    then have "handled r0 P ch ch'" using handled_same [OF inv ch'(2,3)] by blast
    moreover have "has_packet 1 ch' (int i)" if "?s = int i" and "int i \<le> ?w + ?n"
    proof -
      have "int i < ?w" using 1 that by linarith
      then have "has_packet 1 ch (int i)" by (simp add: has_packet_def)
      then show ?thesis using same_window_has [OF ch'(2)] by blast
    qed
    ultimately show ?thesis using handle_not_immediate [OF ch'(1)] by blast
  next
    case 2
    with exact n have iw: "int i = ?w" by simp
    obtain ch1 where pre: "preprocess ch (be16 ?q @ snd (P ! i)) (fst (P ! i)) now = Some (True, ch1)"
      and same: "same_window ch ch1"
      and out: "set (in_outgoing ch1) \<subseteq> set (in_outgoing ch) \<union> acks_of ch ?q"
      using preprocess_immediate [OF 2 n, of "snd (P ! i)" "fst (P ! i)" now] by blast
    have before: "receive_all r0 (take i P) = Some (core ch)"
      using inv by (simp add: window_inv_def flip: iw)
    have "receive_all r0 (take (Suc i) P) \<noteq> None" using ok by (rule receive_all_prefix)
    then obtain r where r: "receive (core ch) (P ! i) = Some r"
      using i by (auto simp: receive_all_snoc before)
    then have "receive (core ch1) (P ! i) = Some r" using same by (simp add: same_window_def)
    from handle_immediate [OF pre this] same obtain ch2 where
      h: "handle_packet ch (fst (P ! i)) (be16 ?q @ snd (P ! i)) now = consume_stashed ch2"
      and ch2: "core ch2 = r" "stash ch2 = stash ch" "in_config ch2 = in_config ch"
        "in_outgoing ch2 = in_outgoing ch1" "window_start_sequence ch2 = ?w + 1"
      by (auto simp: same_window_def)
    note cfg = same_config_simps [OF ch2(3)]
    have "receive_all r0 (take (nat (?w + 1)) P) = Some (core ch2)"
      using i r before by (simp add: ch2 receive_all_snoc nat_add_distrib flip: iw)
    then have inv2: "window_inv r0 P 0 ch2"
      using inv i by (simp add: window_inv_def sized_def stash_in_def ch2 cfg flip: iw)
    have has2: "has_packet 0 ch2 s" if "has_packet 1 ch s \<or> s = int i" for s
      using that by (auto simp: has_packet_def ch2 cfg iw)
    obtain ch' where ch': "consume_stashed ch2 = Some (ch', Inr ())" "window_inv r0 P 1 ch'"
      "\<forall>s. has_packet 0 ch2 s \<longrightarrow> has_packet 1 ch' s" "in_config ch' = in_config ch2"
      "in_outgoing ch' = in_outgoing ch2" "window_start_sequence ch2 \<le> window_start_sequence ch'"
      using release_all [OF inv2 ok] by blast
    have grows: "grows ch ch'" using ch' ch2 has2 by (simp add: grows_def)
    have hasi: "has_packet 1 ch' (int i)" using ch'(3) has2 by blast
    have "set (in_outgoing ch') \<subseteq> set (in_outgoing ch) \<union> acks_of ch ?q"
      using out by (simp add: ch' ch2)
    then have "handled r0 P ch ch'"
      using acks_sound_step [OF _ grows _ _ refl] hasi iw ch'(2) grows by (simp add: handled_def)
    with h ch'(1) hasi show ?thesis by simp
  next
    case 3
    with exact have si: "?s = int i" by simp
    let ?spot = "spot_of ch (int i)"
    let ?ch1 = "ch\<lparr>stash := (stash ch)[?spot := Some (stashed_of (P ! i))]\<rparr>"
    obtain ch' where pre: "preprocess ch (be16 ?q @ snd (P ! i)) (fst (P ! i)) now = Some (False, ch')"
      and same: "same_window (if stash ch ! ?spot = None then ?ch1 else ch) ch'"
      and out: "set (in_outgoing ch') \<subseteq> set (in_outgoing ch) \<union> acks_of ch ?q"
      using preprocess_ahead [OF 3 sized, of "snd (P ! i)" "fst (P ! i)" now]
      unfolding si prod.collapse by blast
    have "handled r0 P ch ch' \<and> has_packet 1 ch' (int i)"
    proof (cases "stash ch ! ?spot = None")
      case True
      note ins = stash_insert [OF inv 3(1) [unfolded si] i 3(2) [unfolded si]]
      from same True have same1: "same_window ?ch1 ch'" by simp
      have hasi: "has_packet 1 ch' (int i)" using ins(3) same_window_has [OF same1] by blast
      have grows: "grows ch ch'" using ins(2) grows_same [OF same1] by (rule grows_trans)
      show ?thesis
        using acks_sound_step [OF _ grows _ out refl] hasi grows 3(1) si ins(1) same_window_inv [OF same1]
        by (simp add: handled_def)
    next
      case False
      with same have same1: "same_window ch ch'" by simp
      have hasi: "has_packet 1 ch (int i)" using 3 False by (simp add: has_packet_def si)
      then show ?thesis
        using handled_same [OF inv same1 out] same_window_has [OF same1] 3(1) si by fastforce
    qed
    then show ?thesis using handle_not_immediate [OF pre] by blast
  qed
qed

section \<open>Arbitrary input\<close>

text \<open>Whatever bytes arrive, a channel with a window handles them without a panic.\<close>

lemma sized_cong:
  "sized ch \<Longrightarrow> stash ch' = stash ch \<Longrightarrow> in_config ch' = in_config ch \<Longrightarrow>
   window_start_sequence ch \<le> window_start_sequence ch' \<Longrightarrow> sized ch'"
  by (simp add: sized_def same_config_simps [of ch' ch])

lemma sized_new: "0 < max_queued_incoming config \<Longrightarrow> sized (input_new config cipher now)"
  by (simp add: sized_def input_new_def max_queued_def word_less_def)

lemma validity_same: "same_window ch (snd (is_valid_reliable_data ch data now))"
  by (simp add: is_valid_reliable_data_def Let_def)

lemma same_window_sized: "same_window ch ch' \<Longrightarrow> sized ch \<Longrightarrow> sized ch'"
  by (rule sized_cong [of ch]) (auto simp: same_window_def)

lemma preprocess_total:
  assumes "sized ch"
  shows "\<exists>b ch'. preprocess ch data f now = Some (b, ch') \<and> sized ch' \<and> in_config ch' = in_config ch"
proof -
  let ?v = "is_valid_reliable_data (count_received ch) data now"
  have same: "same_window ch (snd ?v)"
    using validity_same [of "count_received ch" data now] by (simp add: same_window_def count_received_def core_def)
  then have sized: "sized (snd ?v)" and cfg: "in_config (snd ?v) = in_config ch"
    using assms same_window_sized by (auto simp: same_window_def)
  show ?thesis
  proof (cases "fst ?v")
    case None
    with sized cfg show ?thesis by (auto simp: preprocess_def split_beta)
  next
    case (Some r)
    obtain sq q where r: "r = (sq, q)" by (cases r)
    show ?thesis
    proof (cases "sq = window_start_sequence (snd ?v)")
      case True
      have "sized (emit Acknowledge q (snd ?v))"
        by (rule sized_cong [OF sized]) (simp_all add: emit_def)
      with sized cfg True show ?thesis
        by (auto simp: preprocess_def split_beta Some r Let_def emit_def)
    next
      case False
      define ch2 where "ch2 = count_out_of_order (emit Acknowledge q (snd ?v))"
      have fields: "stash ch2 = stash (snd ?v)" "in_config ch2 = in_config ch"
        "window_start_sequence ch2 = window_start_sequence (snd ?v)"
        by (simp_all add: ch2_def emit_def count_out_of_order_def cfg)
      have sized2: "sized ch2" by (rule sized_cong [OF sized]) (simp_all add: fields cfg)
      have st: "stash_spot ch2 sq = Some (spot_of ch2 sq)" by (rule stash_spot_eq [OF sized2])
      have idx: "index (stash ch2) (spot_of ch2 sq) = Some (stash ch2 ! spot_of ch2 sq)"
        using spot_less [OF sized2] by simp
      have eq: "preprocess ch data f now =
          (if stash ch2 ! spot_of ch2 sq \<noteq> None then Some (False, count_duplicate ch2)
           else Some (False, ch2\<lparr>stash := (stash ch2)[spot_of ch2 sq :=
             Some \<lparr>st_data = drop 2 data, st_is_fragment = f\<rparr>]\<rparr>))"
        using False by (simp add: preprocess_def split_beta Some r Let_def st idx flip: ch2_def)
      have "sized (ch2\<lparr>stash := (stash ch2)[k := x]\<rparr>)" for k x
        using sized2 by (simp add: sized_def max_queued_def)
      moreover have "sized (count_duplicate ch2)"
        by (rule sized_cong [OF sized2]) (simp_all add: count_duplicate_def)
      ultimately show ?thesis
        unfolding eq by (auto simp: fields count_duplicate_def)
    qed
  qed
qed

lemma consume_total:
  "sized ch \<Longrightarrow> \<exists>ch' r. consume_stashed ch = Some (ch', r) \<and> sized ch' \<and> in_config ch' = in_config ch"
proof (induction "length (filter (\<lambda>s. s \<noteq> None) (stash ch))" arbitrary: ch rule: less_induct)
  case less
  let ?spot = "spot_of ch (window_start_sequence ch)"
  note spot = spot_less [OF less.prems, of "window_start_sequence ch"]
  show ?case
  proof (cases "stash ch ! ?spot")
    case None
    with less.prems show ?thesis by (simp add: consume_empty)
  next
    case (Some item)
    let ?ch1 = "ch\<lparr>stash := (stash ch)[?spot := None]\<rparr>"
    let ?w = "write_immediate_fragment ?ch1 (st_data item)"
    let ?p = "(st_is_fragment item, st_data item)"
    let ?next = "next_window (process_packet ?ch1 ?p)"
    have fewer: "length (filter (\<lambda>s. s \<noteq> None) (stash ?next)) < length (filter (\<lambda>s. s \<noteq> None) (stash ch))"
      using Some spot by (simp add: filter_update_less)
    have sized1: "sized ?ch1" using less.prems by (simp add: sized_def max_queued_def)
    have "sized ?next"
      by (rule sized_cong [OF sized1]) simp_all
    from less.hyps [OF fewer this] have rec:
      "\<exists>ch' r. consume_stashed ?next = Some (ch', r) \<and> sized ch' \<and> in_config ch' = in_config ch"
      by simp
    have step: "consume_stashed ch =
        (if st_is_fragment item \<and> (\<exists>e. snd ?w = Inl e) then Some ?w
         else consume_stashed ?next)"
      using Some spot less.prems
      by (subst consume_stashed.simps)
        (auto simp: stash_spot_eq Let_def process_packet_def next_window_def prod_eq_iff
          split: sum.split)
    have "sized (fst ?w)" by (rule sized_cong [OF sized1]) simp_all
    then have "\<exists>ch' r. Some ?w = Some (ch', r) \<and> sized ch' \<and> in_config ch' = in_config ch"
      by (intro exI [of _ "fst ?w"] exI [of _ "snd ?w"]) simp
    then show ?thesis using rec unfolding step by simp
  qed
qed

lemma handle_total:
  assumes "sized ch"
  shows "\<exists>ch' r. handle_packet ch f data now = Some (ch', r) \<and> sized ch' \<and> in_config ch' = in_config ch"
proof -
  obtain b ch1 where pre: "preprocess ch data f now = Some (b, ch1)" and sized: "sized ch1"
    and cfg: "in_config ch1 = in_config ch"
    using preprocess_total [OF assms] by blast
  show ?thesis
  proof (cases b)
    case False
    with pre sized cfg show ?thesis by (simp add: handle_not_immediate)
  next
    case True
    let ?d = "drop 2 data" and ?w = "write_immediate_fragment ch1 (drop 2 data)"
    have a: "sized (try_process_current_buffer (next_window (fst ?w)))"
      and b: "sized (next_window (process_data ch1 ?d))" and c: "sized (fst ?w)"
      by (auto intro!: sized_cong [OF sized])
    have eq: "handle_packet ch f data now =
        (if f then (case snd ?w of Inl e \<Rightarrow> Some (fst ?w, Inl e)
           | Inr _ \<Rightarrow> consume_stashed (try_process_current_buffer (next_window (fst ?w))))
         else consume_stashed (next_window (process_data ch1 ?d)))"
      using pre True
      by (cases f) (auto simp: handle_packet_def handle_reliable_data_def next_window_def
          handle_reliable_data_fragment_def Let_def split: prod.split sum.split)
    show ?thesis
      unfolding eq using consume_total [OF a] consume_total [OF b] c cfg
      by (auto split: sum.split)
  qed
qed

section \<open>Bundles\<close>

definition bundle_bytes :: "bytes list \<Rightarrow> bytes" where
  "bundle_bytes bs = concat (map (\<lambda>b. db_bytes (of_nat (length b)) @ b) bs)"

lemma bundle_bytes_simps [simp]:
  "bundle_bytes [] = []"
  "bundle_bytes (b # bs) = db_bytes (of_nat (length b)) @ b @ bundle_bytes bs"
  by (simp_all add: bundle_bytes_def)

lemma db_bytes_nonempty [simp]: "db_bytes len \<noteq> []"
  by (simp add: db_bytes_def multibyte_def)

lemma bundle_buffers_bytes:
  "remaining_bytes r = bundle_bytes bs \<Longrightarrow> list_all (\<lambda>b. length b < 2 ^ 32) bs \<Longrightarrow>
     bundle_buffers r = bs"
proof (induction bs arbitrary: r)
  case Nil
  then show ?case by (subst bundle_buffers.simps) simp
next
  case (Cons b bs)
  have rem: "remaining_bytes r = db_bytes (of_nat (length b)) @ b @ bundle_bytes bs"
    and len: "length b < 2 ^ 32"
    using Cons.prems by simp_all
  obtain r1 where r1: "db_read r = Inr (of_nat (length b), r1)"
    "remaining_bytes r1 = b @ bundle_bytes bs" "unat (of_nat (length b) :: u32) = length b"
    by (rule db.rd_frame [OF rem len]) auto
  have "bundle_buffers r = b # bundle_buffers (advance (length b) r1)"
    by (subst bundle_buffers.simps) (simp add: rem r1)
  moreover have "bundle_buffers (advance (length b) r1) = bs"
    using Cons.prems(2) by (intro Cons.IH) (simp_all add: r1)
  ultimately show ?case by simp
qed

lemma buffers_of_bundle:
  assumes "bs \<noteq> []" and "list_all (\<lambda>b. length b < 2 ^ 32) bs"
  shows "buffers_of (MULTI_DATA_INDICATOR @ bundle_bytes bs) = bs"
proof -
  obtain b bs' where "bs = b # bs'" using assms(1) by (cases bs) auto
  then have "bundle_bytes bs \<noteq> []" by simp
  moreover have "length MULTI_DATA_INDICATOR = 2" by (simp add: MULTI_DATA_INDICATOR_def)
  ultimately show ?thesis
    using bundle_buffers_bytes [OF _ assms(2), of "advance 2 (reader_new (MULTI_DATA_INDICATOR @ bundle_bytes bs))"]
    by (simp add: buffers_of_def)
qed

lemma receive_buffers_plain:
  "rx_cipher r = None \<Longrightarrow> rx_app (foldl receive_buffer r ds) = rx_app r @ ds"
  by (induction ds arbitrary: r) (simp_all add: receive_buffer_def unseal_def)

section \<open>Properties\<close>

text \<open>C35: A data unit that begins with the bundle indicator delivers the bundled buffers
  one by one, each unsealed in turn; unencrypted, the application receives exactly the
  buffers. This holds for every such unit, also when a message that happens to begin with the
  two indicator bytes was meant.\<close>

theorem bundle_delivers_buffers:
  assumes "bs \<noteq> []" and "list_all (\<lambda>b. length b < 2 ^ 32) bs"
  shows "core (process_data ch (MULTI_DATA_INDICATOR @ bundle_bytes bs)) =
      foldl receive_buffer (core ch) bs \<and>
    (in_cipher ch = None \<longrightarrow>
       app_data (process_data ch (MULTI_DATA_INDICATOR @ bundle_bytes bs)) = app_data ch @ bs)"
proof -
  let ?ch = "process_data ch (MULTI_DATA_INDICATOR @ bundle_bytes bs)"
  have core: "core ?ch = foldl receive_buffer (core ch) bs"
    by (simp add: core_process receive_unit_def buffers_of_bundle [OF assms])
  moreover have "app_data ?ch = app_data ch @ bs" if "in_cipher ch = None"
  proof -
    have "rx_app (core ?ch) = rx_app (core ch) @ bs"
      unfolding core by (rule receive_buffers_plain) (simp add: core_def that)
    then show ?thesis by (simp add: core_def)
  qed
  ultimately show ?thesis by blast
qed

theorem bundle_delivers_buffers_witness:
  "app_data (process_data (input_new input_config_default None 0) [0x00, 0x19, 0x01, 0x61]) = [[0x61]]"
  using bundle_delivers_buffers [of "[[0x61]]" "input_new input_config_default None 0"]
  by (simp add: MULTI_DATA_INDICATOR_def db_bytes_def input_new_def)

text \<open>A repeated packet is answered with a cumulative acknowledgement only when the last
  one was sent less than the acknowledgement delay ago. Once everything received has been
  acknowledged and the delay is over, repetitions and ticks stay unanswered for ever, so a
  remote that missed the last acknowledgement keeps repeating.\<close>

theorem late_duplicate_unanswered:
  assumes "0 \<le> s" and "s < window_start_sequence ch" and "window_start_sequence ch < 2 ^ 62"
    and "window_start_sequence ch - s \<le> max_queued ch" and "max_queued ch \<le> 32767"
    and "last_ack_all_sequence ch = window_start_sequence ch - 1"
  shows "\<exists>ch'. handle_packet ch fragment (be16 (wire_sequence s) @ d) now = Some (ch', Inr ()) \<and>
    in_outgoing ch' = in_outgoing ch @
      (if duration_since now (last_ack_all_time ch) < max_ack_delay (in_config ch)
       then [\<lparr>oc_op_code = AcknowledgeAll,
              oc_sequence = wire_sequence (window_start_sequence ch - 1)\<rparr>] else []) \<and>
    input_run_tick ch' later = ch'"
proof -
  have s: "true_sequence ch (wire_sequence s) = s"
    unfolding true_sequence_def using assms(1-5) by (intro true_incoming_window) simp_all
  define ch' where "ch' = count_duplicate
    (if duration_since now (last_ack_all_time ch) < max_ack_delay (in_config ch)
     then send_ack_all (window_start_sequence ch - 1) now (count_received ch) else count_received ch)"
  have "last_ack_all_time (count_received ch) = last_ack_all_time ch"
    by (simp add: count_received_def)
  then have "is_valid_reliable_data (count_received ch) (be16 (wire_sequence s) @ d) now = (None, ch')"
    using assms(1,2,4) by (simp add: validity_cases s ch'_def)
  then have "preprocess ch (be16 (wire_sequence s) @ d) fragment now = Some (False, ch')"
    by (simp add: preprocess_def Let_def)
  moreover have "window_start_sequence ch' = window_start_sequence ch"
    and "last_ack_all_sequence ch' = window_start_sequence ch - 1"
    using assms(6) by (simp_all add: ch'_def count_duplicate_def send_ack_all_def emit_def
        count_received_def Let_def)
  ultimately show ?thesis
    by (intro exI [of _ ch']) (simp add: handle_not_immediate input_run_tick_def ch'_def)
qed

theorem late_duplicate_unanswered_witness:
  "\<exists>ch ch'. ch = (input_new input_config_default None 0)
       \<lparr>window_start_sequence := 1, last_ack_all_sequence := 0, last_ack_all_time := 5\<rparr> \<and>
     handle_packet ch False [0, 0, 9] (from_secs 1) = Some (ch', Inr ()) \<and>
     in_outgoing ch' = [] \<and> input_run_tick ch' (from_secs 9) = ch'"
  using late_duplicate_unanswered [of 0 "(input_new input_config_default None 0)
      \<lparr>window_start_sequence := 1, last_ack_all_sequence := 0, last_ack_all_time := 5\<rparr>"
      False "[9]" "from_secs 1" "from_secs 9"]
  by (simp add: input_new_def max_queued_def input_config_default_def from_secs_def
      from_millis_def be16_def wire_sequence_def)

end
