(* ===== verification/Soe_Reliable.thy ===== *)
theory Soe_Reliable
  imports Soe_Output_Run Soe_Input_Run
begin

text \<open>
  The two reliable channels together: what the output channel cuts a stream of messages into,
  the input channel puts together again. The first part shows it for packets handed over in
  order; the second for a link that loses, duplicates, reorders and delays packets and delivers
  arbitrary acknowledgements, as a step relation with an invariant.
\<close>

section \<open>Sealing and unsealing\<close>

lemma pad_zero_not_bundle: "\<not> (2 < length (pad_zero enc) \<and> take 2 (pad_zero enc) = MULTI_DATA_INDICATOR)"
  by (cases enc) (auto simp: pad_zero_def MULTI_DATA_INDICATOR_def)

lemma unseal_pad_zero:
  "(if 1 < length (pad_zero enc) \<and> hd (pad_zero enc) = 0 then tl (pad_zero enc) else pad_zero enc) = enc"
  by (cases enc) (auto simp: pad_zero_def)

lemma unseal_seal: "unseal c (fst (seal c data)) = (data, snd (seal c data))"
proof (cases c)
  case None
  then show ?thesis by (simp add: unseal_def seal_def)
next
  case (Some ks)
  let ?enc = "fst (rc4_transform_in_place ks data)"
  have "unseal c (fst (seal c data)) =
      (fst (rc4_transform_in_place ks ?enc), Some (snd (rc4_transform_in_place ks ?enc)))"
    by (simp only: Some unseal_def seal_def option.case fst_conv unseal_pad_zero Let_def)
  then show ?thesis
    by (simp add: Some seal_def rc4.crypt_twice)
qed

text \<open>A message the receiver hands on as it was sent: without encryption it must not begin
  like a bundle.\<close>

definition message_ok :: "rc4_key_state option \<Rightarrow> bytes \<Rightarrow> bool" where
  "message_ok c data \<longleftrightarrow> data \<noteq> [] \<and> length data + 1 < 2 ^ 32 \<and>
     (c = None \<longrightarrow> \<not> (2 < length data \<and> take 2 data = MULTI_DATA_INDICATOR))"

lemma buffers_of_seal:
  assumes "message_ok c data"
  shows "buffers_of (fst (seal c data)) = [fst (seal c data)]"
proof -
  let ?body = "fst (seal c data)"
  have "\<not> (2 < length ?body \<and> take 2 ?body = MULTI_DATA_INDICATOR)"
    using assms pad_zero_not_bundle by (cases c) (simp_all add: seal_def message_ok_def)
  then show ?thesis by (simp only: buffers_of_def if_False)
qed

lemma length_seal: "message_ok c data \<Longrightarrow> length (fst (seal c data)) < 2 ^ 32"
  by (auto simp: seal_def message_ok_def pad_zero_def rc4_length split: option.split)

section \<open>Fragments put together again\<close>

lemma receive_chunks:
  assumes "0 < m"
  shows "data \<noteq> [] \<Longrightarrow> rx_partial r = Some (length buf + length data, buf) \<Longrightarrow>
    receive_all r (chunks m data) = Some (receive_unit (r\<lparr>rx_partial := None\<rparr>) (buf @ data))"
proof (induction data arbitrary: r buf rule: length_induct)
  case (1 data)
  let ?r = "r\<lparr>rx_partial := Some (length buf + length data, buf @ take m data)\<rparr>"
  have step: "receive r (True, take m data) = Some (complete_partial ?r)"
    using 1(3) by (simp add: receive_def extend_partial_def)
  show ?case
  proof (cases "length data \<le> m")
    case True
    then have "complete_partial ?r = receive_unit (r\<lparr>rx_partial := None\<rparr>) (buf @ data)"
      by (simp add: complete_partial_def)
    with True step 1(2) assms show ?thesis
      by (subst chunks.simps) (simp add: chunks.simps [of m "[]"])
  next
    case False
    then have "complete_partial ?r = ?r" by (simp add: complete_partial_def)
    moreover have "receive_all ?r (chunks m (drop m data)) =
        Some (receive_unit (?r\<lparr>rx_partial := None\<rparr>) ((buf @ take m data) @ drop m data))"
      using 1(1) [rule_format, of "drop m data" ?r "buf @ take m data"] False assms by simp
    ultimately show ?thesis
      using False step 1(2) assms by (subst chunks.simps) simp
  qed
qed

lemma receive_packets_of:
  assumes "4 \<le> m" and "rx_partial r = None" and "length body < 2 ^ 32"
    and "buffers_of body = [body]"
  shows "receive_all r (packets_of m body) = Some (receive_buffer r body)"
proof (cases "length body \<le> m")
  case True
  with assms show ?thesis by (simp add: packets_of_def receive_def receive_unit_def)
next
  case False
  let ?len = "length body"
  let ?r = "r\<lparr>rx_partial := Some (?len, take (m - 4) body)\<rparr>"
  have len: "unat (of_nat ?len :: u32) = ?len"
    using assms(3) by (simp add: unsigned_of_nat take_bit_nat_eq_self)
  have "extend_partial r (be32 (of_nat ?len) @ take (m - 4) body) = Some ?r"
    using assms(2) by (simp add: extend_partial_def be32_def len)
  moreover have "complete_partial ?r = ?r" using False by (simp add: complete_partial_def)
  ultimately have step: "receive r (True, be32 (of_nat ?len) @ take (m - 4) body) = Some ?r"
    by (simp add: receive_def)
  have "receive_all ?r (chunks m (drop (m - 4) body)) =
      Some (receive_unit (?r\<lparr>rx_partial := None\<rparr>) (take (m - 4) body @ drop (m - 4) body))"
    using assms(1) False by (intro receive_chunks) simp_all
  moreover have "?r\<lparr>rx_partial := None\<rparr> = r" using assms(2) by (cases r) simp
  ultimately show ?thesis
    using False step assms(4) by (simp add: packets_of_def receive_unit_def)
qed

text \<open>The packets of a stream of messages deliver the messages.\<close>

lemma receive_stream:
  assumes "4 \<le> m"
  shows "rx_partial r = None \<Longrightarrow> rx_cipher r = c \<Longrightarrow> list_all (message_ok c) ms \<Longrightarrow>
    receive_all r (fst (stream_packets m c ms)) =
      Some (r\<lparr>rx_cipher := snd (stream_packets m c ms), rx_app := rx_app r @ ms\<rparr>)"
proof (induction ms arbitrary: r c)
  case Nil
  then show ?case by simp
next
  case (Cons d ms)
  let ?body = "fst (seal c d)" and ?c = "snd (seal c d)"
  have ok: "message_ok c d" using Cons.prems by simp
  then have d: "d \<noteq> []" by (simp add: message_ok_def)
  have "(?c = None) = (c = None)" by (simp add: seal_def split: option.split)
  then have ok': "list_all (message_ok ?c) ms"
    using Cons.prems(3) by (simp add: message_ok_def list_all_iff)
  define r1 where "r1 = receive_buffer r ?body"
  have r1: "r1 = r\<lparr>rx_cipher := ?c, rx_app := rx_app r @ [d]\<rparr>"
    using Cons.prems(2) by (simp add: r1_def receive_buffer_def unseal_seal)
  have "receive_all r (packets_of m ?body) = Some r1"
    unfolding r1_def
    by (rule receive_packets_of [OF assms Cons.prems(1) length_seal [OF ok] buffers_of_seal [OF ok]])
  moreover have "receive_all r1 (fst (stream_packets m ?c ms)) =
      Some (r1\<lparr>rx_cipher := snd (stream_packets m ?c ms), rx_app := rx_app r1 @ ms\<rparr>)"
    using Cons.prems(1) ok' by (intro Cons.IH) (simp_all add: r1)
  ultimately show ?case
    using d by (simp add: receive_all_append split_beta Let_def) (simp add: r1)
qed

section \<open>Deliveries only grow\<close>

lemma receive_buffers_prefix: "prefix (rx_app r) (rx_app (foldl receive_buffer r ds))"
proof (induction ds arbitrary: r)
  case (Cons d ds)
  have "prefix (rx_app r) (rx_app (receive_buffer r d))" by (simp add: receive_buffer_def)
  with Cons show ?case by (metis foldl_Cons prefix_order.trans)
qed simp

lemma receive_unit_prefix: "prefix (rx_app r) (rx_app (receive_unit r d))"
  by (simp add: receive_unit_def receive_buffers_prefix)

lemma complete_prefix: "prefix (rx_app r) (rx_app (complete_partial r))"
  using receive_unit_prefix [of "r\<lparr>rx_partial := None\<rparr>"]
  by (auto simp: complete_partial_def split: option.split)

lemma extend_app: "extend_partial r d = Some r' \<Longrightarrow> rx_app r' = rx_app r"
  by (auto simp: extend_partial_def split: option.splits if_splits)

lemma receive_prefix: "receive r p = Some r' \<Longrightarrow> prefix (rx_app r) (rx_app r')"
  using receive_unit_prefix complete_prefix
  by (auto simp: receive_def split: if_splits) (metis extend_app complete_prefix)

lemma receive_all_app_prefix: "receive_all r ps = Some r' \<Longrightarrow> prefix (rx_app r) (rx_app r')"
proof (induction ps arbitrary: r)
  case (Cons p ps)
  then obtain r1 where "receive r p = Some r1" and "receive_all r1 ps = Some r'"
    by (auto simp: bind_eq_Some_iff)
  with Cons.IH receive_prefix show ?case by (metis prefix_order.trans)
qed simp

lemma receive_take_prefix:
  assumes "receive_all r P = Some full" and "receive_all r (take k P) = Some part"
  shows "prefix (rx_app part) (rx_app full)"
proof -
  have "receive_all r (take k P @ drop k P) = Some full" using assms(1) by simp
  then have "receive_all part (drop k P) = Some full"
    unfolding receive_all_append assms(2) by simp
  then show ?thesis by (rule receive_all_app_prefix)
qed

section \<open>A link\<close>

text \<open>
  The sender's output channel, the receiver's input channel, every packet the sender has put on
  the network, and the messages enqueued. The network is a set that only grows: a packet may be
  delivered never, once or many times, in any order. Acknowledgements reach the sender with
  arbitrary contents, so nothing here depends on them.
\<close>

record link =
  lk_out :: output_channel
  lk_in :: input_channel
  lk_net :: "outgoing_reliable set"
  lk_sent :: "bytes list"

definition link_new ::
    "output_config \<Rightarrow> input_config \<Rightarrow> rc4_key_state option \<Rightarrow> instant \<Rightarrow> link" where
  "link_new oc ic c now = \<lparr>lk_out = output_new oc c now, lk_in = input_new ic c now,
     lk_net = {}, lk_sent = []\<rparr>"

definition sent_packets :: "output_config \<Rightarrow> rc4_key_state option \<Rightarrow> link \<Rightarrow> rpacket list" where
  "sent_packets oc c l = fst (stream_packets (max_data_length oc - 2) c (lk_sent l))"

inductive link_step :: "output_config \<Rightarrow> rc4_key_state option \<Rightarrow> link \<Rightarrow> link \<Rightarrow> bool"
  for oc :: output_config and c :: "rc4_key_state option" where
  send: "message_ok c d \<Longrightarrow> enqueue_data (lk_out l) d = Some o' \<Longrightarrow>
    link_step oc c l (l\<lparr>lk_out := o', lk_sent := lk_sent l @ [d]\<rparr>)"
| tick_out: "link_step oc c l (l\<lparr>lk_out := output_run_tick (lk_out l) now\<rparr>)"
| transmit: "output_take_outgoing (lk_out l) = (pkts, o') \<Longrightarrow>
    link_step oc c l (l\<lparr>lk_out := o', lk_net := lk_net l \<union> set pkts\<rparr>)"
| deliver: "pkt \<in> lk_net l \<Longrightarrow> i < length (sent_packets oc c l) \<Longrightarrow>
    pkt = packet_wire (sent_packets oc c l) i \<Longrightarrow> timely (lk_in l) i \<Longrightarrow>
    handle_packet (lk_in l) (or_op_code pkt = ReliableDataFragment) (or_payload pkt) now =
      Some (in', res) \<Longrightarrow>
    link_step oc c l (l\<lparr>lk_in := in'\<rparr>)"
| tick_in: "link_step oc c l (l\<lparr>lk_in := input_run_tick (lk_in l) now\<rparr>)"
| collect: "input_take_outgoing (lk_in l) = (acks, in') \<Longrightarrow> link_step oc c l (l\<lparr>lk_in := in'\<rparr>)"
| ack: "link_step oc c l (l\<lparr>lk_out := notify_of_acknowledge (lk_out l) sequence now\<rparr>)"
| ack_all: "link_step oc c l (l\<lparr>lk_out := notify_of_acknowledge_all (lk_out l) sequence now\<rparr>)"

inductive_cases link_stepE: "link_step oc c l l'"

inductive link_reach ::
    "output_config \<Rightarrow> input_config \<Rightarrow> rc4_key_state option \<Rightarrow> link \<Rightarrow> bool"
  for oc :: output_config and ic :: input_config and c :: "rc4_key_state option" where
  start: "link_reach oc ic c (link_new oc ic c now)"
| step: "link_reach oc ic c l \<Longrightarrow> link_step oc c l l' \<Longrightarrow> link_reach oc ic c l'"

definition fresh_receiver :: "rc4_key_state option \<Rightarrow> receiver" where
  "fresh_receiver c = \<lparr>rx_cipher = c, rx_partial = None, rx_app = []\<rparr>"

definition sender_inv :: "output_config \<Rightarrow> rc4_key_state option \<Rightarrow> link \<Rightarrow> bool" where
  "sender_inv oc c l \<longleftrightarrow> output_ok (lk_out l) \<and> out_config (lk_out l) = oc \<and>
     carries (sent_packets oc c l) (lk_out l) \<and>
     out_cipher (lk_out l) = snd (stream_packets (max_data_length oc - 2) c (lk_sent l)) \<and>
     list_all (message_ok c) (lk_sent l)"

definition network_inv :: "output_config \<Rightarrow> rc4_key_state option \<Rightarrow> link \<Rightarrow> bool" where
  "network_inv oc c l \<longleftrightarrow> (\<forall>pkt\<in>lk_net l. \<exists>i<length (sent_packets oc c l).
     pkt = packet_wire (sent_packets oc c l) i)"

definition receiver_inv ::
    "output_config \<Rightarrow> input_config \<Rightarrow> rc4_key_state option \<Rightarrow> link \<Rightarrow> bool" where
  "receiver_inv oc ic c l \<longleftrightarrow> in_config (lk_in l) = ic \<and>
     window_inv (fresh_receiver c) (sent_packets oc c l) 1 (lk_in l) \<and> acks_sound 0 (lk_in l)"

definition link_inv :: "output_config \<Rightarrow> input_config \<Rightarrow> rc4_key_state option \<Rightarrow> link \<Rightarrow> bool" where
  "link_inv oc ic c l \<longleftrightarrow> sender_inv oc c l \<and> network_inv oc c l \<and> receiver_inv oc ic c l"

lemmas link_inv_defs = link_inv_def sender_inv_def network_inv_def receiver_inv_def

text \<open>The packets of the messages are well formed and deliver the messages.\<close>

lemma sent_packets_receive:
  assumes "6 \<le> max_data_length oc" and "list_all (message_ok c) (lk_sent l)"
  shows "\<exists>r. receive_all (fresh_receiver c) (sent_packets oc c l) = Some r \<and> rx_app r = lk_sent l"
  using assms receive_stream [of "max_data_length oc - 2" "fresh_receiver c" c "lk_sent l"]
  by (simp add: sent_packets_def fresh_receiver_def)

lemma window_inv_extend:
  assumes "window_inv r0 P d ch" and "prefix P P'" and "0 \<le> d"
  shows "window_inv r0 P' d ch"
proof -
  obtain Q where P': "P' = P @ Q" using assms(2) by (auto simp: prefix_def)
  have w: "0 \<le> window_start_sequence ch" "window_start_sequence ch \<le> int (length P)"
    using assms(1) by (simp_all add: window_inv_def sized_def)
  then have "take (nat (window_start_sequence ch)) P' = take (nat (window_start_sequence ch)) P"
    by (simp add: P')
  moreover have "stash_in P' (window_start_sequence ch + d) ch"
    unfolding stash_in_def
  proof (intro allI impI)
    fix spot it
    assume "spot < length (stash ch)" and "stash ch ! spot = Some it"
    moreover have "stash_in P (window_start_sequence ch + d) ch"
      using assms(1) by (simp add: window_inv_def)
    ultimately obtain s where "window_start_sequence ch + d \<le> s"
      "s < window_start_sequence ch + d + max_queued ch" "s < int (length P)"
      "spot_of ch s = spot" "it = stashed_of (P ! nat s)"
      unfolding stash_in_def by blast
    with assms(3) w(1) show "\<exists>s\<ge>window_start_sequence ch + d.
        s < window_start_sequence ch + d + max_queued ch \<and> s < int (length P') \<and>
        spot_of ch s = spot \<and> it = stashed_of (P' ! nat s)"
      by (intro exI [of _ s]) (simp add: P' nth_append nat_less_iff)
  qed
  ultimately show ?thesis
    using assms(1) w(2) by (simp add: window_inv_def P')
qed

section \<open>The link invariant\<close>

lemma window_inv_new:
  assumes "0 < max_queued_incoming ic"
  shows "window_inv (fresh_receiver c) P 1 (input_new ic c now)"
proof -
  have "0 < uint (max_queued_incoming ic)"
    using assms by (simp add: word_less_def)
  then show ?thesis
    by (simp add: window_inv_def sized_def stash_in_def input_new_def core_def fresh_receiver_def
        max_queued_def)
qed

lemma link_inv_new:
  assumes "0 < max_queued_incoming ic"
  shows "link_inv oc ic c (link_new oc ic c now)"
  using assms carries_new [of oc c now] window_inv_new [OF assms, of c "[]" now]
  by (simp add: link_inv_defs link_new_def sent_packets_def output_ok_new acks_sound_def)
    (simp add: output_new_def input_new_def)

lemma ack_sound_same:
  assumes "same_window ch ch'"
  shows "ack_sound lo ch' r = ack_sound lo ch r"
proof -
  have "window_start_sequence ch' = window_start_sequence ch" using assms by (simp add: same_window_def)
  then show ?thesis unfolding ack_sound_def same_window_has [OF assms] by simp
qed

lemma ack_all_sound:
  "lo \<le> window_start_sequence ch \<Longrightarrow> ack_sound lo ch
     \<lparr>oc_op_code = AcknowledgeAll, oc_sequence = wire_sequence (window_start_sequence ch - 1)\<rparr>"
  unfolding ack_sound_def by (intro exI [of _ "window_start_sequence ch - 1"]) simp

lemma tick_in_same: "same_window ch (input_run_tick ch now)"
  by (simp add: input_run_tick_def Let_def)

lemma tick_in_acks:
  assumes sound: "acks_sound lo ch" and "lo \<le> window_start_sequence ch"
  shows "acks_sound lo (input_run_tick ch now)"
proof -
  have "set (in_outgoing (input_run_tick ch now)) \<subseteq> insert \<lparr>oc_op_code = AcknowledgeAll,
      oc_sequence = wire_sequence (window_start_sequence ch - 1)\<rparr> (set (in_outgoing ch))"
    by (auto simp: input_run_tick_def Let_def)
  with sound ack_all_sound [OF assms(2)] show ?thesis
    unfolding acks_sound_def ack_sound_same [OF tick_in_same] by blast
qed

lemma link_inv_receiver_step:
  assumes "link_inv oc ic c l" and "same_window (lk_in l) in'" and "acks_sound 0 in'"
  shows "link_inv oc ic c (l\<lparr>lk_in := in'\<rparr>)"
proof -
  have "in_config in' = in_config (lk_in l)" using assms(2) by (simp add: same_window_def)
  with assms(1,3) show ?thesis
    by (simp add: link_inv_defs sent_packets_def same_window_inv [OF assms(2)])
qed

lemma collect_receiver:
  assumes "input_take_outgoing ch = (acks, ch')"
  shows "same_window ch ch' \<and> acks_sound lo ch'"
  using assms by (auto simp: input_take_outgoing_def same_window_def acks_sound_def core_parts)

text \<open>A delivery in a reachable state: it returns, reports no corruption and keeps the
  invariant.\<close>

lemma deliver_handled:
  assumes inv: "link_inv oc ic c l" and m: "6 \<le> max_data_length oc"
    and i: "i < length (sent_packets oc c l)" and timely: "timely (lk_in l) i"
  defines "pkt \<equiv> packet_wire (sent_packets oc c l) i"
  shows "\<exists>in'. handle_packet (lk_in l) (or_op_code pkt = ReliableDataFragment) (or_payload pkt) now =
      Some (in', Inr ()) \<and> handled (fresh_receiver c) (sent_packets oc c l) (lk_in l) in' \<and>
    (true_sequence (lk_in l) (wire_sequence (int i)) = int i \<and>
     int i \<le> window_start_sequence (lk_in l) + max_queued (lk_in l) \<longrightarrow> has_packet 1 in' (int i))"
proof -
  have "list_all (message_ok c) (lk_sent l)" using inv by (simp add: link_inv_defs)
  from sent_packets_receive [OF m this]
  have ok: "receive_all (fresh_receiver c) (sent_packets oc c l) \<noteq> None" by auto
  have win: "window_inv (fresh_receiver c) (sent_packets oc c l) 1 (lk_in l)"
    using inv by (simp add: link_inv_defs)
  have op: "(or_op_code pkt = ReliableDataFragment) = fst (sent_packets oc c l ! i)"
    and pay: "or_payload pkt = be16 (wire_sequence (int i)) @ snd (sent_packets oc c l ! i)"
    by (simp_all add: pkt_def packet_wire_def)
  show ?thesis
    unfolding op pay by (rule handle_packet_invariant [OF win ok i timely])
qed

lemma link_inv_sender_step:
  assumes "link_inv oc ic c l" and "carries (sent_packets oc c l) o'" and "output_ok o'"
    and "out_config o' = out_config (lk_out l)" and "out_cipher o' = out_cipher (lk_out l)"
  shows "link_inv oc ic c (l\<lparr>lk_out := o'\<rparr>)"
  using assms by (simp add: link_inv_defs sent_packets_def)

lemma link_inv_send:
  assumes inv: "link_inv oc ic c l" and m: "6 \<le> max_data_length oc" and ok: "message_ok c d"
    and e: "enqueue_data (lk_out l) d = Some o'"
  shows "link_inv oc ic c (l\<lparr>lk_out := o', lk_sent := lk_sent l @ [d]\<rparr>)" (is "link_inv oc ic c ?l")
proof -
  let ?P = "sent_packets oc c l" and ?P' = "sent_packets oc c ?l"
  have cfg: "out_config (lk_out l) = oc" and oko: "output_ok (lk_out l)"
    and carries: "carries ?P (lk_out l)"
    and cipher: "(?P, out_cipher (lk_out l)) = stream_packets (max_data_length oc - 2) c (lk_sent l)"
    using inv by (simp_all add: link_inv_defs sent_packets_def)
  obtain Q where "carries Q o'" "prefix ?P Q"
    "(Q, out_cipher o') = stream_packets (max_data_length oc - 2) c (lk_sent l @ [d])"
    using carries_enqueue [OF carries _ e, of c "lk_sent l"] m cipher by (auto simp: cfg)
  moreover from this have "Q = ?P'" by (simp add: sent_packets_def prod_eq_iff)
  ultimately have new: "carries ?P' o'" "prefix ?P ?P'"
    "out_cipher o' = snd (stream_packets (max_data_length oc - 2) c (lk_sent l @ [d]))"
    by (simp_all add: prod_eq_iff)
  have "output_ok o' \<and> out_config o' = oc"
    using output_ok_enqueue [OF oko, of d] m e by (auto simp: cfg)
  then have "sender_inv oc c ?l"
    using inv ok new by (simp add: link_inv_defs)
  moreover have "network_inv oc c ?l"
  proof -
    obtain Q where Q: "?P' = ?P @ Q" using new(2) by (auto simp: prefix_def)
    have "\<exists>i<length ?P'. pkt = packet_wire ?P' i" if "pkt \<in> lk_net l" for pkt
    proof -
      from that inv obtain i where "i < length ?P" "pkt = packet_wire ?P i"
        by (auto simp: link_inv_defs)
      then show ?thesis by (intro exI [of _ i]) (simp add: Q)
    qed
    then show ?thesis by (simp add: network_inv_def)
  qed
  moreover have "receiver_inv oc ic c ?l"
    using inv window_inv_extend [OF _ new(2), of "fresh_receiver c" 1 "lk_in l"]
    by (simp add: link_inv_defs)
  ultimately show ?thesis by (simp add: link_inv_def)
qed

lemma link_inv_transmit:
  assumes "link_inv oc ic c l" and "output_take_outgoing (lk_out l) = (pkts, o')"
  shows "link_inv oc ic c (l\<lparr>lk_out := o', lk_net := lk_net l \<union> set pkts\<rparr>)"
proof -
  have o': "o' = snd (output_take_outgoing (lk_out l))" and pkts: "pkts = out_outgoing (lk_out l)"
    using assms(2) by (simp_all add: output_take_outgoing_def)
  have "\<forall>pkt\<in>set pkts. \<exists>i<length (sent_packets oc c l). pkt = packet_wire (sent_packets oc c l) i"
    using assms(1) by (simp add: link_inv_defs carries_def pkts)
  then show ?thesis
    using assms(1)
    by (auto simp: link_inv_defs sent_packets_def o' output_ok_drain carries_drain)
qed

lemma link_inv_step:
  assumes "link_step oc c l l'" and inv: "link_inv oc ic c l" and m: "6 \<le> max_data_length oc"
  shows "link_inv oc ic c l'"
proof -
  have carries: "carries (sent_packets oc c l) (lk_out l)" and ok: "output_ok (lk_out l)"
    and sound: "acks_sound 0 (lk_in l)" and w: "0 \<le> window_start_sequence (lk_in l)"
    using inv by (simp_all add: link_inv_defs window_inv_def sized_def)
  from assms(1) show ?thesis
  proof (cases rule: link_step.cases)
    case (send d o')
    then show ?thesis using link_inv_send [OF inv m] by simp
  next
    case (tick_out now)
    then show ?thesis
      using link_inv_sender_step [OF inv carries_run_tick [OF carries ok] output_ok_run_tick [OF ok]]
      by simp
  next
    case (transmit pkts o')
    then show ?thesis using link_inv_transmit [OF inv] by simp
  next
    case (deliver pkt i now in' res)
    from deliver_handled [OF inv m deliver(3,5), of now] deliver(4,6)
    have "handled (fresh_receiver c) (sent_packets oc c l) (lk_in l) in'" by auto
    moreover from this w sound have "acks_sound 0 in'" by (auto simp: handled_def)
    ultimately show ?thesis using inv
      by (simp add: deliver(1) link_inv_defs sent_packets_def handled_def grows_def)
  next
    case (tick_in now)
    then show ?thesis
      using link_inv_receiver_step [OF inv tick_in_same tick_in_acks [OF sound w]] by simp
  next
    case (collect acks in')
    then show ?thesis
      using collect_receiver [OF collect(2)] link_inv_receiver_step [OF inv] by simp
  next
    case (ack sequence now)
    then show ?thesis
      using link_inv_sender_step [OF inv carries_acks(1) [OF carries] output_ok_ack [OF ok]] by simp
  next
    case (ack_all sequence now)
    then show ?thesis
      using link_inv_sender_step [OF inv carries_acks(2) [OF carries] output_ok_ack_all [OF ok]]
      by simp
  qed
qed

lemma link_reach_inv:
  assumes "link_reach oc ic c l" and "6 \<le> max_data_length oc" and "0 < max_queued_incoming ic"
  shows "link_inv oc ic c l"
  using assms(1) by induction (use assms link_inv_new link_inv_step in blast)+

text \<open>What a link has delivered, from its invariant.\<close>

lemma link_inv_prefix:
  assumes "link_inv oc ic c l" and "6 \<le> max_data_length oc"
  shows "prefix (app_data (lk_in l)) (lk_sent l)"
proof -
  obtain r where r: "receive_all (fresh_receiver c) (sent_packets oc c l) = Some r"
    and app: "rx_app r = lk_sent l"
    using sent_packets_receive [OF assms(2), of c l] assms(1) by (auto simp: link_inv_defs)
  have "receive_all (fresh_receiver c)
      (take (nat (window_start_sequence (lk_in l))) (sent_packets oc c l)) = Some (core (lk_in l))"
    using assms(1) by (simp add: link_inv_defs window_inv_def)
  from receive_take_prefix [OF r this] show ?thesis by (simp add: app core_def)
qed

lemma link_inv_complete:
  assumes "link_inv oc ic c l" and "6 \<le> max_data_length oc"
    and "\<forall>i<length (sent_packets oc c l). has_packet 1 (lk_in l) (int i)"
  shows "app_data (lk_in l) = lk_sent l"
proof -
  let ?P = "sent_packets oc c l" and ?w = "window_start_sequence (lk_in l)"
  have w: "0 \<le> ?w" "?w \<le> int (length ?P)" and
    core: "receive_all (fresh_receiver c) (take (nat ?w) ?P) = Some (core (lk_in l))"
    using assms(1) by (simp_all add: link_inv_defs window_inv_def sized_def)
  have "\<not> ?w < int (length ?P)"
  proof
    assume less: "?w < int (length ?P)"
    then have "has_packet 1 (lk_in l) ?w" using assms(3) [rule_format, of "nat ?w"] w by simp
    then show False by (simp add: has_packet_def)
  qed
  with w have "nat ?w = length ?P" by simp
  then have "receive_all (fresh_receiver c) ?P = Some (core (lk_in l))" using core by simp
  moreover obtain r where "receive_all (fresh_receiver c) ?P = Some r" "rx_app r = lk_sent l"
    using sent_packets_receive [OF assms(2), of c l] assms(1) by (auto simp: link_inv_defs)
  ultimately show ?thesis by (simp add: core_def)
qed

lemma default_link_config:
  "6 \<le> max_data_length output_config_default" "0 < max_queued_incoming input_config_default"
  "max_queued_incoming input_config_default \<le> 32767"
  by (simp_all add: output_config_default_def input_config_default_def)

text \<open>A run of a link in which one message travels.\<close>

lemma link_demo:
  "\<exists>l. link_reach output_config_default input_config_default None l \<and> lk_sent l = [[7, 8]] \<and>
     length (sent_packets output_config_default None l) = 1 \<and> has_packet 1 (lk_in l) 0"
proof -
  let ?oc = output_config_default and ?ic = input_config_default
  let ?l0 = "link_new ?oc ?ic None 0"
  have m: "6 \<le> max_data_length ?oc" and n: "0 < max_queued_incoming ?ic"
    by (simp_all add: output_config_default_def input_config_default_def)
  define o1 where "o1 = append_packets [(False, [7, 8])] (output_new ?oc None 0)"
  define l1 where "l1 = ?l0\<lparr>lk_out := o1, lk_sent := lk_sent ?l0 @ [[7, 8]]\<rparr>"
  define o2 where "o2 = output_run_tick o1 1"
  define l2 where "l2 = l1\<lparr>lk_out := o2\<rparr>"
  define l3 where "l3 = l2\<lparr>lk_out := o2\<lparr>out_outgoing := []\<rparr>, lk_net := lk_net l2 \<union> set (out_outgoing o2)\<rparr>"
  have "enqueue_data (lk_out ?l0) [7, 8] = Some o1"
    unfolding o1_def link_new_def
    by (simp, rule enqueue_short) (simp_all add: output_new_def output_config_default_def)
  then have s1: "link_step ?oc None ?l0 l1"
    unfolding l1_def by (rule link_step.send [rotated]) (simp add: message_ok_def MULTI_DATA_INDICATOR_def)
  have s2: "link_step ?oc None l1 l2"
    using link_step.tick_out [of ?oc None l1 1] by (simp add: l2_def o2_def l1_def)
  have s3: "link_step ?oc None l2 l3"
    unfolding l3_def by (rule link_step.transmit) (simp add: l2_def output_take_outgoing_def)
  have reach: "link_reach ?oc ?ic None l3"
    using link_reach.start s1 s2 s3 link_reach.step by blast
  have P: "sent_packets ?oc None l3 = [(False, [7, 8])]"
    by (simp add: sent_packets_def l3_def l2_def l1_def link_new_def seal_def packets_of_def
        output_config_default_def)
  have "out_outgoing o2 = [packet_wire [(False, [7, 8])] 0]"
    using run_tick_effect [OF output_ok_append [OF output_ok_new],
        of "[(False, [7, 8])]" ?oc None 0 1]
    by (simp add: o2_def o1_def append_packets_def output_new_def oldest_timed_out_def
        window_of_def stash_entry_def output_config_default_def packet_out_def packet_wire_def Let_def)
  then have net: "packet_wire [(False, [7, 8])] 0 \<in> lk_net l3" by (simp add: l3_def)
  have in3: "lk_in l3 = input_new ?ic None 0"
    by (simp add: l3_def l2_def l1_def link_new_def)
  have timely: "timely (lk_in l3) 0"
    by (simp add: in3 timely_def input_new_def max_queued_def input_config_default_def)
  have inv: "link_inv ?oc ?ic None l3" by (rule link_reach_inv [OF reach m n])
  obtain in' where h: "handle_packet (lk_in l3)
      (or_op_code (packet_wire [(False, [7, 8])] 0) = ReliableDataFragment)
      (or_payload (packet_wire [(False, [7, 8])] 0)) 2 = Some (in', Inr ())"
    and held: "true_sequence (lk_in l3) (wire_sequence 0) = 0 \<longrightarrow> has_packet 1 in' 0"
    using deliver_handled [OF inv m _ timely, of 2]
    by (auto simp: P in3 input_new_def max_queued_def input_config_default_def)
  have "true_sequence (lk_in l3) (wire_sequence 0) = 0"
    using true_incoming_current [of 0 256]
    by (simp add: true_sequence_def in3 input_new_def max_queued_def input_config_default_def)
  with held have "has_packet 1 in' 0" by blast
  moreover have "link_step ?oc None l3 (l3\<lparr>lk_in := in'\<rparr>)"
    by (rule link_step.deliver [OF net _ _ timely h]) (simp_all add: P)
  then have "link_reach ?oc ?ic None (l3\<lparr>lk_in := in'\<rparr>)" using reach link_reach.step by blast
  moreover have "sent_packets ?oc None (l3\<lparr>lk_in := in'\<rparr>) = sent_packets ?oc None l3"
    by (simp add: sent_packets_def)
  ultimately show ?thesis
    using P by (intro exI [of _ "l3\<lparr>lk_in := in'\<rparr>"]) (simp add: l3_def l2_def l1_def link_new_def)
qed

section \<open>Properties\<close>

text \<open>Safety of reliable delivery. Over a network that loses, duplicates, reorders and
  delays packets, and whatever acknowledgements reach the sender, the application data the
  receiver has delivered is at every moment a prefix of the messages sent: nothing is lost in
  between, repeated, reordered or altered, with and without encryption.\<close>

theorem link_delivers_in_order:
  assumes "link_reach oc ic c l" and "6 \<le> max_data_length oc" and "0 < max_queued_incoming ic"
  shows "prefix (app_data (lk_in l)) (lk_sent l)"
  using link_inv_prefix [OF link_reach_inv [OF assms] assms(2)] .

theorem link_delivers_in_order_witness:
  "\<exists>l. link_reach output_config_default input_config_default None l \<and> lk_sent l = [[7, 8]] \<and>
     prefix (app_data (lk_in l)) (lk_sent l)"
proof -
  obtain l where "link_reach output_config_default input_config_default None l" "lk_sent l = [[7, 8]]"
    using link_demo by blast
  moreover from this have "prefix (app_data (lk_in l)) (lk_sent l)"
    using link_delivers_in_order [OF _ default_link_config(1,2)] by blast
  ultimately show ?thesis by blast
qed

text \<open>Completeness of reliable delivery. As soon as the receiver has held every packet
  of the messages sent, in whatever order they came, it has delivered all the messages.\<close>

theorem link_delivers_everything:
  assumes "link_reach oc ic c l" and "6 \<le> max_data_length oc" and "0 < max_queued_incoming ic"
    and "\<forall>i<length (sent_packets oc c l). has_packet 1 (lk_in l) (int i)"
  shows "app_data (lk_in l) = lk_sent l"
  using link_inv_complete [OF link_reach_inv [OF assms(1-3)] assms(2,4)] .

theorem link_delivers_everything_witness:
  "\<exists>l. link_reach output_config_default input_config_default None l \<and> lk_sent l = [[7, 8]] \<and>
     app_data (lk_in l) = [[7, 8]]"
proof -
  obtain l where l: "link_reach output_config_default input_config_default None l"
    "lk_sent l = [[7, 8]]" "length (sent_packets output_config_default None l) = 1"
    "has_packet 1 (lk_in l) 0"
    using link_demo by blast
  then have "app_data (lk_in l) = lk_sent l"
    by (intro link_delivers_everything [OF l(1) default_link_config(1,2)]) simp
  with l show ?thesis by auto
qed

text \<open>Progress of reliable delivery. In every reachable state of a link, handling a
  timely packet never panics and never reports corrupt data; the receiver keeps every packet it
  holds, and with a window of at most 32767 it holds the handled packet afterwards if that lies
  in the window. In particular the packet at the window start moves the window.\<close>

theorem link_delivery_progress:
  assumes "link_reach oc ic c l" and "6 \<le> max_data_length oc" and "0 < max_queued_incoming ic"
    and "max_queued_incoming ic \<le> 32767"
    and "i < length (sent_packets oc c l)" and "timely (lk_in l) i"
    and "pkt = packet_wire (sent_packets oc c l) i"
    and "\<bar>int i - window_start_sequence (lk_in l)\<bar> \<le> max_queued (lk_in l)"
  shows "\<exists>in'. handle_packet (lk_in l) (or_op_code pkt = ReliableDataFragment) (or_payload pkt) now =
      Some (in', Inr ()) \<and> has_packet 1 in' (int i) \<and>
    (\<forall>s. has_packet 1 (lk_in l) s \<longrightarrow> has_packet 1 in' s) \<and>
    (int i = window_start_sequence (lk_in l) \<longrightarrow>
       window_start_sequence (lk_in l) < window_start_sequence in')"
proof -
  note inv = link_reach_inv [OF assms(1-3)]
  have "0 \<le> window_start_sequence (lk_in l)" and "window_start_sequence (lk_in l) < 2 ^ 62"
    using inv assms(6) by (simp_all add: link_inv_defs window_inv_def sized_def timely_def)
  moreover have "max_queued (lk_in l) \<le> 32767"
    using inv assms(4) by (simp add: link_inv_defs max_queued_def word_le_def)
  ultimately have "true_sequence (lk_in l) (wire_sequence (int i)) = int i"
    unfolding true_sequence_def using assms(8) by (intro true_incoming_window) simp_all
  moreover have "int i \<le> window_start_sequence (lk_in l) + max_queued (lk_in l)"
    using assms(8) by linarith
  ultimately obtain in' where "handle_packet (lk_in l) (or_op_code pkt = ReliableDataFragment)
      (or_payload pkt) now = Some (in', Inr ())"
    and "handled (fresh_receiver c) (sent_packets oc c l) (lk_in l) in'" "has_packet 1 in' (int i)"
    using deliver_handled [OF inv assms(2,5,6), of now] unfolding assms(7) by blast
  then show ?thesis by (auto simp: handled_def grows_def has_packet_def)
qed

theorem link_delivery_progress_witness:
  "\<exists>l in'. link_reach output_config_default input_config_default None l \<and>
     handle_packet (lk_in l) False [0, 0, 7, 8] 9 = Some (in', Inr ()) \<and> has_packet 1 in' 0"
proof -
  obtain l where l: "link_reach output_config_default input_config_default None l"
    "lk_sent l = [[7, 8]]" "length (sent_packets output_config_default None l) = 1"
    "has_packet 1 (lk_in l) 0"
    using link_demo by blast
  have m: "6 \<le> max_data_length output_config_default"
    and n: "0 < max_queued_incoming input_config_default"
    by (simp_all add: output_config_default_def input_config_default_def)
  note inv = link_reach_inv [OF l(1) m n]
  have P: "sent_packets output_config_default None l = [(False, [7, 8])]"
    using l(2) by (simp add: sent_packets_def seal_def packets_of_def output_config_default_def)
  have w: "0 \<le> window_start_sequence (lk_in l)" "window_start_sequence (lk_in l) \<le> 1"
    and q: "max_queued (lk_in l) = 256"
    using inv by (simp_all add: link_inv_defs window_inv_def sized_def P max_queued_def
        input_config_default_def)
  have "packet_wire [(False, [7, 8])] 0 = \<lparr>or_op_code = ReliableData, or_payload = [0, 0, 7, 8]\<rparr>"
    by (simp add: packet_wire_def be16_def wire_sequence_def)
  then show ?thesis
    using link_delivery_progress [OF l(1) m n, of 0 "packet_wire [(False, [7, 8])] 0" 9] l(1) w q
    by (auto simp: P timely_def input_config_default_def)
qed

text \<open>Every acknowledgement the receiver has to send is true: a single one names the
  wire sequence of a packet it holds or has processed, a cumulative one a sequence below its
  window. The sequences named start at the one before the first packet.\<close>

theorem link_acknowledgements_sound:
  assumes "link_reach oc ic c l" and "6 \<le> max_data_length oc" and "0 < max_queued_incoming ic"
  shows "acks_sound 0 (lk_in l)"
  using link_reach_inv [OF assms] by (simp add: link_inv_defs)

theorem link_acknowledgements_sound_witness:
  "\<exists>l. link_reach output_config_default input_config_default None l \<and> lk_sent l = [[7, 8]] \<and>
     acks_sound 0 (lk_in l)"
  using link_demo link_acknowledgements_sound [OF _ default_link_config(1,2)] by blast

end
