(* ===== verification/Soe_Flow.thy ===== *)
theory Soe_Flow
  imports Soe_Reliable
begin

text \<open>
  One direction of a reliable channel with its acknowledgements. The link of \<open>Soe_Reliable\<close> lets
  arbitrary acknowledgements reach the sender; here they come from the receiver over a network that
  loses, repeats, delays and reorders them. A packet then leaves the send queue only when the
  receiver has it, and an empty queue means that everything sent has been delivered.
\<close>

section \<open>Data handed over earlier\<close>

text \<open>What the receiver has handed over does not influence what it does next.\<close>

definition with_app :: "bytes list \<Rightarrow> input_channel \<Rightarrow> input_channel" where
  "with_app xs ch = ch\<lparr>app_data := xs @ app_data ch\<rparr>"

lemma with_app_simps [simp]:
  "app_data (with_app xs ch) = xs @ app_data ch" "in_config (with_app xs ch) = in_config ch"
  "in_cipher (with_app xs ch) = in_cipher ch" "stash (with_app xs ch) = stash ch"
  "window_start_sequence (with_app xs ch) = window_start_sequence ch"
  "current_buffer (with_app xs ch) = current_buffer ch" "in_stats (with_app xs ch) = in_stats ch"
  "expected_data_length (with_app xs ch) = expected_data_length ch"
  "last_ack_all_sequence (with_app xs ch) = last_ack_all_sequence ch"
  "last_ack_all_time (with_app xs ch) = last_ack_all_time ch"
  "in_outgoing (with_app xs ch) = in_outgoing ch" "max_queued (with_app xs ch) = max_queued ch"
  by (simp_all add: with_app_def max_queued_def)

lemma with_app_updates:
  "in_cipher_update f1 (with_app xs ch) = with_app xs (in_cipher_update f1 ch)"
  "window_start_sequence_update f2 (with_app xs ch) = with_app xs (window_start_sequence_update f2 ch)"
  "current_buffer_update f3 (with_app xs ch) = with_app xs (current_buffer_update f3 ch)"
  "expected_data_length_update f4 (with_app xs ch) = with_app xs (expected_data_length_update f4 ch)"
  "stash_update f5 (with_app xs ch) = with_app xs (stash_update f5 ch)"
  "in_stats_update f6 (with_app xs ch) = with_app xs (in_stats_update f6 ch)"
  "in_outgoing_update f7 (with_app xs ch) = with_app xs (in_outgoing_update f7 ch)"
  "last_ack_all_sequence_update f8 (with_app xs ch) = with_app xs (last_ack_all_sequence_update f8 ch)"
  "last_ack_all_time_update f9 (with_app xs ch) = with_app xs (last_ack_all_time_update f9 ch)"
  by (simp_all add: with_app_def)

lemma with_app_app:
  "app_data_update f (with_app xs ch) = app_data_update (\<lambda>_. f (xs @ app_data ch)) ch"
  by (simp add: with_app_def)

lemma with_app_window [simp]:
  "true_sequence (with_app xs ch) q = true_sequence ch q" "timely (with_app xs ch) i = timely ch i"
  "has_packet d (with_app xs ch) s = has_packet d ch s"
  "ack_sound lo (with_app xs ch) r = ack_sound lo ch r"
  "acks_sound lo (with_app xs ch) = acks_sound lo ch"
  by (simp_all add: true_sequence_def timely_def has_packet_def ack_sound_def acks_sound_def spot_of_def)

lemma with_app_ops:
  "emit op_code q (with_app xs ch) = with_app xs (emit op_code q ch)"
  "send_ack_all sq now (with_app xs ch) = with_app xs (send_ack_all sq now ch)"
  "count_duplicate (with_app xs ch) = with_app xs (count_duplicate ch)"
  "count_received (with_app xs ch) = with_app xs (count_received ch)"
  "count_out_of_order (with_app xs ch) = with_app xs (count_out_of_order ch)"
  "input_run_tick (with_app xs ch) now = with_app xs (input_run_tick ch now)"
  by (simp_all add: emit_def send_ack_all_def count_duplicate_def count_received_def
      count_out_of_order_def input_run_tick_def Let_def with_app_updates)

lemma with_app_validity:
  "is_valid_reliable_data (with_app xs ch) data now =
     map_prod id (with_app xs) (is_valid_reliable_data ch data now)"
  by (simp add: is_valid_reliable_data_def Let_def with_app_ops)

lemma with_app_preprocess:
  "preprocess (with_app xs ch) data f now = map_option (map_prod id (with_app xs)) (preprocess ch data f now)"
  by (auto simp: preprocess_def Let_def with_app_ops with_app_validity with_app_updates stash_spot_def
      index_def split: prod.split option.split)

lemma with_app_decrypt:
  "decrypt_and_handle (with_app xs ch) d = with_app xs (decrypt_and_handle ch d)"
  by (simp add: decrypt_and_handle_def Let_def split_beta with_app_def split: option.split)

lemma with_app_bundle: "bundle_loop r (with_app xs ch) = with_app xs (bundle_loop r ch)"
proof (induction r ch rule: bundle_loop.induct)
  case (1 r ch)
  then show ?case
    by (subst (1 2) bundle_loop.simps) (auto simp: Let_def with_app_decrypt split: sum.split)
qed

lemma with_app_process: "process_data (with_app xs ch) d = with_app xs (process_data ch d)"
  by (simp add: process_data_def with_app_bundle with_app_decrypt split: sum.split)

lemma with_app_fragment:
  "write_immediate_fragment (with_app xs ch) d = map_prod (with_app xs) id (write_immediate_fragment ch d)"
  "try_process_current_buffer (with_app xs ch) = with_app xs (try_process_current_buffer ch)"
  by (simp_all add: write_immediate_fragment_def try_process_current_buffer_def Let_def
      with_app_updates with_app_process split: option.split)

lemma with_app_consume:
  "consume_stashed (with_app xs ch) = map_option (map_prod (with_app xs) id) (consume_stashed ch)"
proof (induction ch rule: consume_stashed.induct)
  case (1 ch)
  note unfold = consume_stashed.simps [of ch] consume_stashed.simps [of "with_app xs ch"]
  have spot: "stash_spot (with_app xs ch) w = stash_spot ch w" for w by (simp add: stash_spot_def)
  show ?case
  proof (cases "\<exists>n item. stash_spot ch (window_start_sequence ch) = Some n \<and>
      index (stash ch) n = Some (Some item)")
    case False
    then show ?thesis
      by (auto simp: unfold spot split: option.split)
  next
    case True
    then obtain n item where n: "stash_spot ch (window_start_sequence ch) = Some n"
      and item: "index (stash ch) n = Some (Some item)" by blast
    let ?ch1 = "ch\<lparr>stash := (stash ch)[n := None]\<rparr>"
    let ?w = "write_immediate_fragment ?ch1 (st_data item)"
    show ?thesis
    proof (cases "st_is_fragment item")
      case frag: True
      show ?thesis
      proof (cases "snd ?w")
        case (Inl e)
        with n item frag show ?thesis
          by (simp add: unfold spot Let_def with_app_updates with_app_fragment)
      next
        case (Inr u)
        with n item frag 1(1) [OF n item refl refl frag refl Inr refl] show ?thesis
          by (simp add: unfold spot Let_def with_app_updates with_app_fragment)
      qed
    next
      case False
      with n item 1(2) [OF n item refl refl False refl] show ?thesis
        by (simp add: unfold spot Let_def with_app_updates with_app_process)
    qed
  qed
qed

lemma with_app_handle:
  "handle_packet (with_app xs ch) f data now =
     map_option (map_prod (with_app xs) id) (handle_packet ch f data now)"
  by (auto simp: handle_packet_def handle_reliable_data_def handle_reliable_data_fragment_def
      with_app_preprocess with_app_process with_app_fragment with_app_updates with_app_consume
      option.map_comp Let_def split_beta split: bind_split sum.split)

section \<open>A flow\<close>

text \<open>
  The sender's and the receiver's channel, the packets and the acknowledgements put on the network
  so far, the messages enqueued and those handed over. An acknowledgement carries the mark of the
  receiver, its window start the last time it had nothing left to send.
\<close>

record flow =
  fl_out :: output_channel
  fl_in :: input_channel
  fl_net :: "outgoing_reliable set"
  fl_acks :: "(outgoing_contextual \<times> int) set"
  fl_mark :: int
  fl_sent :: "bytes list"
  fl_taken :: "bytes list"

definition flow_new :: "output_config \<Rightarrow> input_config \<Rightarrow> rc4_key_state option \<Rightarrow> flow" where
  "flow_new oc ic c = \<lparr>fl_out = output_new oc c 0, fl_in = input_new ic c 0, fl_net = {},
     fl_acks = {}, fl_mark = 0, fl_sent = [], fl_taken = []\<rparr>"

definition flow_packets :: "output_config \<Rightarrow> rc4_key_state option \<Rightarrow> flow \<Rightarrow> rpacket list" where
  "flow_packets oc c f = fst (stream_packets (max_data_length oc - 2) c (fl_sent f))"

text \<open>An acknowledgement is prompt when the sequences it may name lie in the block the sender
  reconstructs sequences in: the mark is at most a send window behind the highest sequence
  acknowledged, and the receiver is not a block ahead of it.\<close>

definition prompt :: "output_channel \<Rightarrow> int \<Rightarrow> input_channel \<Rightarrow> bool" where
  "prompt ch mark in' \<longleftrightarrow>
     max_client_sequence ch - int (max_queued_outgoing (out_config ch)) \<le> mark - 1 \<and>
     window_start_sequence in' + max_queued in' + int (max_queued_outgoing (out_config ch)) <
       max_client_sequence ch + 65536 \<and>
     max_client_sequence ch < 2 ^ 62"

definition flow_notify :: "output_channel \<Rightarrow> outgoing_contextual \<Rightarrow> instant \<Rightarrow> output_channel" where
  "flow_notify ch r now = (if oc_op_code r = AcknowledgeAll
     then notify_of_acknowledge_all ch (oc_sequence r) now
     else notify_of_acknowledge ch (oc_sequence r) now)"

text \<open>A step, at the time it happens. The clocks of the two ends need not agree.\<close>

inductive flow_step ::
    "output_config \<Rightarrow> input_config \<Rightarrow> rc4_key_state option \<Rightarrow> instant \<Rightarrow> flow \<Rightarrow> flow \<Rightarrow> bool"
  for oc :: output_config and ic :: input_config and c :: "rc4_key_state option" where
  send: "message_ok c d \<Longrightarrow> enqueue_data (fl_out f) d = Some o' \<Longrightarrow>
    flow_step oc ic c now f (f\<lparr>fl_out := o', fl_sent := fl_sent f @ [d]\<rparr>)"
| tick_out: "flow_step oc ic c now f (f\<lparr>fl_out := output_run_tick (fl_out f) now\<rparr>)"
| transmit: "output_take_outgoing (fl_out f) = (pkts, o') \<Longrightarrow>
    flow_step oc ic c now f (f\<lparr>fl_out := o', fl_net := fl_net f \<union> set pkts\<rparr>)"
| create: "fl_in f = input_new ic c t \<Longrightarrow> flow_step oc ic c now f (f\<lparr>fl_in := input_new ic c now\<rparr>)"
| deliver: "pkt \<in> fl_net f \<Longrightarrow> i < length (flow_packets oc c f) \<Longrightarrow>
    pkt = packet_wire (flow_packets oc c f) i \<Longrightarrow> timely (fl_in f) i \<Longrightarrow>
    handle_packet (fl_in f) (or_op_code pkt = ReliableDataFragment) (or_payload pkt) now =
      Some (in', res) \<Longrightarrow>
    flow_step oc ic c now f (f\<lparr>fl_in := in'\<rparr>)"
| tick_in: "flow_step oc ic c now f (f\<lparr>fl_in := input_run_tick (fl_in f) now\<rparr>)"
| mark: "in_outgoing (fl_in f) = [] \<Longrightarrow>
    flow_step oc ic c now f (f\<lparr>fl_mark := window_start_sequence (fl_in f)\<rparr>)"
| collect: "input_take_outgoing (fl_in f) = (acks, in') \<Longrightarrow>
    flow_step oc ic c now f
      (f\<lparr>fl_in := in', fl_acks := fl_acks f \<union> (\<lambda>r. (r, fl_mark f)) ` set acks\<rparr>)"
| take: "take_app_data (fl_in f) = (ds, in') \<Longrightarrow>
    flow_step oc ic c now f (f\<lparr>fl_in := in', fl_taken := fl_taken f @ ds\<rparr>)"
| acknowledge: "(r, m) \<in> fl_acks f \<Longrightarrow> prompt (fl_out f) m (fl_in f) \<Longrightarrow>
    flow_step oc ic c now f (f\<lparr>fl_out := flow_notify (fl_out f) r now\<rparr>)"

inductive flow_reach :: "output_config \<Rightarrow> input_config \<Rightarrow> rc4_key_state option \<Rightarrow> flow \<Rightarrow> bool"
  for oc :: output_config and ic :: input_config and c :: "rc4_key_state option" where
  start: "flow_reach oc ic c (flow_new oc ic c)"
| step: "flow_reach oc ic c f \<Longrightarrow> flow_step oc ic c now f f' \<Longrightarrow> flow_reach oc ic c f'"

section \<open>The invariant\<close>

text \<open>The link a flow refines: what was handed over is put back.\<close>

definition flow_link :: "flow \<Rightarrow> link" where
  "flow_link f = \<lparr>lk_out = fl_out f, lk_in = with_app (fl_taken f) (fl_in f), lk_net = fl_net f,
     lk_sent = fl_sent f\<rparr>"

text \<open>Every packet is still queued or received: the sender forgets nothing too early.\<close>

definition kept :: "rpacket list \<Rightarrow> output_channel \<Rightarrow> input_channel \<Rightarrow> bool" where
  "kept P ch in' \<longleftrightarrow> (\<forall>i<length P. int i \<in> fst ` set (dispatch_queue ch) \<or> has_packet 1 in' (int i))"

definition acks_known :: "flow \<Rightarrow> bool" where
  "acks_known f \<longleftrightarrow> 0 \<le> fl_mark f \<and> fl_mark f \<le> window_start_sequence (fl_in f) \<and> acks_sound (fl_mark f) (fl_in f) \<and>
     (\<forall>(r, m)\<in>fl_acks f. ack_sound m (fl_in f) r)"

definition client_known :: "flow \<Rightarrow> bool" where
  "client_known f \<longleftrightarrow> 0 \<le> max_client_sequence (fl_out f) \<and>
     max_client_sequence (fl_out f) \<le> window_start_sequence (fl_in f) + max_queued (fl_in f)"

definition flow_inv ::
    "output_config \<Rightarrow> input_config \<Rightarrow> rc4_key_state option \<Rightarrow> flow \<Rightarrow> bool" where
  "flow_inv oc ic c f \<longleftrightarrow> link_inv oc ic c (flow_link f) \<and> acks_known f \<and> client_known f \<and>
     kept (flow_packets oc c f) (fl_out f) (fl_in f)"

lemmas flow_inv_parts = flow_inv_def acks_known_def client_known_def kept_def

lemma flow_link_simps [simp]:
  "lk_out (flow_link f) = fl_out f" "lk_in (flow_link f) = with_app (fl_taken f) (fl_in f)"
  "lk_net (flow_link f) = fl_net f" "lk_sent (flow_link f) = fl_sent f"
  "sent_packets oc c (flow_link f) = flow_packets oc c f"
  by (simp_all add: flow_link_def sent_packets_def flow_packets_def)

lemma flow_packets_simps [simp]:
  "flow_packets oc c (fl_out_update f1 f) = flow_packets oc c f"
  "flow_packets oc c (fl_in_update f2 f) = flow_packets oc c f"
  "flow_packets oc c (fl_net_update f3 f) = flow_packets oc c f"
  "flow_packets oc c (fl_acks_update f4 f) = flow_packets oc c f"
  "flow_packets oc c (fl_mark_update f5 f) = flow_packets oc c f"
  "flow_packets oc c (fl_taken_update f6 f) = flow_packets oc c f"
  by (simp_all add: flow_packets_def)

text \<open>Sequences from a window behind the current one on are recovered up to a block ahead.\<close>

lemma true_incoming_between:
  assumes "0 \<le> c" and "c < 2 ^ 62" and "0 \<le> w" and "w \<le> 32767"
    and "c - w \<le> s" and "s + w < c + 65536"
  shows "true_incoming_sequence (wire_sequence s) c w = s"
proof (rule cong_unique)
  show "true_incoming_sequence (wire_sequence s) c w mod 65536 = s mod 65536"
    by (simp add: true_incoming_cong [OF assms(1,2)])
  define b where "b = c - c mod 65536 + s mod 65536"
  have "c - 65536 < b" and "b < c + 65536"
    using pos_mod_bound [of 65536 c] pos_mod_sign [of 65536 c] pos_mod_bound [of 65536 s]
      pos_mod_sign [of 65536 s]
    unfolding b_def by linarith+
  then show "\<bar>true_incoming_sequence (wire_sequence s) c w - s\<bar> < 65536"
    using assms(3-) unfolding true_incoming_eq [OF assms(1,2)] Let_def uint_wire_sequence
    by (simp flip: b_def) linarith
qed

section \<open>Every step keeps the invariant\<close>

lemma flow_inv_new:
  assumes "0 < max_queued_incoming ic"
  shows "flow_inv oc ic c (flow_new oc ic c)"
proof -
  have "flow_link (flow_new oc ic c) = link_new oc ic c 0"
    by (simp add: flow_link_def flow_new_def link_new_def with_app_def)
  moreover have "0 \<le> max_queued (input_new ic c 0)" by (simp add: max_queued_def)
  ultimately show ?thesis
    using link_inv_new [OF assms, of oc c 0]
    by (simp add: flow_inv_parts flow_new_def flow_packets_def acks_sound_def input_new_def
        output_new_def max_queued_def)
qed

lemma grows_with_app [simp]: "grows (with_app xs ch) (with_app ys ch') = grows ch ch'"
  by (simp add: grows_def)

lemma grows_max_queued: "grows ch ch' \<Longrightarrow> max_queued ch' = max_queued ch"
  by (simp add: grows_def max_queued_def)

text \<open>A receiver that only gains packets, with sound acknowledgements.\<close>

lemma flow_inv_receiver:
  assumes inv: "flow_inv oc ic c f" and link: "link_inv oc ic c (flow_link (f\<lparr>fl_in := in'\<rparr>))"
    and grows: "grows (fl_in f) in'" and sound: "acks_sound (fl_mark f) in'"
  shows "flow_inv oc ic c (f\<lparr>fl_in := in'\<rparr>)"
  using assms grows_max_queued [OF grows]
  by (auto simp: flow_inv_parts grows_def intro: ack_sound_grows [OF grows])

lemma flow_inv_sender:
  assumes inv: "flow_inv oc ic c f" and link: "link_inv oc ic c (flow_link (f\<lparr>fl_out := o'\<rparr>))"
    and "max_client_sequence o' = max_client_sequence (fl_out f)"
    and "map fst (dispatch_queue o') = map fst (dispatch_queue (fl_out f))"
  shows "flow_inv oc ic c (f\<lparr>fl_out := o'\<rparr>)"
proof -
  have "fst ` set (dispatch_queue o') = fst ` set (dispatch_queue (fl_out f))"
    using assms(4) by (metis set_map)
  with assms show ?thesis by (simp add: flow_inv_parts)
qed

lemma flow_inv_output_ok: "flow_inv oc ic c f \<Longrightarrow> output_ok (fl_out f)"
  by (simp add: flow_inv_def link_inv_defs)

lemma flow_inv_send:
  assumes inv: "flow_inv oc ic c f" and m: "6 \<le> max_data_length oc" and ok: "message_ok c d"
    and e: "enqueue_data (fl_out f) d = Some o'"
  shows "flow_inv oc ic c (f\<lparr>fl_out := o', fl_sent := fl_sent f @ [d]\<rparr>)" (is "flow_inv oc ic c ?f")
proof -
  let ?P = "flow_packets oc c f" and ?P' = "flow_packets oc c ?f" and ?o = "fl_out f"
  have cfg: "out_config ?o = oc" and total: "total_sequence ?o = int (length ?P)"
    using inv by (simp_all add: flow_inv_def link_inv_defs carries_def)
  have d: "d \<noteq> []" using ok by (simp add: message_ok_def)
  obtain ps c' where o': "o' = append_packets ps (?o\<lparr>out_cipher := c'\<rparr>)"
    using e m by (auto simp: enqueue_eq [OF d] cfg)
  have eq: "flow_link ?f = flow_link f\<lparr>lk_out := o', lk_sent := lk_sent (flow_link f) @ [d]\<rparr>"
    by (simp add: flow_link_def)
  have link: "link_inv oc ic c (flow_link ?f)"
    unfolding eq using inv e by (intro link_inv_send m ok) (simp_all add: flow_inv_def)
  then have "total_sequence o' = int (length ?P')" by (simp add: link_inv_defs carries_def)
  then have len: "length ?P' = length ?P + length ps"
    using total by (simp add: o' append_packets_def)
  have "kept ?P' o' (fl_in f)"
    unfolding kept_def
  proof (intro allI impI)
    fix i assume i: "i < length ?P'"
    show "int i \<in> fst ` set (dispatch_queue o') \<or> has_packet 1 (fl_in f) (int i)"
    proof (cases "i < length ?P")
      case True
      with inv show ?thesis
        by (auto simp: flow_inv_parts o' append_packets_def)
    next
      case False
      then have "i - length ?P < length ps" using i len by simp
      then have "stash_entry (int i) (ps ! (i - length ?P)) \<in> set (stash_all (int (length ?P)) ps)"
        using False nth_mem [of "i - length ?P" "stash_all (int (length ?P)) ps"]
        by (simp add: nth_stash_all)
      then have "int i \<in> fst ` set (stash_all (int (length ?P)) ps)"
        by (rule rev_image_eqI) (simp add: stash_entry_def)
      then show ?thesis by (simp add: o' append_packets_def total image_Un)
    qed
  qed
  with link inv show ?thesis by (simp add: flow_inv_def acks_known_def client_known_def o' append_packets_def)
qed

lemma flow_inv_deliver:
  assumes inv: "flow_inv oc ic c f" and m: "6 \<le> max_data_length oc"
    and i: "i < length (flow_packets oc c f)" "pkt = packet_wire (flow_packets oc c f) i"
    and timely: "timely (fl_in f) i" and net: "pkt \<in> fl_net f"
    and h: "handle_packet (fl_in f) (or_op_code pkt = ReliableDataFragment) (or_payload pkt) now =
      Some (in', res)"
  shows "flow_inv oc ic c (f\<lparr>fl_in := in'\<rparr>) \<and> res = Inr ()"
proof -
  let ?l = "flow_link f" and ?xs = "fl_taken f"
  have link: "link_inv oc ic c ?l" using inv by (simp add: flow_inv_def)
  have h': "handle_packet (lk_in ?l) (or_op_code pkt = ReliableDataFragment) (or_payload pkt) now =
      Some (with_app ?xs in', res)"
    by (simp add: with_app_handle h)
  have handled: "handled (fresh_receiver c) (flow_packets oc c f) (with_app ?xs (fl_in f)) (with_app ?xs in')"
    and res: "res = Inr ()"
    using deliver_handled [OF link m, of i now] i timely h' by auto
  have "link_step oc c ?l (?l\<lparr>lk_in := with_app ?xs in'\<rparr>)"
    by (rule link_step.deliver [OF _ _ _ _ h', of i]) (use i net timely in simp_all)
  then have "link_inv oc ic c (?l\<lparr>lk_in := with_app ?xs in'\<rparr>)" using link m by (rule link_inv_step)
  then have "link_inv oc ic c (flow_link (f\<lparr>fl_in := in'\<rparr>))" by (simp add: flow_link_def)
  then show ?thesis
    using flow_inv_receiver [OF inv] handled inv res
    by (simp add: handled_def flow_inv_def acks_known_def)
qed

lemma ack_sound_less: "ack_sound lo ch r \<Longrightarrow> lo' \<le> lo \<Longrightarrow> ack_sound lo' ch r"
  unfolding ack_sound_def by (meson diff_right_mono order_trans)

lemma acks_sound_less: "acks_sound lo ch \<Longrightarrow> lo' \<le> lo \<Longrightarrow> acks_sound lo' ch"
  unfolding acks_sound_def using ack_sound_less by blast

lemma flow_inv_same:
  assumes inv: "flow_inv oc ic c f" and same: "same_window (fl_in f) in'"
    and sound: "acks_sound (fl_mark f) in'"
  shows "flow_inv oc ic c (f\<lparr>fl_in := in'\<rparr>)"
proof -
  let ?l = "flow_link f" and ?xs = "fl_taken f"
  have same': "same_window (with_app ?xs (fl_in f)) (with_app ?xs in')"
    using same by (simp add: same_window_def core_def)
  have grows: "grows (fl_in f) in'" by (rule grows_same [OF same])
  have "acks_sound 0 in'" using sound inv by (auto simp: flow_inv_parts intro: acks_sound_less)
  then have "link_inv oc ic c (flow_link f\<lparr>lk_in := with_app ?xs in'\<rparr>)"
    using inv same' by (intro link_inv_receiver_step) (simp_all add: flow_inv_def)
  then have "link_inv oc ic c (flow_link (f\<lparr>fl_in := in'\<rparr>))" by (simp add: flow_link_def)
  then show ?thesis by (rule flow_inv_receiver [OF inv _ grows sound])
qed

lemma flow_inv_collect:
  assumes inv: "flow_inv oc ic c f" and take: "input_take_outgoing (fl_in f) = (acks, in')"
  shows "flow_inv oc ic c (f\<lparr>fl_in := in', fl_acks := fl_acks f \<union> (\<lambda>r. (r, fl_mark f)) ` set acks\<rparr>)"
proof -
  have same: "same_window (fl_in f) in'" and sound: "acks_sound (fl_mark f) in'"
    using collect_receiver [OF take, of "fl_mark f"] by simp_all
  have acks: "ack_sound (fl_mark f) in' r" if "r \<in> set acks" for r
    using that inv take ack_sound_same [OF same]
    by (auto simp: flow_inv_parts acks_sound_def input_take_outgoing_def)
  from flow_inv_same [OF inv same sound] acks show ?thesis
    by (auto simp: flow_inv_parts flow_link_def)
qed

lemma flow_inv_take:
  assumes inv: "flow_inv oc ic c f" and take: "take_app_data (fl_in f) = (ds, in')"
  shows "flow_inv oc ic c (f\<lparr>fl_in := in', fl_taken := fl_taken f @ ds\<rparr>)"
proof -
  have eq: "fl_in f = with_app ds in'"
    using take by (auto simp: take_app_data_def with_app_def)
  have "with_app (fl_taken f) (with_app ds in') = with_app (fl_taken f @ ds) in'"
    by (simp add: with_app_def)
  with inv show ?thesis by (simp add: flow_inv_parts flow_link_def eq)
qed

text \<open>A prompt acknowledgement is read as the sequence it names.\<close>

lemma prompt_read:
  assumes inv: "flow_inv oc ic c f" and q: "max_queued_outgoing oc \<le> 32767"
    and r: "ack_sound m (fl_in f) r" and p: "prompt (fl_out f) m (fl_in f)"
  obtains s where "true_incoming (fl_out f) (oc_sequence r) = s" and "m - 1 \<le> s"
    and "s \<le> window_start_sequence (fl_in f) + max_queued (fl_in f)"
    and "oc_op_code r = Acknowledge \<and> has_packet 1 (fl_in f) s \<or>
      oc_op_code r = AcknowledgeAll \<and> s < window_start_sequence (fl_in f)"
proof -
  let ?o = "fl_out f" and ?w = "window_start_sequence (fl_in f)" and ?n = "max_queued (fl_in f)"
  obtain s where s: "m - 1 \<le> s" "oc_sequence r = wire_sequence s"
    and held: "oc_op_code r = Acknowledge \<and> has_packet 1 (fl_in f) s \<or>
      oc_op_code r = AcknowledgeAll \<and> s < ?w"
    using r by (auto simp: ack_sound_def)
  have "0 \<le> ?n" by (simp add: max_queued_def)
  then have le: "s \<le> ?w + ?n" using held by (auto simp: has_packet_def)
  have "out_config ?o = oc" using inv by (simp add: flow_inv_def link_inv_defs)
  then have "true_incoming ?o (oc_sequence r) = s"
    unfolding true_incoming_def s(2)
    using inv p q s(1) le by (intro true_incoming_between) (simp_all add: flow_inv_parts prompt_def)
  with that [OF _ s(1) le held] show ?thesis by blast
qed

lemma flow_notify_queue:
  assumes "output_ok ch"
  shows "dispatch_queue (flow_notify ch r now) = filter (\<lambda>e. if oc_op_code r = AcknowledgeAll
      then true_incoming ch (oc_sequence r) < fst e else fst e \<noteq> true_incoming ch (oc_sequence r))
    (dispatch_queue ch)"
  and "max_client_sequence (flow_notify ch r now) =
    max (max_client_sequence ch) (true_incoming ch (oc_sequence r))"
  using ack_queue [OF assms] ack_max_client
  by (simp_all add: flow_notify_def notify_of_acknowledge_all_def Let_def split_beta ack_all_loop_effect
      split: option.split)

lemma flow_inv_acknowledge:
  assumes inv: "flow_inv oc ic c f" and q: "max_queued_outgoing oc \<le> 32767"
    and m: "6 \<le> max_data_length oc"
    and r: "(r, k) \<in> fl_acks f" and p: "prompt (fl_out f) k (fl_in f)"
  shows "flow_inv oc ic c (f\<lparr>fl_out := flow_notify (fl_out f) r now\<rparr>)"
proof -
  let ?o = "fl_out f" and ?o' = "flow_notify (fl_out f) r now" and ?P = "flow_packets oc c f"
  have "ack_sound k (fl_in f) r" using inv r by (auto simp: flow_inv_parts)
  then obtain s where s: "true_incoming ?o (oc_sequence r) = s"
    and le: "s \<le> window_start_sequence (fl_in f) + max_queued (fl_in f)"
    and held: "oc_op_code r = Acknowledge \<and> has_packet 1 (fl_in f) s \<or>
      oc_op_code r = AcknowledgeAll \<and> s < window_start_sequence (fl_in f)"
    using prompt_read [OF inv q _ p] by blast
  note queue = flow_notify_queue [OF flow_inv_output_ok [OF inv], of r now, unfolded s]
  have "link_step oc c (flow_link f) (flow_link f\<lparr>lk_out := ?o'\<rparr>)"
    using link_step.ack [of oc c "flow_link f"] link_step.ack_all [of oc c "flow_link f"]
    by (simp add: flow_notify_def)
  then have "link_inv oc ic c (flow_link f\<lparr>lk_out := ?o'\<rparr>)"
    using link_inv_step inv m by (auto simp: flow_inv_def)
  then have link: "link_inv oc ic c (flow_link (f\<lparr>fl_out := ?o'\<rparr>))" by (simp add: flow_link_def)
  have "int i \<in> fst ` set (dispatch_queue ?o') \<or> has_packet 1 (fl_in f) (int i)"
    if i: "i < length ?P" for i
  proof (cases "int i \<in> fst ` set (dispatch_queue ?o)")
    case True
    then have "int i \<in> fst ` set (dispatch_queue ?o') \<or>
        (if oc_op_code r = AcknowledgeAll then int i \<le> s else int i = s)"
      by (auto simp: queue image_iff not_less)
    with held show ?thesis by (auto simp: has_packet_def)
  next
    case False
    with inv i show ?thesis by (auto simp: flow_inv_parts)
  qed
  then have "kept ?P ?o' (fl_in f)" by (simp add: kept_def)
  moreover have "client_known (f\<lparr>fl_out := ?o'\<rparr>)"
    using inv le by (simp add: flow_inv_parts queue max_def)
  ultimately show ?thesis using link inv by (simp add: flow_inv_def acks_known_def)
qed

lemma flow_inv_link_step:
  assumes "flow_inv oc ic c f" and "6 \<le> max_data_length oc" and "link_step oc c (flow_link f) l"
  shows "link_inv oc ic c l"
  using link_inv_step [OF assms(3) _ assms(2)] assms(1) by (simp add: flow_inv_def)

lemma flow_inv_tick_out:
  assumes inv: "flow_inv oc ic c f" and m: "6 \<le> max_data_length oc"
  shows "flow_inv oc ic c (f\<lparr>fl_out := output_run_tick (fl_out f) now\<rparr>)"
proof (rule flow_inv_sender [OF inv])
  have "link_inv oc ic c (flow_link f\<lparr>lk_out := output_run_tick (lk_out (flow_link f)) now\<rparr>)"
    by (rule flow_inv_link_step [OF inv m link_step.tick_out])
  then show "link_inv oc ic c (flow_link (f\<lparr>fl_out := output_run_tick (fl_out f) now\<rparr>))"
    by (simp add: flow_link_def)
qed (simp_all add: tick_queue [OF flow_inv_output_ok [OF inv]])

lemma flow_inv_transmit:
  assumes inv: "flow_inv oc ic c f" and take: "output_take_outgoing (fl_out f) = (pkts, o')"
  shows "flow_inv oc ic c (f\<lparr>fl_out := o', fl_net := fl_net f \<union> set pkts\<rparr>)"
proof -
  have "link_inv oc ic c (flow_link f\<lparr>lk_out := o', lk_net := lk_net (flow_link f) \<union> set pkts\<rparr>)"
    using inv take by (intro link_inv_transmit) (simp_all add: flow_inv_def)
  then have "link_inv oc ic c (flow_link (f\<lparr>fl_out := o', fl_net := fl_net f \<union> set pkts\<rparr>))"
    by (simp add: flow_link_def)
  moreover have "max_client_sequence o' = max_client_sequence (fl_out f)"
    "dispatch_queue o' = dispatch_queue (fl_out f)"
    using take by (auto simp: output_take_outgoing_def)
  ultimately show ?thesis using inv by (simp add: flow_inv_parts)
qed

lemma flow_inv_create:
  assumes inv: "flow_inv oc ic c f" and new: "fl_in f = input_new ic c t"
  shows "flow_inv oc ic c (f\<lparr>fl_in := input_new ic c now\<rparr>)"
  by (rule flow_inv_same [OF inv]) (simp_all add: new same_window_def input_new_def core_def acks_sound_def)

lemma flow_inv_step:
  assumes step: "flow_step oc ic c now f f'" and inv: "flow_inv oc ic c f"
    and m: "6 \<le> max_data_length oc" and q: "max_queued_outgoing oc \<le> 32767"
  shows "flow_inv oc ic c f'"
  using step
proof (cases rule: flow_step.cases)
  case send
  then show ?thesis using flow_inv_send [OF inv m] by simp
next
  case tick_out
  then show ?thesis using flow_inv_tick_out [OF inv m] by simp
next
  case transmit
  then show ?thesis using flow_inv_transmit [OF inv] by simp
next
  case create
  then show ?thesis using flow_inv_create [OF inv] by simp
next
  case deliver
  then show ?thesis using flow_inv_deliver [OF inv m] by simp
next
  case tick_in
  have "acks_sound (fl_mark f) (input_run_tick (fl_in f) now)"
    using inv by (intro tick_in_acks) (simp_all add: flow_inv_parts)
  then show ?thesis using flow_inv_same [OF inv tick_in_same] by (simp add: tick_in)
next
  case mark
  have "0 \<le> window_start_sequence (fl_in f)"
    using inv by (simp add: flow_inv_def link_inv_defs window_inv_def sized_def)
  with inv mark show ?thesis by (simp add: flow_inv_parts acks_sound_def flow_link_def)
next
  case collect
  then show ?thesis using flow_inv_collect [OF inv] by simp
next
  case take
  then show ?thesis using flow_inv_take [OF inv] by simp
next
  case acknowledge
  then show ?thesis using flow_inv_acknowledge [OF inv q m] by simp
qed

text \<open>The parameters under which a flow is reliable.\<close>

definition flow_config :: "output_config \<Rightarrow> input_config \<Rightarrow> bool" where
  "flow_config oc ic \<longleftrightarrow> 6 \<le> max_data_length oc \<and> max_queued_outgoing oc \<le> 32767 \<and>
     0 < max_queued_incoming ic"

lemma flow_reach_inv:
  assumes "flow_reach oc ic c f" and "flow_config oc ic"
  shows "flow_inv oc ic c f"
  using assms(1) by induction (use assms(2) flow_inv_new flow_inv_step in \<open>auto simp: flow_config_def\<close>)

section \<open>What a flow guarantees\<close>

lemma flow_prefix:
  assumes "flow_reach oc ic c f" and "flow_config oc ic"
  shows "prefix (fl_taken f @ app_data (fl_in f)) (fl_sent f)"
proof -
  have "link_inv oc ic c (flow_link f)" using flow_reach_inv [OF assms] by (simp add: flow_inv_def)
  from link_inv_prefix [OF this] assms(2) show ?thesis by (simp add: flow_config_def)
qed

text \<open>A packet leaves the send queue only when the receiver has it.\<close>

lemma flow_kept:
  assumes "flow_reach oc ic c f" and "flow_config oc ic" and "i < length (flow_packets oc c f)"
  shows "int i \<in> fst ` set (dispatch_queue (fl_out f)) \<or> has_packet 1 (fl_in f) (int i)"
  using flow_reach_inv [OF assms(1,2)] assms(3) by (simp add: flow_inv_parts)

lemma flow_inv_complete:
  assumes inv: "flow_inv oc ic c f" and cfg: "flow_config oc ic" and "dispatch_queue (fl_out f) = []"
  shows "fl_taken f @ app_data (fl_in f) = fl_sent f"
  using link_inv_complete [of oc ic c "flow_link f"] assms by (simp add: flow_inv_parts flow_config_def)

lemma flow_complete:
  assumes "flow_reach oc ic c f" and "flow_config oc ic" and "dispatch_queue (fl_out f) = []"
  shows "fl_taken f @ app_data (fl_in f) = fl_sent f"
  using flow_inv_complete [OF flow_reach_inv [OF assms(1,2)] assms(2,3)] .

text \<open>An acknowledgement that is not delayed is prompt when the receive window is smaller than
  the send window and the sender has been told of what the receiver has consumed.\<close>

lemma flow_prompt:
  assumes "flow_reach oc ic c f" and "flow_config oc ic" and "window_start_sequence (fl_in f) < 2 ^ 61"
    and "uint (max_queued_incoming ic) < int (max_queued_outgoing oc)"
    and "window_start_sequence (fl_in f) \<le> max_client_sequence (fl_out f) + 1"
  shows "prompt (fl_out f) (window_start_sequence (fl_in f)) (fl_in f)"
proof -
  have inv: "flow_inv oc ic c f" by (rule flow_reach_inv [OF assms(1,2)])
  then have "in_config (fl_in f) = ic" "out_config (fl_out f) = oc"
    by (simp_all add: flow_inv_def link_inv_defs)
  then have "max_queued (fl_in f) = uint (max_queued_incoming ic)" by (simp add: max_queued_def)
  then show ?thesis
    using assms(2-) inv \<open>out_config (fl_out f) = oc\<close>
    by (auto simp: prompt_def flow_inv_parts flow_config_def)
qed

end
