(* ===== verification/Soe_Packets.thy ===== *)
theory Soe_Packets
  imports Soe_Io
begin

text \<open>
  The wire representations of the session-control and session-context packets
  (\<open>src/packets.rs\<close>). Serialising writes into a caller's buffer and returns the buffer and
  the number of bytes written. The locale \<open>packet_codec\<close> is the contract between the two
  directions; every packet interprets it.
\<close>

section \<open>Packets\<close>

record session_request =
  sr_soe_protocol_version :: u32
  sr_session_id :: u32
  sr_udp_length :: u32
  sr_application_protocol :: bytes

record session_response =
  sp_session_id :: u32
  sp_crc_seed :: u32
  sp_crc_length :: u8
  sp_is_compression_enabled :: bool
  sp_unknown_value_1 :: u8
  sp_udp_length :: u32
  sp_soe_protocol_version :: u32

record disconnect_packet =
  dc_session_id :: u32
  dc_reason :: DisconnectReason

record remap_connection =
  rm_session_id :: u32
  rm_crc_seed :: u32

record acknowledge_packet =
  ack_sequence :: u16

record acknowledge_all_packet =
  ack_all_sequence :: u16

definition SESSION_REQUEST_MIN_SIZE :: nat where
  "SESSION_REQUEST_MIN_SIZE = OP_CODE_SIZE + 4 + 4 + 4 + 1"
definition SESSION_RESPONSE_SIZE :: nat where
  "SESSION_RESPONSE_SIZE = OP_CODE_SIZE + 4 + 4 + 1 + 1 + 1 + 4 + 4"
definition DISCONNECT_SIZE :: nat where "DISCONNECT_SIZE = 4 + 2"
definition REMAP_CONNECTION_SIZE :: nat where "REMAP_CONNECTION_SIZE = OP_CODE_SIZE + 4 + 4"
definition ACKNOWLEDGE_SIZE :: nat where "ACKNOWLEDGE_SIZE = 2"
definition ACKNOWLEDGE_ALL_SIZE :: nat where "ACKNOWLEDGE_ALL_SIZE = 2"
definition UNKNOWN_SENDER_SIZE :: nat where "UNKNOWN_SENDER_SIZE = OP_CODE_SIZE"

lemmas size_defs = SESSION_REQUEST_MIN_SIZE_def SESSION_RESPONSE_SIZE_def DISCONNECT_SIZE_def
  REMAP_CONNECTION_SIZE_def ACKNOWLEDGE_SIZE_def ACKNOWLEDGE_ALL_SIZE_def
  UNKNOWN_SENDER_SIZE_def OP_CODE_SIZE_def

definition session_request_size :: "session_request \<Rightarrow> nat" where
  "session_request_size p = OP_CODE_SIZE + 4 + 4 + 4 + length (sr_application_protocol p) + 1"

text \<open>Skipping the embedded OP code, when there is one.\<close>

definition read_op :: "bool \<Rightarrow> binary_reader \<Rightarrow> error + binary_reader" where
  "read_op has_op_code r =
     (if has_op_code then and_then (read_u16 r) (\<lambda>(_, r). Inr r) else Inr r)"

definition finish :: "binary_writer \<Rightarrow> error + bytes \<times> nat" where
  "finish w = Inr (wr_data w, wr_offset w)"

section \<open>SessionRequest\<close>

definition session_request_deserialize :: "bytes \<Rightarrow> bool \<Rightarrow> error + session_request" where
  "session_request_deserialize buffer has_op_code =
     and_then (read_op has_op_code (reader_new buffer)) (\<lambda>r.
     and_then (read_u32 r) (\<lambda>(version, r).
     and_then (read_u32 r) (\<lambda>(session_id, r).
     and_then (read_u32 r) (\<lambda>(udp_length, r).
     and_then (read_null_terminated_string r) (\<lambda>(protocol, r).
     Inr \<lparr>sr_soe_protocol_version = version, sr_session_id = session_id, sr_udp_length = udp_length,
          sr_application_protocol = protocol\<rparr>)))))"

definition session_request_serialize :: "session_request \<Rightarrow> bytes \<Rightarrow> error + bytes \<times> nat" where
  "session_request_serialize p buffer =
     and_then (write_u16 (writer_new buffer) (op_as_u16 SessionRequest)) (\<lambda>w.
     and_then (write_u32 w (sr_soe_protocol_version p)) (\<lambda>w.
     and_then (write_u32 w (sr_session_id p)) (\<lambda>w.
     and_then (write_u32 w (sr_udp_length p)) (\<lambda>w.
     and_then (write_null_terminated_string w (sr_application_protocol p)) finish))))"

section \<open>SessionResponse\<close>

definition session_response_deserialize :: "bytes \<Rightarrow> bool \<Rightarrow> error + session_response" where
  "session_response_deserialize buffer has_op_code =
     and_then (read_op has_op_code (reader_new buffer)) (\<lambda>r.
     and_then (read_u32 r) (\<lambda>(session_id, r).
     and_then (read_u32 r) (\<lambda>(seed, r).
     and_then (read_u8 r) (\<lambda>(crc_length, r).
     and_then (read_bool r) (\<lambda>(compression, r).
     and_then (read_u8 r) (\<lambda>(unknown, r).
     and_then (read_u32 r) (\<lambda>(udp_length, r).
     and_then (read_u32 r) (\<lambda>(version, r).
     Inr \<lparr>sp_session_id = session_id, sp_crc_seed = seed, sp_crc_length = crc_length,
          sp_is_compression_enabled = compression, sp_unknown_value_1 = unknown,
          sp_udp_length = udp_length, sp_soe_protocol_version = version\<rparr>))))))))"

definition session_response_serialize ::
    "session_response \<Rightarrow> bytes \<Rightarrow> error + bytes \<times> nat" where
  "session_response_serialize p buffer =
     and_then (write_u16 (writer_new buffer) (op_as_u16 SessionResponse)) (\<lambda>w.
     and_then (write_u32 w (sp_session_id p)) (\<lambda>w.
     and_then (write_u32 w (sp_crc_seed p)) (\<lambda>w.
     and_then (write_u8 w (sp_crc_length p)) (\<lambda>w.
     and_then (write_bool w (sp_is_compression_enabled p)) (\<lambda>w.
     and_then (write_u8 w (sp_unknown_value_1 p)) (\<lambda>w.
     and_then (write_u32 w (sp_udp_length p)) (\<lambda>w.
     and_then (write_u32 w (sp_soe_protocol_version p)) finish)))))))"

section \<open>Disconnect\<close>

definition disconnect_new :: "u32 \<Rightarrow> DisconnectReason \<Rightarrow> disconnect_packet" where
  "disconnect_new session_id reason = \<lparr>dc_session_id = session_id, dc_reason = reason\<rparr>"

definition disconnect_deserialize :: "bytes \<Rightarrow> error + disconnect_packet" where
  "disconnect_deserialize buffer =
     and_then (read_u32 (reader_new buffer)) (\<lambda>(session_id, r).
     and_then (read_u16 r) (\<lambda>(reason, r).
     Inr \<lparr>dc_session_id = session_id, dc_reason = reason_from_u16 reason\<rparr>))"

definition disconnect_serialize :: "disconnect_packet \<Rightarrow> bytes \<Rightarrow> error + bytes \<times> nat" where
  "disconnect_serialize p buffer =
     and_then (write_u32 (writer_new buffer) (dc_session_id p)) (\<lambda>w.
     and_then (write_u16 w (reason_as_u16 (dc_reason p))) finish)"

section \<open>RemapConnection\<close>

definition remap_connection_deserialize :: "bytes \<Rightarrow> bool \<Rightarrow> error + remap_connection" where
  "remap_connection_deserialize buffer has_op_code =
     and_then (read_op has_op_code (reader_new buffer)) (\<lambda>r.
     and_then (read_u32 r) (\<lambda>(session_id, r).
     and_then (read_u32 r) (\<lambda>(seed, r).
     Inr \<lparr>rm_session_id = session_id, rm_crc_seed = seed\<rparr>)))"

definition remap_connection_serialize ::
    "remap_connection \<Rightarrow> bytes \<Rightarrow> error + bytes \<times> nat" where
  "remap_connection_serialize p buffer =
     and_then (write_u16 (writer_new buffer) (op_as_u16 RemapConnection)) (\<lambda>w.
     and_then (write_u32 w (rm_session_id p)) (\<lambda>w.
     and_then (write_u32 w (rm_crc_seed p)) finish))"

section \<open>Acknowledge, AcknowledgeAll, UnknownSender\<close>

definition acknowledge_deserialize :: "bytes \<Rightarrow> error + acknowledge_packet" where
  "acknowledge_deserialize buffer =
     and_then (read_u16 (reader_new buffer)) (\<lambda>(sequence, r). Inr \<lparr>ack_sequence = sequence\<rparr>)"

definition acknowledge_serialize :: "acknowledge_packet \<Rightarrow> bytes \<Rightarrow> error + bytes \<times> nat" where
  "acknowledge_serialize p buffer =
     and_then (write_u16 (writer_new buffer) (ack_sequence p)) finish"

definition acknowledge_all_deserialize :: "bytes \<Rightarrow> error + acknowledge_all_packet" where
  "acknowledge_all_deserialize buffer =
     and_then (read_u16 (reader_new buffer))
       (\<lambda>(sequence, r). Inr \<lparr>ack_all_sequence = sequence\<rparr>)"

definition acknowledge_all_serialize ::
    "acknowledge_all_packet \<Rightarrow> bytes \<Rightarrow> error + bytes \<times> nat" where
  "acknowledge_all_serialize p buffer =
     and_then (write_u16 (writer_new buffer) (ack_all_sequence p)) finish"

definition unknown_sender_serialize :: "bytes \<Rightarrow> error + bytes \<times> nat" where
  "unknown_sender_serialize buffer =
     and_then (write_u16 (writer_new buffer) (op_as_u16 UnknownSender)) finish"

definition new_session_request :: "u32 \<Rightarrow> u32 \<Rightarrow> bytes \<Rightarrow> session_request" where
  "new_session_request session_id udp_length protocol =
     \<lparr>sr_soe_protocol_version = SOE_PROTOCOL_VERSION, sr_session_id = session_id,
      sr_udp_length = udp_length, sr_application_protocol = protocol\<rparr>"

section \<open>Wire layouts\<close>

definition session_request_bytes :: "session_request \<Rightarrow> bytes" where
  "session_request_bytes p = be16 (op_as_u16 SessionRequest) @ be32 (sr_soe_protocol_version p) @
     be32 (sr_session_id p) @ be32 (sr_udp_length p) @ sr_application_protocol p @ [0]"

definition session_response_bytes :: "session_response \<Rightarrow> bytes" where
  "session_response_bytes p = be16 (op_as_u16 SessionResponse) @ be32 (sp_session_id p) @
     be32 (sp_crc_seed p) @ [sp_crc_length p] @
     [if sp_is_compression_enabled p then 1 else 0] @ [sp_unknown_value_1 p] @
     be32 (sp_udp_length p) @ be32 (sp_soe_protocol_version p)"

definition disconnect_bytes :: "disconnect_packet \<Rightarrow> bytes" where
  "disconnect_bytes p = be32 (dc_session_id p) @ be16 (reason_as_u16 (dc_reason p))"

definition remap_connection_bytes :: "remap_connection \<Rightarrow> bytes" where
  "remap_connection_bytes p =
     be16 (op_as_u16 RemapConnection) @ be32 (rm_session_id p) @ be32 (rm_crc_seed p)"

text \<open>A protocol name the format can carry: UTF-8 without an embedded terminator.\<close>

definition session_request_ok :: "session_request \<Rightarrow> bool" where
  "session_request_ok p \<longleftrightarrow>
     0 \<notin> set (sr_application_protocol p) \<and> valid_utf8 (sr_application_protocol p)"

section \<open>The contract of a packet\<close>

locale packet_codec =
  fixes ok :: "'p \<Rightarrow> bool"
    and bytes_of :: "'p \<Rightarrow> bytes"
    and ser :: "'p \<Rightarrow> bytes \<Rightarrow> error + bytes \<times> nat"
    and deser :: "bytes \<Rightarrow> error + 'p"
  assumes ser_fits: "length (bytes_of p) \<le> length buf \<Longrightarrow>
      ser p buf = Inr (bytes_of p @ drop (length (bytes_of p)) buf, length (bytes_of p))"
    and ser_short: "length buf < length (bytes_of p) \<Longrightarrow> \<exists>e. ser p buf = Inl e"
    and deser_bytes: "ok p \<Longrightarrow> deser (bytes_of p @ junk) = Inr p"
begin

lemma ser_Inr: "ser p buf = Inr (out, n) \<longleftrightarrow>
    n = length (bytes_of p) \<and> n \<le> length buf \<and> out = bytes_of p @ drop n buf"
  using ser_fits [of p buf] ser_short [of buf p] by (cases "n \<le> length buf") fastforce+

lemma round_trip:
  assumes "ok p" and "ser p buf = Inr (out, n)"
  shows "deser out = Inr p" and "deser (take n out) = Inr p" and "length out = length buf"
  using assms deser_bytes [of p "[]"] by (auto simp: ser_Inr deser_bytes)

lemma bytes_inject:
  assumes "ok p" and "ok q" and "bytes_of p @ xs = bytes_of q @ ys"
  shows "p = q \<and> xs = ys"
  by (metis assms deser_bytes append_same_eq same_append_eq sum.inject(2))

lemma exact_buffer:
  "ser p (replicate (length (bytes_of p)) 0) = Inr (bytes_of p, length (bytes_of p))"
  by (simp add: ser_fits)

end

lemmas layout_defs = session_request_bytes_def session_response_bytes_def disconnect_bytes_def
  remap_connection_bytes_def

lemmas serialize_defs = session_request_serialize_def session_response_serialize_def
  disconnect_serialize_def remap_connection_serialize_def acknowledge_serialize_def
  acknowledge_all_serialize_def unknown_sender_serialize_def finish_def write_bool_def
  write_null_terminated_string_def write_eqs

lemmas deserialize_defs = session_request_deserialize_def session_response_deserialize_def
  disconnect_deserialize_def remap_connection_deserialize_def acknowledge_deserialize_def
  acknowledge_all_deserialize_def read_op_def

lemma session_request_codec:
  "packet_codec session_request_ok session_request_bytes session_request_serialize
     (\<lambda>b. session_request_deserialize b True)"
  by standard (auto simp: serialize_defs deserialize_defs layout_defs session_request_ok_def
      codec_simps from_utf8_lossy_valid)

lemma session_response_codec:
  "packet_codec (\<lambda>_. True) session_response_bytes session_response_serialize
     (\<lambda>b. session_response_deserialize b True)"
  by standard (auto simp: serialize_defs deserialize_defs layout_defs codec_simps)

lemma disconnect_codec:
  "packet_codec (\<lambda>_. True) disconnect_bytes disconnect_serialize disconnect_deserialize"
  by standard (auto simp: serialize_defs deserialize_defs layout_defs codec_simps)

lemma remap_connection_codec:
  "packet_codec (\<lambda>_. True) remap_connection_bytes remap_connection_serialize
     (\<lambda>b. remap_connection_deserialize b True)"
  by standard (auto simp: serialize_defs deserialize_defs layout_defs codec_simps)

lemma acknowledge_codec:
  "packet_codec (\<lambda>_. True) (\<lambda>p. be16 (ack_sequence p)) acknowledge_serialize acknowledge_deserialize"
  by standard (auto simp: serialize_defs deserialize_defs codec_simps)

lemma acknowledge_all_codec:
  "packet_codec (\<lambda>_. True) (\<lambda>p. be16 (ack_all_sequence p)) acknowledge_all_serialize
     acknowledge_all_deserialize"
  by standard (auto simp: serialize_defs deserialize_defs codec_simps)

interpretation session_request: packet_codec session_request_ok session_request_bytes
  session_request_serialize "\<lambda>b. session_request_deserialize b True"
  by (rule session_request_codec)

interpretation session_response: packet_codec "\<lambda>_. True" session_response_bytes
  session_response_serialize "\<lambda>b. session_response_deserialize b True"
  by (rule session_response_codec)

interpretation disconnect: packet_codec "\<lambda>_. True" disconnect_bytes disconnect_serialize
  disconnect_deserialize
  by (rule disconnect_codec)

interpretation remap: packet_codec "\<lambda>_. True" remap_connection_bytes
  remap_connection_serialize "\<lambda>b. remap_connection_deserialize b True"
  by (rule remap_connection_codec)

interpretation ack: packet_codec "\<lambda>_. True" "\<lambda>p. be16 (ack_sequence p)" acknowledge_serialize
  acknowledge_deserialize
  by (rule acknowledge_codec)

interpretation ack_all: packet_codec "\<lambda>_. True" "\<lambda>p. be16 (ack_all_sequence p)"
  acknowledge_all_serialize acknowledge_all_deserialize
  by (rule acknowledge_all_codec)

text \<open>The OP code of a control packet is read by the dispatcher, which hands on the rest.\<close>

lemma control_bodies:
  "session_request_ok p \<Longrightarrow>
     session_request_deserialize (drop 2 (session_request_bytes p) @ junk) False = Inr p"
  "session_response_deserialize (drop 2 (session_response_bytes s) @ junk) False = Inr s"
  "remap_connection_deserialize (drop 2 (remap_connection_bytes m) @ junk) False = Inr m"
  by (simp_all add: deserialize_defs layout_defs session_request_ok_def codec_simps
      from_utf8_lossy_valid)

text \<open>The sizes the packets declare are the sizes of their layouts.\<close>

lemma layout_sizes:
  "length (session_request_bytes p) = session_request_size p"
  "length (session_response_bytes s) = SESSION_RESPONSE_SIZE"
  "length (disconnect_bytes d) = DISCONNECT_SIZE"
  "length (remap_connection_bytes m) = REMAP_CONNECTION_SIZE"
  by (simp_all add: layout_defs session_request_size_def size_defs)

lemma read_u32_total:
  "4 \<le> length (remaining_bytes r) \<Longrightarrow> \<exists>v. read_u32 r = Inr (v, advance 4 r)"
  by (simp add: read_u32_Inr)

lemma read_u16_total:
  "2 \<le> length (remaining_bytes r) \<Longrightarrow> \<exists>v. read_u16 r = Inr (v, advance 2 r)"
  by (simp add: read_u16_Inr)

lemma read_u8_total:
  "1 \<le> length (remaining_bytes r) \<Longrightarrow> \<exists>v. read_u8 r = Inr (v, advance 1 r)"
  by (cases "remaining_bytes r") (auto dest: read_u8_Cons)

lemma disconnect_total:
  assumes "6 \<le> length buffer"
  shows "\<exists>p. disconnect_deserialize buffer = Inr p"
proof -
  let ?r = "\<lambda>n. advance n (reader_new buffer)"
  have "\<exists>v. read_u32 (?r 0) = Inr (v, ?r 4)" and "\<exists>w. read_u16 (?r 4) = Inr (w, ?r 6)"
    using assms read_u32_total [of "?r 0"] read_u16_total [of "?r 4"] by simp_all
  then show ?thesis by (auto simp: disconnect_deserialize_def)
qed

lemma acks_total:
  assumes "2 \<le> length buffer"
  shows "\<exists>p. acknowledge_deserialize buffer = Inr p"
    and "\<exists>p. acknowledge_all_deserialize buffer = Inr p"
  using assms read_u16_total [of "reader_new buffer"]
  by (auto simp: acknowledge_deserialize_def acknowledge_all_deserialize_def)

lemma remap_total:
  assumes "8 \<le> length buffer"
  shows "\<exists>p. remap_connection_deserialize buffer False = Inr p"
proof -
  let ?r = "\<lambda>n. advance n (reader_new buffer)"
  have "\<exists>v. read_u32 (?r 0) = Inr (v, ?r 4)" and "\<exists>w. read_u32 (?r 4) = Inr (w, ?r 8)"
    using assms read_u32_total [of "?r 0"] read_u32_total [of "?r 4"] by simp_all
  then show ?thesis by (auto simp: remap_connection_deserialize_def read_op_def)
qed

lemma session_response_total:
  assumes "19 \<le> length buffer"
  shows "\<exists>p. session_response_deserialize buffer False = Inr p"
proof -
  let ?r = "\<lambda>n. advance n (reader_new buffer)"
  have u32: "\<exists>v. read_u32 (?r n) = Inr (v, ?r (n + 4))" if "n \<le> 15" for n
    using assms that read_u32_total [of "?r n"] by simp
  have u8: "\<exists>v. read_u8 (?r n) = Inr (v, ?r (n + 1))" if "n \<le> 18" for n
    using assms that read_u8_total [of "?r n"] by simp
  obtain a b c d e f g where "read_u32 (?r 0) = Inr (a, ?r 4)" "read_u32 (?r 4) = Inr (b, ?r 8)"
    "read_u8 (?r 8) = Inr (c, ?r 9)" "read_u8 (?r 9) = Inr (d, ?r 10)"
    "read_u8 (?r 10) = Inr (e, ?r 11)" "read_u32 (?r 11) = Inr (f, ?r 15)"
    "read_u32 (?r 15) = Inr (g, ?r 19)"
    using u32 [of 0] u32 [of 4] u8 [of 8] u8 [of 9] u8 [of 10] u32 [of 11] u32 [of 15] by auto
  then show ?thesis
    by (simp add: session_response_deserialize_def read_op_def read_bool_def)
qed

section \<open>Properties\<close>

text \<open>C32: A session request that serialises into a buffer parses back, from the
  bytes written alone and from the whole buffer, and so does a session response.\<close>

theorem session_packets_round_trip:
  assumes "session_request_ok req"
    and "session_request_serialize req buf = Inr (out, n)"
    and "session_response_serialize resp buf' = Inr (out', n')"
  shows "session_request_deserialize out True = Inr req \<and>
    session_request_deserialize (take n out) True = Inr req \<and>
    session_response_deserialize out' True = Inr resp \<and>
    session_response_deserialize (take n' out') True = Inr resp"
  using session_request.round_trip [OF assms(1,2)] session_response.round_trip [OF _ assms(3)]
  by simp

theorem session_packets_round_trip_witness:
  "session_request_deserialize (session_request_bytes (new_session_request 7 512 [80, 105])) True =
     Inr (new_session_request 7 512 [80, 105])"
proof -
  let ?req = "new_session_request 7 512 [80, 105]"
  let ?resp = "\<lparr>sp_session_id = 1, sp_crc_seed = 2, sp_crc_length = 2,
     sp_is_compression_enabled = True, sp_unknown_value_1 = 0, sp_udp_length = 512,
     sp_soe_protocol_version = 3\<rparr>"
  have "session_request_ok ?req"
    by (simp add: session_request_ok_def new_session_request_def ascii_valid_utf8)
  from session_packets_round_trip [OF this session_request.exact_buffer
      session_response.exact_buffer [of ?resp]]
  show ?thesis by blast
qed

end
