(* ===== verification/Soe_Crc32.thy ===== *)
theory Soe_Crc32
  imports Soe_Crc32_Table
begin

text \<open>
  The SOE variant of CRC-32 (\<open>src/crc32/mod.rs\<close>): table-driven hashing with a seeded
  initialisation. It is shown equal to the shift-register CRC-32 run over the four
  little-endian bytes of the seed followed by the data, and to detect every burst of up to 32
  bits.
\<close>

record crc32 =
  scheduled_seed :: u32

definition schedule_seed :: "u32 \<Rightarrow> u32" where
  "schedule_seed seed =
     (let state = table_at (ucast (NOT seed AND 0xFF));
          state = state XOR 0x00FFFFFF;
          idx = drop_bit 8 seed XOR state;
          state = drop_bit 8 state AND 0x00FFFFFF;
          state = state XOR table_at (ucast (idx AND 0xFF));
          idx = drop_bit 16 seed XOR state;
          state = drop_bit 8 state AND 0x00FFFFFF;
          state = state XOR table_at (ucast (idx AND 0xFF));
          idx = drop_bit 24 seed XOR state;
          state = drop_bit 8 state AND 0x00FFFFFF;
          state = state XOR table_at (ucast (idx AND 0xFF)) in
      state)"

definition crc32_new :: "u32 \<Rightarrow> crc32" where
  "crc32_new seed = \<lparr>scheduled_seed = schedule_seed seed\<rparr>"

text \<open>One byte of the loop of \<open>hash\<close>.\<close>

definition crc_step :: "u32 \<Rightarrow> u8 \<Rightarrow> u32" where
  "crc_step crc byte = drop_bit 8 crc XOR table_at (ucast (crc AND 0xFF) XOR byte)"

definition crc32_hash :: "crc32 \<Rightarrow> bytes \<Rightarrow> u32" where
  "crc32_hash c data = NOT (foldl crc_step (scheduled_seed c) data)"

section \<open>Linearity of the shift register\<close>

lemma crc_bit_xor: "crc_bit (a XOR b) = crc_bit a XOR crc_bit b"
  by (auto simp: crc_bit_def bit_xor_iff drop_bit_xor ac_simps)

lemma crc_bits_xor: "(crc_bit ^^ n) (a XOR b) = (crc_bit ^^ n) a XOR (crc_bit ^^ n) b"
  by (induction n) (simp_all add: crc_bit_xor)

lemma crc_byte_xor: "crc_byte (a XOR b) = crc_byte a XOR crc_byte b"
  by (simp add: crc_byte_def crc_bits_xor)

text \<open>Shifting through zero bits never touches the polynomial.\<close>

lemma crc_bits_zeros: "\<forall>i<n. \<not> bit x i \<Longrightarrow> (crc_bit ^^ n) x = drop_bit n x"
proof (induction n)
  case (Suc n)
  then have "(crc_bit ^^ Suc n) x = crc_bit (drop_bit n x)" by simp
  also have "\<dots> = drop_bit (Suc n) x"
    using Suc.prems by (simp add: crc_bit_def bit_drop_bit_eq)
  finally show ?case .
qed simp

lemma crc_byte_zeros: "take_bit 8 x = 0 \<Longrightarrow> crc_byte x = drop_bit 8 x"
proof -
  assume "take_bit 8 x = 0"
  then have "\<forall>i<8. \<not> bit x i" by (metis bit_0_eq bit_take_bit_iff bot_apply bot_bool_def)
  then show ?thesis unfolding crc_byte_def by (rule crc_bits_zeros)
qed

lemma word_xor_eq_0: "a XOR b = 0 \<longleftrightarrow> a = (b :: 'a :: len word)"
proof
  assume "a XOR b = 0"
  then have "(a XOR b) XOR b = b" by simp
  then show "a = b" by (simp add: xor.assoc)
qed simp

text \<open>The feedback bit re-enters at the top, so one step loses nothing.\<close>

lemma crc_bit_eq_0: "crc_bit x = 0 \<Longrightarrow> x = 0"
proof -
  assume z: "crc_bit x = 0"
  have top: "bit (0xEDB88320 :: u32) 31" by simp
  have "\<not> bit (drop_bit 1 x) 31"
    by (auto simp: bit_drop_bit_eq dest: bit_imp_le_length)
  with top have "bit (crc_bit x) 31 = bit x 0"
    by (simp only: crc_bit_def bit_xor_iff split: if_split) blast
  with z have "\<not> bit x 0" by simp
  with z have "drop_bit 1 x = 0" by (simp add: crc_bit_def)
  with \<open>\<not> bit x 0\<close> show "x = 0"
  proof (intro bit_word_eqI)
    fix n
    show "bit x n \<longleftrightarrow> bit (0 :: u32) n"
    proof (cases n)
      case 0
      with \<open>\<not> bit x 0\<close> show ?thesis by simp
    next
      case (Suc m)
      have "bit (drop_bit 1 x) m = bit (0 :: u32) m" using \<open>drop_bit 1 x = 0\<close> by simp
      with Suc show ?thesis by (simp add: bit_drop_bit_eq)
    qed
  qed
qed

lemma crc_bit_inject: "crc_bit a = crc_bit b \<longleftrightarrow> a = b"
  using crc_bit_eq_0 [of "a XOR b"] by (auto simp: crc_bit_xor word_xor_eq_0)

lemma crc_bits_inject: "(crc_bit ^^ n) a = (crc_bit ^^ n) b \<longleftrightarrow> a = b"
  by (induction n) (simp_all add: crc_bit_inject)

lemma crc_byte_inject: "crc_byte a = crc_byte b \<longleftrightarrow> a = b"
  by (simp add: crc_byte_def crc_bits_inject)


lemma crc_bytes_inject: "(crc_byte ^^ n) a = (crc_byte ^^ n) b \<longleftrightarrow> a = b"
  by (induction n) (simp_all add: crc_byte_inject)

section \<open>The byte step against the shift register\<close>

text \<open>The reference: exclusive-or the byte in, then shift eight times.\<close>

definition reference_step :: "u32 \<Rightarrow> u8 \<Rightarrow> u32" where
  "reference_step c b = crc_byte (c XOR ucast b)"

definition reference_crc32 :: "bytes \<Rightarrow> u32" where
  "reference_crc32 data = NOT (foldl reference_step 0xFFFFFFFF data)"

lemma masks:
  "(0xFF :: u32) = mask 8" "(0x00FFFFFF :: u32) = mask 24" "(0xFFFFFFFF :: u32) = mask 32"
  by (simp_all add: mask_eq_exp_minus_1)

lemma word_xor_right_cancel [simp]: "a XOR c = b XOR c \<longleftrightarrow> a = (b :: 'a :: len word)"
  by (metis xor.assoc xor_self_eq xor.right_neutral)

lemma crc_step_eq: "crc_step c b = reference_step c b"
proof -
  let ?hi = "c AND NOT 0xFF" and ?lo = "ucast (ucast (c AND 0xFF) XOR b) :: u32"
  have split: "c XOR ucast b = ?hi XOR ?lo"
    by (rule bit_word_eqI) (auto simp: masks bit_simps dest: bit_imp_le_length)
  have "take_bit 8 ?hi = 0"
    by (rule bit_word_eqI) (auto simp: masks bit_simps dest: bit_imp_le_length)
  then have "crc_byte ?hi = drop_bit 8 ?hi" by (rule crc_byte_zeros)
  also have "\<dots> = drop_bit 8 c"
    by (rule bit_word_eqI) (auto simp: masks bit_simps dest: bit_imp_le_length)
  finally show ?thesis
    by (simp only: reference_step_def split crc_byte_xor crc_step_def table_at_eq)
qed

definition le_bytes :: "u32 \<Rightarrow> bytes" where
  "le_bytes w = [ucast w, ucast (drop_bit 8 w), ucast (drop_bit 16 w), ucast (drop_bit 24 w)]"


text \<open>The seeded initialisation is the register after the seed's little-endian bytes.\<close>

lemma schedule_first: "table_at (ucast (NOT (seed :: u32) AND 0xFF)) XOR 0x00FFFFFF =
    reference_step 0xFFFFFFFF (ucast seed)"
proof -
  have "(ucast (NOT seed AND 0xFF) :: u8) = ucast ((0xFFFFFFFF :: u32) AND 0xFF) XOR ucast seed"
    by (rule bit_word_eqI) (auto simp: masks bit_simps dest: bit_imp_le_length)
  then show ?thesis
    by (simp add: crc_step_def xor.commute flip: crc_step_eq)
qed

lemma schedule_next:
  "drop_bit 8 state AND 0x00FFFFFF XOR table_at (ucast ((v XOR state) AND 0xFF)) =
     reference_step state (ucast v)"
proof -
  have "drop_bit 8 state AND 0x00FFFFFF = drop_bit 8 (state :: u32)"
    by (rule bit_word_eqI) (auto simp: masks bit_simps dest: bit_imp_le_length)
  moreover have "ucast ((v XOR state) AND 0xFF) = ucast (state AND 0xFF) XOR (ucast v :: u8)"
    by (rule bit_word_eqI) (auto simp: masks bit_simps dest: bit_imp_le_length)
  ultimately show ?thesis by (simp add: crc_step_def flip: crc_step_eq)
qed

lemma schedule_seed_eq:
  "schedule_seed seed = foldl reference_step 0xFFFFFFFF (le_bytes seed)"
  by (simp add: schedule_seed_def Let_def schedule_first schedule_next le_bytes_def)

lemma foldl_crc_step: "foldl crc_step c data = foldl reference_step c data"
  by (induction data arbitrary: c) (simp_all add: crc_step_eq)

lemma crc32_hash_eq: "crc32_hash (crc32_new seed) data = reference_crc32 (le_bytes seed @ data)"
  by (simp add: crc32_hash_def crc32_new_def reference_crc32_def schedule_seed_eq foldl_crc_step)

section \<open>Error detection\<close>

primrec le_word :: "bytes \<Rightarrow> u32" where
  "le_word [] = 0"
| "le_word (b # bs) = ucast b XOR push_bit 8 (le_word bs)"

lemma bit_le_word_bound: "bit (le_word bs) i \<Longrightarrow> i < 8 * length bs"
  by (induction bs arbitrary: i)
    (fastforce simp: bit_xor_iff bit_push_bit_iff bit_ucast_iff dest: bit_imp_le_length)+

lemma reference_step_word:
  "length ds \<le> 4 \<Longrightarrow>
     foldl reference_step c ds = (crc_byte ^^ length ds) (c XOR le_word ds)"
proof (induction ds arbitrary: c)
  case (Cons b ds)
  let ?w = "le_word ds"
  have "drop_bit 8 (push_bit 8 ?w) = ?w"
    using bit_le_word_bound [of ds] Cons.prems
    by (intro bit_word_eqI) (fastforce simp: bit_simps)
  moreover have "crc_byte (push_bit 8 ?w) = drop_bit 8 (push_bit 8 ?w)"
    by (rule crc_byte_zeros) (simp add: take_bit_push_bit)
  ultimately have "crc_byte (c XOR le_word (b # ds)) = crc_byte (c XOR ucast b) XOR ?w"
    by (simp add: crc_byte_xor flip: xor.assoc)
  with Cons show ?case
    by (simp add: reference_step_def funpow_swap1)
qed simp

lemma ucast_u8_u32_inject:
  assumes "(ucast (b :: u8) :: u32) = ucast (c :: u8)"
  shows "b = c"
proof (rule bit_word_eqI)
  fix n
  assume "n < LENGTH(8)"
  then show "bit b n = bit c n"
    using arg_cong [OF assms, of "\<lambda>w. bit w n"] by (simp add: bit_ucast_iff)
qed

lemma le_word_inject:
  "length ds = length es \<Longrightarrow> length ds \<le> 4 \<Longrightarrow> le_word ds = le_word es \<Longrightarrow> ds = es"
proof (induction ds es rule: list_induct2)
  case (Cons b ds c es)
  have low: "take_bit 8 (le_word (x # xs)) = ucast x" for x :: u8 and xs
    by (rule bit_word_eqI) (auto simp: bit_simps dest: bit_imp_le_length)
  have high: "drop_bit 8 (le_word (x # xs)) = le_word xs" if "length xs \<le> 3" for x :: u8 and xs
    using bit_le_word_bound [of xs] that
    by (intro bit_word_eqI) (fastforce simp: bit_simps dest: bit_imp_le_length)
  have "(ucast b :: u32) = ucast c"
    using low [of b ds] low [of c es] Cons.prems(2) by metis
  then have "b = c" by (rule ucast_u8_u32_inject)
  moreover have "le_word ds = le_word es"
  proof -
    have "length ds \<le> 3" and "length es \<le> 3" using Cons by simp_all
    then show ?thesis using high [of ds b] high [of es c] Cons.prems(2) by metis
  qed
  ultimately show ?case using Cons by simp
qed simp

lemma foldl_reference_inject: "foldl reference_step a ys = foldl reference_step b ys \<longleftrightarrow> a = b"
  by (induction ys arbitrary: a b)
    (auto simp: reference_step_def crc_byte_inject)


lemma reference_step_inject:
  assumes "length ds = length es" and "length ds \<le> 4" and "ds \<noteq> es"
  shows "foldl reference_step a ds \<noteq> foldl reference_step a es"
  using assms le_word_inject [of ds es]
  by (auto simp: reference_step_word crc_bytes_inject xor.commute [of a])

lemma crc32_burst:
  assumes "length ds = length es" and "length ds \<le> 4" and "ds \<noteq> es"
  shows "crc32_hash c (xs @ ds @ ys) \<noteq> crc32_hash c (xs @ es @ ys)"
  using reference_step_inject [OF assms]
  by (simp add: crc32_hash_def foldl_crc_step foldl_reference_inject bit.compl_eq_compl_iff)

section \<open>Properties\<close>

text \<open>C28: The table-driven hash with its seeded initialisation is the shift-register
  CRC-32 of the four little-endian bytes of the seed followed by the data.\<close>

theorem crc32_is_reference:
  "crc32_hash (crc32_new seed) data = reference_crc32 (le_bytes seed @ data)"
  by (rule crc32_hash_eq)

text \<open>Replacing up to four consecutive bytes of a packet by others changes its
  32-bit hash, for every seed.\<close>

theorem crc32_detects_bursts:
  assumes "length ds = length es" and "length ds \<le> 4" and "ds \<noteq> es"
  shows "crc32_hash (crc32_new seed) (xs @ ds @ ys) \<noteq>
    crc32_hash (crc32_new seed) (xs @ es @ ys)"
  using assms by (rule crc32_burst)

theorem crc32_detects_bursts_witness:
  "crc32_hash (crc32_new 5) ([0, 9] @ [1, 2] @ [7]) \<noteq>
   crc32_hash (crc32_new 5) ([0, 9] @ [1, 3] @ [7])"
  by (rule crc32_detects_bursts) simp_all

end
