(* ===== verification/Soe_Packet_Utils.thy ===== *)
theory Soe_Packet_Utils
  imports Soe_Packets Soe_Varint Soe_Crc32
begin

text \<open>
  Classifying, checksumming and bundling packets (\<open>src/packet_utils.rs\<close>). A CRC length
  above four panics in the code (the slice \<open>hash[4 - crc_length..]\<close>), so
  \<open>append_crc\<close> and \<open>validate_packet\<close> return an option. The bundlers of
  \<open>multi\<close> are proved over the laws of the varint scheme.
\<close>

section \<open>Classification\<close>

definition RELIABLE_CHANNEL_COUNT :: nat where "RELIABLE_CHANNEL_COUNT = 4"

datatype ValidationResult = Valid | TooShort | CrcMismatch | InvalidOpCode

definition read_op_code :: "bytes \<Rightarrow> OpCode option" where
  "read_op_code buffer =
     (if length buffer < OP_CODE_SIZE then None
      else op_from_u16 (of_be16 (buffer ! 0) (buffer ! 1)))"

definition reliable_channel :: "u16 \<Rightarrow> nat" where
  "reliable_channel raw =
     (if 0x09 \<le> raw \<and> raw \<le> 0x0C then unat (raw - 0x09)
      else if 0x0D \<le> raw \<and> raw \<le> 0x10 then unat (raw - 0x0D)
      else if 0x11 \<le> raw \<and> raw \<le> 0x14 then unat (raw - 0x11)
      else if 0x15 \<le> raw \<and> raw \<le> 0x18 then unat (raw - 0x15)
      else 0)"

definition is_contextual :: "OpCode \<Rightarrow> bool" where
  "is_contextual op \<longleftrightarrow> op \<in> {MultiPacket, Disconnect, Heartbeat, NetStatusRequest,
     NetStatusResponse, ReliableData, ReliableDataFragment, Acknowledge, AcknowledgeAll}"

section \<open>Check values\<close>

definition append_crc ::
    "bytes \<Rightarrow> nat \<Rightarrow> crc32 \<Rightarrow> u8 \<Rightarrow> (error + bytes \<times> nat) option" where
  "append_crc buffer written crc crc_length =
     (if crc_length = 0 then Some (Inr (buffer, written))
      else let crc_length = unat crc_length in
        if length buffer < written + crc_length then
          Some (Inl (BufferTooShort (written + crc_length) (length buffer)))
        else do {
          let hash = be32 (crc32_hash crc (take written buffer));
          start \<leftarrow> usize_sub 4 crc_length;
          let buffer = take written buffer @ drop start hash @ drop (written + crc_length) buffer;
          Some (Inr (buffer, written + crc_length))
        })"

definition contextual_padding :: "bool \<Rightarrow> u8 \<Rightarrow> nat" where
  "contextual_padding is_compression_enabled crc_length =
     OP_CODE_SIZE + (if is_compression_enabled then 1 else 0) + unat crc_length"

fun packet_minimum_length :: "OpCode \<Rightarrow> bool \<Rightarrow> u8 \<Rightarrow> nat" where
  "packet_minimum_length SessionRequest c l = SESSION_REQUEST_MIN_SIZE"
| "packet_minimum_length SessionResponse c l = SESSION_RESPONSE_SIZE"
| "packet_minimum_length MultiPacket c l = contextual_padding c l + 2"
| "packet_minimum_length Disconnect c l = contextual_padding c l + DISCONNECT_SIZE"
| "packet_minimum_length Heartbeat c l = contextual_padding c l"
| "packet_minimum_length NetStatusRequest c l = contextual_padding c l"
| "packet_minimum_length NetStatusResponse c l = contextual_padding c l"
| "packet_minimum_length ReliableData c l = contextual_padding c l + 2 + 1"
| "packet_minimum_length ReliableDataFragment c l = contextual_padding c l + 2 + 1"
| "packet_minimum_length Acknowledge c l = contextual_padding c l + ACKNOWLEDGE_SIZE"
| "packet_minimum_length AcknowledgeAll c l = contextual_padding c l + ACKNOWLEDGE_ALL_SIZE"
| "packet_minimum_length UnknownSender c l = UNKNOWN_SENDER_SIZE"
| "packet_minimum_length RemapConnection c l = REMAP_CONNECTION_SIZE"

definition validate_packet ::
    "bytes \<Rightarrow> crc32 \<Rightarrow> u8 \<Rightarrow> bool \<Rightarrow> (ValidationResult \<times> OpCode option) option" where
  "validate_packet packet_data crc crc_length is_compression_enabled =
     (if length packet_data < OP_CODE_SIZE then Some (TooShort, None)
      else case read_op_code packet_data of
        None \<Rightarrow> Some (InvalidOpCode, None)
      | Some op \<Rightarrow>
          let minimum_length = packet_minimum_length op is_compression_enabled crc_length in
          if length packet_data < minimum_length then Some (TooShort, Some op)
          else if is_contextless op \<or> crc_length = 0 then Some (Valid, Some op)
          else let crc_length = unat crc_length in do {
            split \<leftarrow> usize_sub (length packet_data) crc_length;
            body \<leftarrow> slice_to packet_data split;
            let expected = be32 (crc32_hash crc body);
            actual \<leftarrow> slice_from packet_data split;
            start \<leftarrow> usize_sub 4 crc_length;
            if drop start expected = actual then Some (Valid, Some op)
            else Some (CrcMismatch, Some op)
          })"

section \<open>Module \<open>multi\<close>\<close>

lemma and_then_cong [fundef_cong]:
  "m = m' \<Longrightarrow> (\<And>x. m' = Inr x \<Longrightarrow> f x = g x) \<Longrightarrow> and_then m f = and_then m' g"
  by (cases m') simp_all

function unpack_loop :: "binary_reader \<Rightarrow> bytes list \<Rightarrow> error + bytes list" where
  "unpack_loop reader out =
     (if reader_remaining reader > 0 then
        and_then (mp_read reader) (\<lambda>(len, reader).
          let len = unat len in
          if len < OP_CODE_SIZE \<or> reader_remaining reader < len then Inl (OutOfRange len)
          else and_then (read_bytes reader len) (\<lambda>(p, reader).
            unpack_loop reader (out @ [p])))
      else Inr out)"
  by pat_completeness auto
termination
  by (relation "measure (\<lambda>(r, _). length (remaining_bytes r))")
    (auto simp: read_bytes_eq dest!: mp.rd_remaining_less split: if_splits)

declare unpack_loop.simps [simp del]

definition unpack :: "bytes \<Rightarrow> error + bytes list" where
  "unpack payload = unpack_loop (reader_new payload) []"

definition packed_size :: "bytes list \<Rightarrow> nat" where
  "packed_size sub_packets =
     sum_list (map (\<lambda>p. mp_encoded_size (of_nat (length p)) + length p) sub_packets)"

primrec pack_loop :: "binary_writer \<Rightarrow> bytes list \<Rightarrow> error + binary_writer" where
  "pack_loop w [] = Inr w"
| "pack_loop w (p # ps) =
     and_then (mp_write w (of_nat (length p))) (\<lambda>w.
     and_then (write_bytes w p) (\<lambda>w. pack_loop w ps))"

definition pack :: "bytes list \<Rightarrow> bytes \<Rightarrow> error + bytes \<times> nat" where
  "pack sub_packets buffer =
     and_then (pack_loop (writer_new buffer) sub_packets) finish"

section \<open>Classification lemmas\<close>

text \<open>The OP codes with a range of four wire values, one for each reliable channel.\<close>

definition has_channels :: "OpCode \<Rightarrow> bool" where
  "has_channels op \<longleftrightarrow> op \<in> {ReliableData, ReliableDataFragment, Acknowledge, AcknowledgeAll}"

lemma range_diff_less:
  "(a :: u16) \<le> v \<Longrightarrow> v \<le> b \<Longrightarrow> unat b - unat a < n \<Longrightarrow> unat (v - a) < n"
  by (simp add: unat_sub word_le_nat_alt)

lemma if_lessI: "(c \<Longrightarrow> a < n) \<Longrightarrow> (\<not> c \<Longrightarrow> b < n) \<Longrightarrow> (if c then a else b) < (n :: nat)"
  by simp

lemma reliable_channel_less: "reliable_channel raw < RELIABLE_CHANNEL_COUNT"
  unfolding reliable_channel_def RELIABLE_CHANNEL_COUNT_def
proof (intro if_lessI)
  show "unat (raw - 0x09) < 4" if "0x09 \<le> raw \<and> raw \<le> 0x0C"
    using that by (intro range_diff_less [of _ _ "0x0C"]) simp_all
  show "unat (raw - 0x0D) < 4" if "0x0D \<le> raw \<and> raw \<le> 0x10"
    using that by (intro range_diff_less [of _ _ "0x10"]) simp_all
  show "unat (raw - 0x11) < 4" if "0x11 \<le> raw \<and> raw \<le> 0x14"
    using that by (intro range_diff_less [of _ _ "0x14"]) simp_all
  show "unat (raw - 0x15) < 4" if "0x15 \<le> raw \<and> raw \<le> 0x18"
    using that by (intro range_diff_less [of _ _ "0x18"]) simp_all
qed simp

lemma op_of_channel:
  assumes "has_channels op" and "ch < RELIABLE_CHANNEL_COUNT"
  shows "op_from_u16 (op_as_u16 op + of_nat ch) = Some op \<and>
    reliable_channel (op_as_u16 op + of_nat ch) = ch"
proof -
  have "\<forall>op\<in>set [ReliableData, ReliableDataFragment, Acknowledge, AcknowledgeAll].
      \<forall>ch\<in>set [0, 1, 2, 3]. op_from_u16 (op_as_u16 op + of_nat ch) = Some op \<and>
        reliable_channel (op_as_u16 op + of_nat ch) = ch"
    by code_simp
  moreover have "ch \<in> set [0, 1, 2, 3]"
    using assms(2) by (auto simp: RELIABLE_CHANNEL_COUNT_def)
  moreover have "op \<in> set [ReliableData, ReliableDataFragment, Acknowledge, AcknowledgeAll]"
    using assms(1) by (simp add: has_channels_def)
  ultimately show ?thesis by blast
qed

lemma add_unat_diff: "(a :: u16) + of_nat (unat (v - a)) = v"
  by simp

lemma op_from_channel:
  assumes "op_from_u16 raw = Some op"
  shows "raw = op_as_u16 op + of_nat (reliable_channel raw)"
proof (cases "has_channels op")
  case True
  with assms show ?thesis
    by (auto simp: op_from_u16_def reliable_channel_def has_channels_def split: if_splits)
next
  case False
  with assms have "raw = op_as_u16 op" and "\<not> 0x09 \<le> raw \<or> 0x18 < raw"
    by (auto simp: op_from_u16_def has_channels_def word_le_nat_alt word_less_nat_alt
        split: if_splits)
  then show ?thesis
    by (auto simp: reliable_channel_def word_le_nat_alt word_less_nat_alt)
qed

lemma contextual_or_contextless: "is_contextual op \<or> is_contextless op"
  by (cases op) (simp_all add: is_contextual_def)

section \<open>Check value lemmas\<close>

lemma read_op_code_Cons [simp]: "read_op_code (a # b # bs) = op_from_u16 (of_be16 a b)"
  by (simp add: read_op_code_def OP_CODE_SIZE_def)

lemma read_op_code_be16 [simp]: "read_op_code (be16 v @ bs) = op_from_u16 v"
  by (simp add: be16_def)

lemma read_op_code_short: "length bs < 2 \<Longrightarrow> read_op_code bs = None"
  by (simp add: read_op_code_def OP_CODE_SIZE_def)

lemma read_op_code_append:
  "2 \<le> length bs \<Longrightarrow> read_op_code (bs @ cs) = read_op_code bs"
  by (auto simp: length_ge_2_conv)

lemma read_op_code_Some_length: "read_op_code bs = Some op \<Longrightarrow> 2 \<le> length bs"
  by (rule ccontr) (simp add: read_op_code_def OP_CODE_SIZE_def)

lemma unat_eq_0_u8 [simp]: "unat (l :: u8) = 0 \<longleftrightarrow> l = 0"
  by (simp add: unat_eq_0)

text \<open>The check value of a body: the low bytes of its hash.\<close>

definition check_value :: "crc32 \<Rightarrow> u8 \<Rightarrow> bytes \<Rightarrow> bytes" where
  "check_value crc l body = (if l = 0 then [] else drop (4 - unat l) (be32 (crc32_hash crc body)))"

lemma length_check_value [simp]: "unat l \<le> 4 \<Longrightarrow> length (check_value crc l body) = unat l"
  by (simp add: check_value_def)

lemma append_crc_eq:
  assumes "unat l \<le> 4" and "n \<le> length buf"
  shows "append_crc buf n crc l =
    (if n + unat l \<le> length buf
     then Some (Inr (take n buf @ check_value crc l (take n buf) @ drop (n + unat l) buf,
                     n + unat l))
     else Some (Inl (BufferTooShort (n + unat l) (length buf))))"
  using assms by (simp add: append_crc_def check_value_def Let_def)

lemma replicate_numerals: "replicate 2 x = [x, x]" "replicate 4 x = [x, x, x, x]"
  by (simp_all add: eval_nat_numeral)

text \<open>The framing pattern of the session: the body, zero space for the check value, and the
  check value written over it.\<close>

lemma append_crc_frame:
  assumes "unat l \<le> 4"
  shows "append_crc (body @ replicate (unat l) 0) (length body) crc l =
    Some (Inr (body @ check_value crc l body, length body + unat l))"
  using append_crc_eq [of l "length body" "body @ replicate (unat l) 0" crc] assms by simp

lemma append_crc_panics:
  "4 < unat l \<Longrightarrow> n + unat l \<le> length buf \<Longrightarrow> append_crc buf n crc l = None"
  by (auto simp: append_crc_def Let_def)

lemma minimum_length_ge:
  "\<not> is_contextless op \<Longrightarrow> 2 + unat l \<le> packet_minimum_length op c l"
  by (cases op) (simp_all add: contextual_padding_def OP_CODE_SIZE_def)

lemma minimum_length_ge_2: "2 \<le> packet_minimum_length op c l"
  by (cases op) (simp_all add: contextual_padding_def size_defs)

text \<open>Validation of a body and what follows it.\<close>

lemma validate_packet_eq:
  assumes "read_op_code packet = Some op" and "unat l \<le> 4"
  shows "validate_packet packet crc l c =
    (if length packet < packet_minimum_length op c l then Some (TooShort, Some op)
     else if is_contextless op \<or>
       check_value crc l (take (length packet - unat l) packet) = drop (length packet - unat l) packet
     then Some (Valid, Some op) else Some (CrcMismatch, Some op))"
proof -
  have "unat l \<le> length packet" if "packet_minimum_length op c l \<le> length packet"
      and "\<not> is_contextless op"
    using minimum_length_ge [OF that(2), of l c] that(1) by simp
  with assms read_op_code_Some_length [OF assms(1)] show ?thesis
    by (auto simp: validate_packet_def check_value_def Let_def OP_CODE_SIZE_def)
qed

lemma validate_framed:
  assumes "read_op_code body = Some op" and "unat l \<le> 4"
    and "length cv = unat l" and "packet_minimum_length op c l \<le> length body + unat l"
  shows "validate_packet (body @ cv) crc l c =
    (if is_contextless op \<or> cv = check_value crc l body then Some (Valid, Some op)
     else Some (CrcMismatch, Some op))"
proof -
  have "read_op_code (body @ cv) = Some op"
    using assms(1) read_op_code_append [of body cv] read_op_code_Some_length [OF assms(1)] by simp
  with assms show ?thesis by (auto simp: validate_packet_eq)
qed

lemma validate_total: "unat l \<le> 4 \<Longrightarrow> \<exists>v. validate_packet packet crc l c = Some v"
proof (cases "read_op_code packet")
  case None
  then show ?thesis by (auto simp: validate_packet_def)
qed (auto simp: validate_packet_eq)

lemma validate_Valid:
  assumes "validate_packet packet crc l c = Some (Valid, op)"
  shows "\<exists>code. op = Some code \<and> read_op_code packet = Some code \<and>
    packet_minimum_length code c l \<le> length packet"
  using assms
  by (auto simp: validate_packet_def Let_def bind_eq_Some_iff split: if_splits option.splits)

section \<open>Bundle lemmas\<close>

definition multi_bytes :: "bytes list \<Rightarrow> bytes" where
  "multi_bytes ps = concat (map (\<lambda>p. mp_bytes (of_nat (length p)) @ p) ps)"

text \<open>What a bundle can hold: packets with an OP code, whose high byte is zero.\<close>

definition sub_packet_ok :: "bytes \<Rightarrow> bool" where
  "sub_packet_ok p \<longleftrightarrow> 2 \<le> length p \<and> length p < 2 ^ 32 \<and> hd p = 0"

lemma multi_bytes_simps [simp]:
  "multi_bytes [] = []"
  "multi_bytes (p # ps) = mp_bytes (of_nat (length p)) @ p @ multi_bytes ps"
  by (simp_all add: multi_bytes_def)

lemma copy_in_Nil [simp]: "copy_in [] w = w"
  by (simp add: copy_in_def)

lemma sub_packet_follows: "sub_packet_ok p \<Longrightarrow> mp_follows (of_nat (length p)) (p @ bs)"
  by (cases p) (auto simp: sub_packet_ok_def mp_follows_def)

lemma unpack_loop_bytes:
  "remaining_bytes r = multi_bytes ps \<Longrightarrow> list_all sub_packet_ok ps \<Longrightarrow>
     unpack_loop r out = Inr (out @ ps)"
proof (induction ps arbitrary: r out)
  case (Cons p ps)
  have ok: "sub_packet_ok p" and rem: "remaining_bytes r = mp_bytes (of_nat (length p)) @ p @ multi_bytes ps"
    using Cons.prems by simp_all
  obtain r1 where r1: "mp_read r = Inr (of_nat (length p), r1)"
    "remaining_bytes r1 = p @ multi_bytes ps" "unat (of_nat (length p) :: u32) = length p"
    using sub_packet_follows [OF ok] ok unfolding sub_packet_ok_def
    by (blast intro: mp.rd_frame [OF rem])
  have "0 < reader_remaining r" and "2 \<le> length p"
    using ok by (auto simp: rem reader_remaining_eq sub_packet_ok_def)
  moreover have "read_bytes r1 (length p) = Inr (p, advance (length p) r1)"
    by (simp add: read_bytes_eq r1(2))
  moreover have "length p \<le> reader_remaining r1" by (simp add: reader_remaining_eq r1(2))
  ultimately have "unpack_loop r out = unpack_loop (advance (length p) r1) (out @ [p])"
    by (subst unpack_loop.simps) (simp add: r1(1,3) OP_CODE_SIZE_def not_less)
  also have "\<dots> = Inr (out @ p # ps)"
    using Cons.IH [of "advance (length p) r1" "out @ [p]"] Cons.prems by (simp add: r1(2))
  finally show ?case .
qed (simp add: unpack_loop.simps reader_remaining_eq)

lemma pack_loop_eq:
  "writer_ok w \<Longrightarrow> length (multi_bytes ps) \<le> writer_remaining w \<Longrightarrow>
     pack_loop w ps = Inr (copy_in (multi_bytes ps) w)"
proof (induction ps arbitrary: w)
  case (Cons p ps)
  then show ?case by (simp add: mp.wr_enc write_eqs)
qed simp

lemma packed_size_eq: "packed_size ps = length (multi_bytes ps)"
  by (induction ps) (simp_all add: packed_size_def mp_encoded_size_eq)

lemma unpack_multi_bytes:
  "list_all sub_packet_ok ps \<Longrightarrow> unpack (multi_bytes ps) = Inr ps"
  using unpack_loop_bytes [of "reader_new (multi_bytes ps)" ps "[]"] by (simp add: unpack_def)

text \<open>Whatever is unpacked, every sub-packet carries at least an OP code.\<close>

lemma unpack_loop_step:
  assumes "unpack_loop r out = Inr ps" and "0 < reader_remaining r"
  obtains len r1 p where "mp_read r = Inr (len, r1)" and "2 \<le> unat len"
    and "unat len \<le> reader_remaining r1" and "p = take (unat len) (remaining_bytes r1)"
    and "unpack_loop (advance (unat len) r1) (out @ [p]) = Inr ps"
proof -
  from assms obtain len r1 where 1: "mp_read r = Inr (len, r1)"
    by (subst (asm) unpack_loop.simps) (auto simp: and_then_eq_Inr)
  with assms have "2 \<le> unat len \<and> unat len \<le> reader_remaining r1 \<and>
      and_then (read_bytes r1 (unat len)) (\<lambda>(p, r). unpack_loop r (out @ [p])) = Inr ps"
    by (subst (asm) unpack_loop.simps) (simp add: OP_CODE_SIZE_def not_less Let_def split: if_splits)
  with 1 show thesis by (intro that) (auto simp: read_bytes_eq reader_remaining_eq)
qed

lemma unpack_loop_sizes:
  "unpack_loop r out = Inr ps \<Longrightarrow> list_all (\<lambda>p. 2 \<le> length p) out \<Longrightarrow>
     list_all (\<lambda>p. 2 \<le> length p) ps"
proof (induction "length (remaining_bytes r)" arbitrary: r out rule: less_induct)
  case less
  show ?case
  proof (cases "0 < reader_remaining r")
    case True
    from less.prems(1) True obtain len r1 p where 1: "mp_read r = Inr (len, r1)"
      "2 \<le> unat len" "unat len \<le> reader_remaining r1" "p = take (unat len) (remaining_bytes r1)"
      "unpack_loop (advance (unat len) r1) (out @ [p]) = Inr ps"
      by (rule unpack_loop_step)
    have "length (remaining_bytes (advance (unat len) r1)) < length (remaining_bytes r)"
      using mp.rd_remaining_less [OF 1(1)] by simp
    from less.hyps [OF this 1(5)] less.prems(2) 1(2,3,4) show ?thesis
      by (simp add: reader_remaining_eq)
  next
    case False
    with less.prems show ?thesis by (simp add: unpack_loop.simps)
  qed
qed

section \<open>Properties\<close>

text \<open>The OP codes with channels and their four channels correspond one to one to
  ranges of wire values: a wire value is decoded to the OP code and the channel it was built
  from, and every wire value that decodes is its OP code's base plus its channel.\<close>

theorem op_code_channel_ranges:
  "(has_channels op \<and> ch < RELIABLE_CHANNEL_COUNT \<longrightarrow>
     op_from_u16 (op_as_u16 op + of_nat ch) = Some op \<and>
     reliable_channel (op_as_u16 op + of_nat ch) = ch) \<and>
   (op_from_u16 raw = Some op' \<longrightarrow>
     raw = op_as_u16 op' + of_nat (reliable_channel raw) \<and>
     reliable_channel raw < RELIABLE_CHANNEL_COUNT)"
  using op_of_channel op_from_channel reliable_channel_less by blast

theorem op_code_channel_ranges_witness:
  "op_from_u16 0x0B = Some ReliableData \<and> reliable_channel 0x0B = 2"
  using op_code_channel_ranges [of ReliableData 2 "0x0B" ReliableData]
  by (simp add: has_channels_def RELIABLE_CHANNEL_COUNT_def)

text \<open>C25: A packet framed with a check value of at most four bytes validates under the
  same key and length, with the OP code it starts with.\<close>

theorem framed_packet_validates:
  assumes "unat crc_length \<le> 4" and "read_op_code (take n buf) = Some op"
    and "append_crc buf n crc crc_length = Some (Inr (out, m))"
    and "packet_minimum_length op compressed crc_length \<le> m" and "n \<le> length buf"
  shows "validate_packet (take m out) crc crc_length compressed = Some (Valid, Some op)"
proof -
  have "m = n + unat crc_length" and
    "take m out = take n buf @ check_value crc crc_length (take n buf)"
    using assms(1,3,5) by (auto simp: append_crc_eq split: if_splits)
  then show ?thesis
    using assms validate_framed [OF assms(2,1), of "check_value crc crc_length (take n buf)"]
    by simp
qed

theorem framed_packet_validates_witness:
  "validate_packet (take 4 ([0, 6] @ check_value (crc32_new 9) 2 [0, 6])) (crc32_new 9) 2 False =
     Some (Valid, Some Heartbeat)"
proof (rule framed_packet_validates)
  show "append_crc [0, 6, 0, 0] 2 (crc32_new 9) 2 =
      Some (Inr ([0, 6] @ check_value (crc32_new 9) 2 [0, 6], 4))"
    using append_crc_eq [of 2 2 "[0, 6, 0, 0]" "crc32_new 9"] by simp
qed (simp_all add: op_from_u16_def of_be16_def contextual_padding_def OP_CODE_SIZE_def)

text \<open>C24: With a check value of four bytes, changing up to four consecutive bytes of a
  contextual packet's body after its OP code is always reported as a CRC mismatch.\<close>

theorem corrupted_burst_rejected:
  assumes "read_op_code (xs @ ds @ ys) = Some op" and "\<not> is_contextless op"
    and "2 \<le> length xs" and "length ds = length es" and "length ds \<le> 4" and "ds \<noteq> es"
    and "packet_minimum_length op compressed 4 \<le> length xs + length ds + length ys + 4"
    and "append_crc (xs @ ds @ ys @ [0, 0, 0, 0]) (length (xs @ ds @ ys)) crc 4 = Some (Inr (out, m))"
  shows "\<exists>cv. out = xs @ ds @ ys @ cv \<and>
    validate_packet (xs @ es @ ys @ cv) crc 4 compressed = Some (CrcMismatch, Some op)"
proof -
  let ?cv = "check_value crc 4"
  have cv: "?cv b = be32 (crc32_hash crc b)" for b by (simp add: check_value_def)
  have "out = xs @ ds @ ys @ ?cv (xs @ ds @ ys)"
    using assms(8) append_crc_frame [of 4 "xs @ ds @ ys" crc] by (simp add: replicate_numerals)
  moreover have "?cv (xs @ ds @ ys) \<noteq> ?cv (xs @ es @ ys)"
    using crc32_burst [OF assms(4-6)] by (simp add: cv)
  moreover have "read_op_code (xs @ es @ ys) = Some op"
    using assms(1,3) by (simp add: read_op_code_append)
  ultimately show ?thesis
    using assms(2,4,7) validate_framed [of "xs @ es @ ys" op 4 "?cv (xs @ ds @ ys)" compressed crc]
    by simp
qed

theorem corrupted_burst_rejected_witness:
  "\<exists>cv. validate_packet ([0, 5] @ [0, 0] @ [0, 7, 0, 6] @ cv) (crc32_new 9) 4 False =
     Some (CrcMismatch, Some Disconnect)"
proof -
  have "append_crc ([0, 5] @ [1, 0] @ [0, 7, 0, 6] @ [0, 0, 0, 0])
      (length ([0, 5] @ [1, 0] @ [0 :: u8, 7, 0, 6])) (crc32_new 9) 4 =
    Some (Inr ([0, 5, 1, 0, 0, 7, 0, 6] @ check_value (crc32_new 9) 4 [0, 5, 1, 0, 0, 7, 0, 6], 12))"
    using append_crc_frame [of 4 "[0, 5, 1, 0, 0, 7, 0, 6]" "crc32_new 9"]
    by (simp add: replicate_numerals)
  from corrupted_burst_rejected [OF _ _ _ _ _ _ _ this, of Disconnect "[0, 0]" False]
  show ?thesis
    by (auto simp: op_from_u16_def of_be16_def contextual_padding_def OP_CODE_SIZE_def
        DISCONNECT_SIZE_def)
qed

text \<open>Sub-packets that begin with an OP code, packed into a buffer that is large
  enough, unpack to themselves; the number of bytes written is the size announced.\<close>

theorem multi_packet_pack_unpack:
  assumes "list_all sub_packet_ok ps" and "packed_size ps \<le> length buf"
  shows "\<exists>out. pack ps buf = Inr (out, packed_size ps) \<and> length out = length buf \<and>
    unpack (take (packed_size ps) out) = Inr ps"
  using assms unpack_multi_bytes [OF assms(1)]
  by (simp add: pack_def pack_loop_eq packed_size_eq finish_def)

theorem multi_packet_pack_unpack_witness:
  "\<exists>out. pack [[0, 6], [0, 5, 9]] (replicate 9 0) = Inr (out, packed_size [[0, 6], [0, 5, 9]]) \<and>
     length out = length (replicate 9 (0 :: u8)) \<and>
     unpack (take (packed_size [[0, 6], [0, 5, 9]]) out) = Inr [[0, 6], [0, 5, 9]]"
  by (rule multi_packet_pack_unpack)
    (simp_all add: sub_packet_ok_def packed_size_def mp_encoded_size_def)

text \<open>C33: Validation panics exactly when the check value is longer than four bytes and the packet
  is compared with one: a contextual packet at least as long as its minimum. Contextless packets,
  packets without an OP code and packets that are too short get their verdict whatever the length.\<close>

theorem validate_panics_iff:
  "validate_packet packet crc crc_length compressed = None \<longleftrightarrow>
     4 < unat crc_length \<and>
     (\<exists>op. read_op_code packet = Some op \<and> \<not> is_contextless op \<and>
       packet_minimum_length op compressed crc_length \<le> length packet)"
proof (cases "read_op_code packet")
  case None
  then show ?thesis by (simp add: validate_packet_def)
next
  case (Some op)
  show ?thesis
  proof (cases "4 < unat crc_length \<and> \<not> is_contextless op \<and>
      packet_minimum_length op compressed crc_length \<le> length packet")
    case True
    then have "crc_length \<noteq> 0" by auto
    with True Some read_op_code_Some_length [OF Some]
      minimum_length_ge [of op crc_length compressed]
    show ?thesis by (auto simp: validate_packet_def Let_def OP_CODE_SIZE_def bind_eq_None_conv)
  next
    case False
    then show ?thesis
      using Some validate_total [of crc_length packet crc compressed]
      by (auto simp: validate_packet_def Let_def not_le not_less)
  qed
qed

end
