(* ===== verification/Soe_Session.thy ===== *)
theory Soe_Session
  imports Soe_Packet_Utils Soe_Output Soe_Input
begin

text \<open>
  The session state machine (\<open>src/session.rs\<close>): negotiation, dispatch of contextual packets
  to the reliable channels, unreliable data, heartbeats and termination. Every operation
  returns the new session, or \<open>None\<close> where the code panics. Decompression is code of an
  external crate and a parameter, \<open>inflate\<close>.
\<close>

section \<open>State\<close>

definition DEFAULT_ACK_WAIT :: duration where "DEFAULT_ACK_WAIT = from_millis 500"

datatype SessionMode = Client | Server
datatype SessionState = Negotiating | Running | Terminated
datatype SessionEvent = Opened | Closed DisconnectReason
datatype Channel = Reliable nat | Unreliable

record received_data =
  rc_data :: bytes
  rc_channel :: Channel

record session_parameters =
  application_protocol :: bytes
  udp_length :: u32
  remote_udp_length :: u32
  crc_seed :: u32
  crc_length :: u8
  is_compression_enabled :: bool
  max_queued_incoming_reliable :: u16
  max_queued_outgoing_reliable :: u16
  sp_data_ack_window :: u16
  heartbeat_after :: duration
  inactivity_timeout :: duration
  sp_acknowledge_all_data :: bool
  sp_max_ack_delay :: duration

definition session_parameters_default :: session_parameters where
  "session_parameters_default =
     \<lparr>application_protocol = [], udp_length = DEFAULT_UDP_LENGTH,
      remote_udp_length = DEFAULT_UDP_LENGTH, crc_seed = 0, crc_length = CRC_LENGTH,
      is_compression_enabled = False, max_queued_incoming_reliable = 256,
      max_queued_outgoing_reliable = 196, sp_data_ack_window = 32,
      heartbeat_after = DEFAULT_SESSION_HEARTBEAT_AFTER,
      inactivity_timeout = DEFAULT_SESSION_INACTIVITY_TIMEOUT,
      sp_acknowledge_all_data = False, sp_max_ack_delay = from_millis 2\<rparr>"

text \<open>The linear congruential generator.\<close>

definition lcg_new :: "u64 \<Rightarrow> u64" where
  "lcg_new seed = seed XOR 0x9E3779B97F4A7C15"

definition next_u32 :: "u64 \<Rightarrow> u32 \<times> u64" where
  "next_u32 state =
     (let state = state * 6364136223846793005 + 1442695040888963407 in
      (ucast (drop_bit 32 state), state))"

record session =
  ss_mode :: SessionMode
  ss_state :: SessionState
  ss_params :: session_parameters
  ss_inputs :: "input_channel option list"
  ss_outputs :: "output_channel option list"
  ss_cipher :: "rc4_key_state option"
  ss_session_id :: u32
  termination_reason :: DisconnectReason
  terminated_by_remote :: bool
  open_session_on_next_packet :: bool
  last_received :: instant
  ss_rng :: u64
  ss_outgoing :: "bytes list"
  ss_received :: "received_data list"
  ss_events :: "SessionEvent list"

definition session_new ::
    "SessionMode \<Rightarrow> session_parameters \<Rightarrow> rc4_key_state option \<Rightarrow> u64 \<Rightarrow> instant \<Rightarrow> session" where
  "session_new mode params cipher rng_seed now =
     \<lparr>ss_mode = mode, ss_state = Negotiating, ss_params = params,
      ss_inputs = replicate RELIABLE_CHANNEL_COUNT None,
      ss_outputs = replicate RELIABLE_CHANNEL_COUNT None, ss_cipher = cipher,
      ss_session_id = 0, termination_reason = NoReason, terminated_by_remote = False,
      open_session_on_next_packet = False, last_received = now, ss_rng = lcg_new rng_seed,
      ss_outgoing = [], ss_received = [], ss_events = []\<rparr>"

definition take_outgoing :: "session \<Rightarrow> bytes list \<times> session" where
  "take_outgoing s = (ss_outgoing s, s\<lparr>ss_outgoing := []\<rparr>)"

definition take_received :: "session \<Rightarrow> received_data list \<times> session" where
  "take_received s = (ss_received s, s\<lparr>ss_received := []\<rparr>)"

definition take_events :: "session \<Rightarrow> SessionEvent list \<times> session" where
  "take_events s = (ss_events s, s\<lparr>ss_events := []\<rparr>)"

definition push_outgoing :: "bytes \<Rightarrow> session \<Rightarrow> session" where
  "push_outgoing dg s = s\<lparr>ss_outgoing := ss_outgoing s @ [dg]\<rparr>"

definition push_event :: "SessionEvent \<Rightarrow> session \<Rightarrow> session" where
  "push_event e s = s\<lparr>ss_events := ss_events s @ [e]\<rparr>"

definition push_received :: "bytes \<Rightarrow> Channel \<Rightarrow> session \<Rightarrow> session" where
  "push_received d ch s = s\<lparr>ss_received := ss_received s @ [\<lparr>rc_data = d, rc_channel = ch\<rparr>]\<rparr>"

section \<open>Channels\<close>

definition session_max_data_length :: "session_parameters \<Rightarrow> nat option" where
  "session_max_data_length p = do {
     n \<leftarrow> usize_sub (unat (udp_length p)) OP_CODE_SIZE;
     n \<leftarrow> usize_sub n (if is_compression_enabled p then 1 else 0);
     usize_sub n (unat (crc_length p))
   }"

definition input_channel_config :: "session_parameters \<Rightarrow> input_config" where
  "input_channel_config p =
     \<lparr>max_queued_incoming = max_queued_incoming_reliable p,
      acknowledge_all_data = sp_acknowledge_all_data p, data_ack_window = sp_data_ack_window p,
      max_ack_delay = sp_max_ack_delay p\<rparr>"

text \<open>The channel of an index, created on first use.\<close>

definition session_input_channel :: "session \<Rightarrow> nat \<Rightarrow> instant \<Rightarrow> input_channel option" where
  "session_input_channel s ch now = do {
     slot \<leftarrow> index (ss_inputs s) ch;
     Some (case slot of
         Some c \<Rightarrow> c
       | None \<Rightarrow> input_new (input_channel_config (ss_params s)) (ss_cipher s) now)
   }"

definition session_output_channel :: "session \<Rightarrow> nat \<Rightarrow> instant \<Rightarrow> output_channel option" where
  "session_output_channel s ch now = do {
     slot \<leftarrow> index (ss_outputs s) ch;
     case slot of
       Some c \<Rightarrow> Some c
     | None \<Rightarrow> do {
         n \<leftarrow> session_max_data_length (ss_params s);
         Some (output_new \<lparr>max_data_length = n,
             max_queued_outgoing = unat (max_queued_outgoing_reliable (ss_params s)),
             ack_wait = DEFAULT_ACK_WAIT\<rparr> (ss_cipher s) now)
       }
   }"

definition set_input :: "nat \<Rightarrow> input_channel \<Rightarrow> session \<Rightarrow> session" where
  "set_input ch c s = s\<lparr>ss_inputs := (ss_inputs s)[ch := Some c]\<rparr>"

definition set_output :: "nat \<Rightarrow> output_channel \<Rightarrow> session \<Rightarrow> session" where
  "set_output ch c s = s\<lparr>ss_outputs := (ss_outputs s)[ch := Some c]\<rparr>"

section \<open>Framing\<close>

definition frame_unreliable :: "session \<Rightarrow> bytes \<Rightarrow> bytes option" where
  "frame_unreliable s payload = do {
     first \<leftarrow> index payload 0;
     let escape = first = 0;
     let capacity = (if escape then 1 else 0) + length payload + unat (crc_length (ss_params s));
     let w = writer_new (replicate capacity 0);
     w \<leftarrow> (if escape then expect (write_u8 w 0) else Some w);
     w \<leftarrow> expect (write_bytes w payload);
     r \<leftarrow> append_crc (wr_data w) (wr_offset w) (crc32_new (crc_seed (ss_params s)))
           (crc_length (ss_params s));
     (buf, total) \<leftarrow> expect r;
     Some (take total buf)
   }"

definition frame_contextual_raw :: "session \<Rightarrow> u16 \<Rightarrow> bytes \<Rightarrow> bytes option" where
  "frame_contextual_raw s raw_op payload = do {
     let p = ss_params s;
     let capacity = OP_CODE_SIZE + (if is_compression_enabled p then 1 else 0) + length payload +
           unat (crc_length p);
     w \<leftarrow> expect (write_u16 (writer_new (replicate capacity 0)) raw_op);
     w \<leftarrow> (if is_compression_enabled p then expect (write_bool w False) else Some w);
     w \<leftarrow> expect (write_bytes w payload);
     r \<leftarrow> append_crc (wr_data w) (wr_offset w) (crc32_new (crc_seed p)) (crc_length p);
     (buf, total) \<leftarrow> expect r;
     Some (take total buf)
   }"

definition frame_contextual :: "session \<Rightarrow> OpCode \<Rightarrow> bytes \<Rightarrow> bytes option" where
  "frame_contextual s op payload = frame_contextual_raw s (op_as_u16 op) payload"

section \<open>Flushing and termination\<close>

primrec push_frames :: "(u16 \<times> bytes) list \<Rightarrow> session \<Rightarrow> session option" where
  "push_frames [] s = Some s"
| "push_frames (f # fs) s = do {
     dg \<leftarrow> frame_contextual_raw s (fst f) (snd f);
     push_frames fs (push_outgoing dg s)
   }"

primrec push_app_data :: "nat \<Rightarrow> bytes list \<Rightarrow> session \<Rightarrow> session" where
  "push_app_data ch [] s = s"
| "push_app_data ch (d # ds) s = push_app_data ch ds (push_received d (Reliable ch) s)"

definition flush_acks :: "nat \<Rightarrow> session \<Rightarrow> session option" where
  "flush_acks ch s = (case ss_inputs s ! ch of
      None \<Rightarrow> Some s
    | Some input \<Rightarrow>
        let (acks, input) = input_take_outgoing input in
        push_frames (map (\<lambda>a. (op_as_u16 (oc_op_code a) + of_nat ch, be16 (oc_sequence a))) acks)
          (set_input ch input s))"

definition flush_packets :: "nat \<Rightarrow> session \<Rightarrow> session option" where
  "flush_packets ch s = (case ss_outputs s ! ch of
      None \<Rightarrow> Some s
    | Some output \<Rightarrow>
        let (packets, output) = output_take_outgoing output in
        push_frames (map (\<lambda>p. (op_as_u16 (or_op_code p) + of_nat ch, or_payload p)) packets)
          (set_output ch output s))"

definition flush_app_data :: "nat \<Rightarrow> session \<Rightarrow> session" where
  "flush_app_data ch s = (case ss_inputs s ! ch of
      None \<Rightarrow> s
    | Some input \<Rightarrow>
        let (app_data, input) = take_app_data input in
        push_app_data ch app_data (set_input ch input s))"

definition flush_channel :: "nat \<Rightarrow> session \<Rightarrow> session option" where
  "flush_channel ch s = do {
     s \<leftarrow> flush_acks ch s;
     s \<leftarrow> flush_packets ch s;
     Some (flush_app_data ch s)
   }"

primrec flush_list :: "nat list \<Rightarrow> session \<Rightarrow> session option" where
  "flush_list [] s = Some s"
| "flush_list (ch # chs) s = Option.bind (flush_channel ch s) (flush_list chs)"

definition flush_channels :: "session \<Rightarrow> session option" where
  "flush_channels s = flush_list [0..<RELIABLE_CHANNEL_COUNT] s"

definition tick_outputs :: "instant \<Rightarrow> session \<Rightarrow> session" where
  "tick_outputs now s =
     s\<lparr>ss_outputs := map (map_option (\<lambda>o'. output_run_tick o' now)) (ss_outputs s)\<rparr>"

definition terminate_inner ::
    "session \<Rightarrow> DisconnectReason \<Rightarrow> bool \<Rightarrow> bool \<Rightarrow> instant \<Rightarrow> session option" where
  "terminate_inner s reason notify_remote by_remote now =
     (if ss_state s = Terminated then Some s
      else do {
        s \<leftarrow> flush_channels (tick_outputs now s);
        let s = s\<lparr>termination_reason := reason\<rparr>;
        s \<leftarrow> (if notify_remote \<and> ss_state s = Running then do {
                (payload, n) \<leftarrow> expect (disconnect_serialize
                  (disconnect_new (ss_session_id s) reason) (replicate DISCONNECT_SIZE 0));
                dg \<leftarrow> frame_contextual s Disconnect (take n payload);
                Some (push_outgoing dg s)
              } else Some s);
        Some (push_event (Closed reason)
          (s\<lparr>ss_state := Terminated, terminated_by_remote := by_remote\<rparr>))
      })"

definition terminate :: "session \<Rightarrow> DisconnectReason \<Rightarrow> bool \<Rightarrow> instant \<Rightarrow> session option" where
  "terminate s reason notify_remote now = terminate_inner s reason notify_remote False now"

section \<open>Sending\<close>

definition send_session_request :: "session \<Rightarrow> session option" where
  "send_session_request s =
     (if ss_state s \<noteq> Negotiating \<or> ss_mode s \<noteq> Client then Some s
      else do {
        let (session_id, rng) = next_u32 (ss_rng s);
        let s = s\<lparr>ss_rng := rng, ss_session_id := session_id\<rparr>;
        let request = \<lparr>sr_soe_protocol_version = SOE_PROTOCOL_VERSION, sr_session_id = session_id,
              sr_udp_length = udp_length (ss_params s),
              sr_application_protocol = application_protocol (ss_params s)\<rparr>;
        (buf, n) \<leftarrow> expect (session_request_serialize request
          (replicate (session_request_size request) 0));
        Some (push_outgoing (take n buf) s)
      })"

definition enqueue_reliable :: "session \<Rightarrow> nat \<Rightarrow> bytes \<Rightarrow> session option" where
  "enqueue_reliable s ch data = do {
     output \<leftarrow> session_output_channel s ch (last_received s);
     output \<leftarrow> enqueue_data output data;
     Some (set_output ch output s)
   }"

definition enqueue_data_on :: "session \<Rightarrow> bytes \<Rightarrow> Channel \<Rightarrow> (bool \<times> session) option" where
  "enqueue_data_on s data channel =
     (if ss_state s \<noteq> Running then Some (False, s)
      else case channel of
        Reliable ch \<Rightarrow>
          if RELIABLE_CHANNEL_COUNT \<le> ch then Some (False, s)
          else do { s \<leftarrow> enqueue_reliable s ch data; Some (True, s) }
      | Unreliable \<Rightarrow>
          if data = [] then Some (True, s)
          else
            let escape = (if data ! 0 = 0 then 1 else 0);
                framed_len = escape + length data + unat (crc_length (ss_params s)) in
            if unat (remote_udp_length (ss_params s)) < framed_len
            then do { s \<leftarrow> enqueue_reliable s 0 data; Some (True, s) }
            else do { dg \<leftarrow> frame_unreliable s data; Some (True, push_outgoing dg s) })"

definition session_enqueue_data :: "session \<Rightarrow> bytes \<Rightarrow> (bool \<times> session) option" where
  "session_enqueue_data s data = enqueue_data_on s data (Reliable 0)"

section \<open>Negotiation\<close>

definition handle_session_request :: "session \<Rightarrow> bytes \<Rightarrow> instant \<Rightarrow> session option" where
  "handle_session_request s body now =
     (if ss_mode s = Client then terminate_inner s ConnectingToSelf False False now
      else case session_request_deserialize body False of
        Inl e \<Rightarrow> terminate_inner s CorruptPacket True False now
      | Inr request \<Rightarrow>
          let s = s\<lparr>ss_params := (ss_params s)\<lparr>remote_udp_length := sr_udp_length request\<rparr>,
                    ss_session_id := sr_session_id request\<rparr> in
          if ss_state s \<noteq> Negotiating then terminate_inner s ConnectError True False now
          else if \<not> (sr_soe_protocol_version request = SOE_PROTOCOL_VERSION \<and>
                     sr_application_protocol request = application_protocol (ss_params s))
          then terminate_inner s ProtocolMismatch True False now
          else do {
            let (seed, rng) = next_u32 (ss_rng s);
            let s = s\<lparr>ss_params := (ss_params s)\<lparr>crc_length := CRC_LENGTH, crc_seed := seed\<rparr>,
                      ss_rng := rng\<rparr>;
            let response = \<lparr>sp_session_id = ss_session_id s, sp_crc_seed = crc_seed (ss_params s),
                  sp_crc_length = crc_length (ss_params s),
                  sp_is_compression_enabled = is_compression_enabled (ss_params s),
                  sp_unknown_value_1 = 0, sp_udp_length = udp_length (ss_params s),
                  sp_soe_protocol_version = SOE_PROTOCOL_VERSION\<rparr>;
            (buf, n) \<leftarrow> expect (session_response_serialize response
              (replicate SESSION_RESPONSE_SIZE 0));
            Some ((push_outgoing (take n buf) s)
              \<lparr>ss_state := Running, open_session_on_next_packet := True\<rparr>)
          })"

definition handle_session_response :: "session \<Rightarrow> bytes \<Rightarrow> instant \<Rightarrow> session option" where
  "handle_session_response s body now =
     (if ss_mode s = Server then terminate_inner s ConnectingToSelf False False now
      else case session_response_deserialize body False of
        Inl e \<Rightarrow> terminate_inner s CorruptPacket True False now
      | Inr response \<Rightarrow>
          if ss_state s \<noteq> Negotiating then terminate_inner s ConnectError True False now
          else if sp_soe_protocol_version response \<noteq> SOE_PROTOCOL_VERSION
          then terminate_inner s ProtocolMismatch True False now
          else Some (push_event Opened
            (s\<lparr>ss_params := (ss_params s)\<lparr>remote_udp_length := sp_udp_length response,
                  crc_length := sp_crc_length response, crc_seed := sp_crc_seed response,
                  is_compression_enabled := sp_is_compression_enabled response\<rparr>,
               ss_session_id := sp_session_id response, ss_state := Running\<rparr>)))"

definition handle_contextless :: "session \<Rightarrow> OpCode \<Rightarrow> bytes \<Rightarrow> instant \<Rightarrow> session option" where
  "handle_contextless s op body now = (case op of
      SessionRequest \<Rightarrow> handle_session_request s body now
    | SessionResponse \<Rightarrow> handle_session_response s body now
    | UnknownSender \<Rightarrow> terminate_inner s UnreachableConnection False False now
    | _ \<Rightarrow> Some s)"

section \<open>Contextual packets\<close>

definition handle_disconnect :: "session \<Rightarrow> bytes \<Rightarrow> instant \<Rightarrow> session option" where
  "handle_disconnect s body now = (case disconnect_deserialize body of
      Inr d \<Rightarrow> terminate_inner s (dc_reason d) False True now
    | Inl e \<Rightarrow> Some s)"

definition handle_heartbeat :: "session \<Rightarrow> session option" where
  "handle_heartbeat s =
     (if ss_mode s = Server
      then do { dg \<leftarrow> frame_contextual s Heartbeat []; Some (push_outgoing dg s) } else Some s)"

text \<open>A \<open>ReliableData\<close> or \<open>ReliableDataFragment\<close> packet.\<close>

definition handle_reliable ::
    "session \<Rightarrow> bool \<Rightarrow> nat \<Rightarrow> bytes \<Rightarrow> instant \<Rightarrow> session option" where
  "handle_reliable s fragment channel body now = do {
     input \<leftarrow> session_input_channel s channel now;
     (input, outcome) \<leftarrow> (if fragment then handle_reliable_data_fragment input body now
        else handle_reliable_data input body now);
     let s = set_input channel input s;
     (case outcome of
        Inl e \<Rightarrow> terminate_inner s CorruptPacket True False now
      | Inr _ \<Rightarrow> Some s)
   }"

definition handle_acknowledge :: "session \<Rightarrow> nat \<Rightarrow> bytes \<Rightarrow> instant \<Rightarrow> session option" where
  "handle_acknowledge s channel body now = (case acknowledge_deserialize body of
      Inl e \<Rightarrow> Some s
    | Inr ack \<Rightarrow> do {
        output \<leftarrow> session_output_channel s channel now;
        Some (set_output channel (notify_of_acknowledge output (ack_sequence ack) now) s)
      })"

definition handle_acknowledge_all :: "session \<Rightarrow> nat \<Rightarrow> bytes \<Rightarrow> instant \<Rightarrow> session option" where
  "handle_acknowledge_all s channel body now = (case acknowledge_all_deserialize body of
      Inl e \<Rightarrow> Some s
    | Inr ack \<Rightarrow> do {
        output \<leftarrow> session_output_channel s channel now;
        Some (set_output channel (notify_of_acknowledge_all output (ack_all_sequence ack) now) s)
      })"

text \<open>\<open>handle_contextual_inner\<close> and the loop of its MultiPacket case. A sub-packet is
  shorter than the bundle it is in, so the nesting ends.\<close>

function handle_contextual_inner ::
    "session \<Rightarrow> OpCode \<Rightarrow> nat \<Rightarrow> bytes \<Rightarrow> instant \<Rightarrow> session option"
  and multi_packet_loop :: "session \<Rightarrow> bytes \<Rightarrow> nat \<Rightarrow> instant \<Rightarrow> session option" where
  "handle_contextual_inner s op channel body now = (case op of
      MultiPacket \<Rightarrow> multi_packet_loop s body 0 now
    | Disconnect \<Rightarrow> handle_disconnect s body now
    | Heartbeat \<Rightarrow> handle_heartbeat s
    | ReliableData \<Rightarrow> handle_reliable s False channel body now
    | ReliableDataFragment \<Rightarrow> handle_reliable s True channel body now
    | Acknowledge \<Rightarrow> handle_acknowledge s channel body now
    | AcknowledgeAll \<Rightarrow> handle_acknowledge_all s channel body now
    | _ \<Rightarrow> Some s)"
| "multi_packet_loop s body offset now =
     (if offset < length body then
        (case mp_read (reader_new (drop offset body)) of
           Inl e \<Rightarrow> terminate_inner s CorruptPacket True False now
         | Inr (len, reader) \<Rightarrow>
             let len = unat len; offset = offset + rd_offset reader in
             if len < OP_CODE_SIZE \<or> length body - offset < len
             then terminate_inner s CorruptPacket True False now
             else
               let sub = take len (drop offset body); sub_raw = of_be16 (sub ! 0) (sub ! 1) in
               (case read_op_code sub of
                  None \<Rightarrow> terminate_inner s CorruptPacket True False now
                | Some sub_op \<Rightarrow> do {
                    s \<leftarrow> handle_contextual_inner s sub_op (reliable_channel sub_raw)
                      (drop OP_CODE_SIZE sub) now;
                    if ss_state s = Terminated then Some s
                    else multi_packet_loop s body (offset + len) now
                  }))
      else Some s)"
  by pat_completeness auto
termination
  by (relation "measure (\<lambda>c. case c of
      Inl (s, op, channel, body, now) \<Rightarrow> 2 * length body + 1
    | Inr (s, body, offset, now) \<Rightarrow> 2 * (length body - offset))")
    (auto simp: OP_CODE_SIZE_def dest!: mp_read_advances)

declare handle_contextual_inner.simps [simp del] multi_packet_loop.simps [simp del]

definition handle_contextual ::
    "(bytes \<Rightarrow> error + bytes) \<Rightarrow> session \<Rightarrow> OpCode \<Rightarrow> nat \<Rightarrow> bytes \<Rightarrow> instant \<Rightarrow> session option" where
  "handle_contextual inflate s op channel body now =
     (if is_compression_enabled (ss_params s) then
        (if body = [] then Some s
         else if 0 < body ! 0 then
           (case inflate (tl body) of
              Inr d \<Rightarrow> handle_contextual_inner s op channel d now
            | Inl e \<Rightarrow> terminate_inner s CorruptPacket True False now)
         else handle_contextual_inner s op channel (tl body) now)
      else handle_contextual_inner s op channel body now)"

section \<open>Unreliable data\<close>

definition open_pending :: "session \<Rightarrow> session" where
  "open_pending s =
     (if open_session_on_next_packet s
      then (push_event Opened s)\<lparr>open_session_on_next_packet := False\<rparr> else s)"

definition handle_unreliable :: "session \<Rightarrow> bytes \<Rightarrow> instant \<Rightarrow> (bool \<times> session) option" where
  "handle_unreliable s datagram now =
     (if ss_state s \<noteq> Running then Some (False, s)
      else
        let l = unat (crc_length (ss_params s)) in
        if length datagram < l + 1 then Some (False, s)
        else do {
          split \<leftarrow> usize_sub (length datagram) l;
          mismatch \<leftarrow> (if 0 < l then do {
              body \<leftarrow> slice_to datagram split;
              let expected = be32 (crc32_hash (crc32_new (crc_seed (ss_params s))) body);
              start \<leftarrow> usize_sub 4 l;
              rest \<leftarrow> slice_from datagram split;
              Some (drop start expected \<noteq> rest)
            } else Some False);
          if mismatch then Some (True, s)
          else
            let body = take split datagram in
            if body ! 0 = 0 \<and> (length body < 2 \<or> body ! 1 \<noteq> 0) then Some (False, s)
            else
              let payload = (if body ! 0 = 0 then tl body else body);
                  s = open_pending (s\<lparr>last_received := now\<rparr>) in
              Some (True, push_received payload Unreliable s)
        })"

section \<open>Datagrams and ticks\<close>

definition process_incoming ::
    "(bytes \<Rightarrow> error + bytes) \<Rightarrow> session \<Rightarrow> bytes \<Rightarrow> instant \<Rightarrow> session option" where
  "process_incoming inflate s datagram now =
     (if ss_state s = Terminated then Some s
      else do {
        (result, op) \<leftarrow> validate_packet datagram (crc32_new (crc_seed (ss_params s)))
          (crc_length (ss_params s)) (is_compression_enabled (ss_params s));
        if result \<noteq> Valid then do {
          (consumed, s) \<leftarrow> (if result = InvalidOpCode then handle_unreliable s datagram now
            else Some (False, s));
          if consumed then flush_channels s
          else terminate_inner s CorruptPacket True False now
        } else do {
          op \<leftarrow> op;
          let s = (open_pending s)\<lparr>last_received := now\<rparr>;
          body \<leftarrow> slice_from datagram OP_CODE_SIZE;
          s \<leftarrow> (if is_contextless op then handle_contextless s op body now
            else do {
              let raw_op = of_be16 (datagram ! 0) (datagram ! 1);
              split \<leftarrow> usize_sub (length body) (unat (crc_length (ss_params s)));
              handle_contextual inflate s op (reliable_channel raw_op) (take split body) now
            });
          flush_channels s
        }
      })"

definition send_heartbeat_if_required :: "session \<Rightarrow> instant \<Rightarrow> session option" where
  "send_heartbeat_if_required s now =
     (if ss_mode s = Client \<and> ss_state s = Running \<and> heartbeat_after (ss_params s) \<noteq> 0 \<and>
         heartbeat_after (ss_params s) < duration_since now (last_received s)
      then do { dg \<leftarrow> frame_contextual s Heartbeat []; Some (push_outgoing dg s) }
      else Some s)"

definition tick_channels :: "instant \<Rightarrow> session \<Rightarrow> session" where
  "tick_channels now s =
     s\<lparr>ss_inputs := map (map_option (\<lambda>i. input_run_tick i now)) (ss_inputs s),
       ss_outputs := map (map_option (\<lambda>o'. output_run_tick o' now)) (ss_outputs s)\<rparr>"

definition session_run_tick :: "session \<Rightarrow> instant \<Rightarrow> session option" where
  "session_run_tick s now =
     (if ss_state s = Terminated then Some s
      else do {
        s \<leftarrow> send_heartbeat_if_required s now;
        if inactivity_timeout (ss_params s) \<noteq> 0 \<and>
           inactivity_timeout (ss_params s) < duration_since now (last_received s)
        then terminate_inner s Timeout False False now
        else flush_channels (tick_channels now s)
      })"

end
