(* ===== verification/Soe_Session_Run.thy ===== *)
theory Soe_Session_Run
  imports Soe_Session
begin

text \<open>
  Runs of a session. The theory evaluates the framing of datagrams, splits termination into its
  stages, defines the operations a caller may perform as one step function, and states the
  contracts by which an invariant of the leaf handlers becomes one of every operation:
  \<open>session_handlers\<close> for the dispatch of contextual packets, nested bundles included, and
  \<open>session_machine\<close> for whole datagrams, ticks and sends.
\<close>

section \<open>Framed datagrams\<close>

definition contextual_body :: "session_parameters \<Rightarrow> u16 \<Rightarrow> bytes \<Rightarrow> bytes" where
  "contextual_body p raw payload =
     be16 raw @ (if is_compression_enabled p then [0] else []) @ payload"

definition with_check :: "session_parameters \<Rightarrow> bytes \<Rightarrow> bytes" where
  "with_check p body = body @ check_value (crc32_new (crc_seed p)) (crc_length p) body"

definition unreliable_body :: "bytes \<Rightarrow> bytes" where
  "unreliable_body payload = (if hd payload = 0 then 0 # payload else payload)"

lemma replicate_drop_add: "drop n (replicate (n + k) x) = replicate k x"
  by simp

lemma framed_write:
  assumes "unat (crc_length p) \<le> 4"
  shows "append_crc (body @ replicate (unat (crc_length p)) 0) (length body) (crc32_new (crc_seed p))
     (crc_length p) = Some (Inr (with_check p body, length (with_check p body)))"
  using append_crc_frame [OF assms, of body] assms by (simp add: with_check_def)

lemma frame_contextual_raw_eq:
  assumes "unat (crc_length (ss_params s)) \<le> 4"
  shows "frame_contextual_raw s raw payload =
    Some (with_check (ss_params s) (contextual_body (ss_params s) raw payload))"
proof -
  let ?p = "ss_params s" and ?l = "unat (crc_length (ss_params s))"
  let ?c = "if is_compression_enabled ?p then 1 else 0 :: nat"
  let ?body = "contextual_body ?p raw payload"
  define w0 where "w0 = writer_new (replicate (OP_CODE_SIZE + ?c + length payload + ?l) 0)"
  have room: "writer_remaining w0 = 2 + ?c + length payload + ?l" and ok: "writer_ok w0"
    by (simp_all add: w0_def OP_CODE_SIZE_def)
  have "expect (write_u16 w0 raw) = Some (copy_in (be16 raw) w0)"
    using room by (simp add: write_fits)
  moreover have "(if is_compression_enabled ?p then expect (write_bool (copy_in (be16 raw) w0) False)
      else Some (copy_in (be16 raw) w0)) =
    Some (copy_in (be16 raw @ (if is_compression_enabled ?p then [0] else [])) w0)"
    using room ok by (simp add: write_fits)
  moreover have "expect (write_bytes (copy_in (be16 raw @ (if is_compression_enabled ?p then [0] else [])) w0)
      payload) = Some (copy_in ?body w0)"
    using room ok by (simp add: write_fits contextual_body_def)
  moreover have "wr_data (copy_in ?body w0) = ?body @ replicate ?l 0"
    and "wr_offset (copy_in ?body w0) = length ?body"
    by (simp_all add: w0_def contextual_body_def OP_CODE_SIZE_def)
  ultimately show ?thesis
    using framed_write [OF assms, of ?body]
    by (simp add: frame_contextual_raw_def Let_def flip: w0_def)
qed

lemma frame_unreliable_eq:
  assumes "unat (crc_length (ss_params s)) \<le> 4" and "payload \<noteq> []"
  shows "frame_unreliable s payload = Some (with_check (ss_params s) (unreliable_body payload))"
proof -
  have first: "index payload 0 = Some (hd payload)" using assms(2) by (simp add: hd_conv_nth)
  show ?thesis
    using framed_write [OF assms(1), of "unreliable_body payload"]
    by (cases "hd payload = 0")
      (simp_all add: frame_unreliable_def first write_fits unreliable_body_def Let_def)
qed

section \<open>Stages of termination\<close>

definition disconnect_notice :: "bool \<Rightarrow> DisconnectReason \<Rightarrow> session \<Rightarrow> session option" where
  "disconnect_notice notify reason s =
     (if notify \<and> ss_state s = Running then do {
        (payload, n) \<leftarrow> expect (disconnect_serialize
          (disconnect_new (ss_session_id s) reason) (replicate DISCONNECT_SIZE 0));
        dg \<leftarrow> frame_contextual s Disconnect (take n payload);
        Some (push_outgoing dg s)
      } else Some s)"

text \<open>Termination in three stages: flush, notify, close.\<close>

lemma terminate_inner_eq:
  "terminate_inner s r notify by_remote now =
     (if ss_state s = Terminated then Some s
      else do {
        s \<leftarrow> flush_channels (tick_outputs now s);
        s \<leftarrow> disconnect_notice notify r (s\<lparr>termination_reason := r\<rparr>);
        Some (push_event (Closed r) (s\<lparr>ss_state := Terminated, terminated_by_remote := by_remote\<rparr>))
      })"
  by (simp add: terminate_inner_def disconnect_notice_def Let_def)

section \<open>What flushing leaves alone\<close>

text \<open>A view of the session that does not look at the channels and the outgoing queues is the same
  after a flush.\<close>

locale unflushed =
  fixes view :: "session \<Rightarrow> 'v"
  assumes view_outgoing: "view (push_outgoing dg s) = view s"
    and view_received: "view (push_received d chan s) = view s"
    and view_input: "view (set_input ch i s) = view s"
    and view_output: "view (set_output ch o' s) = view s"
begin

lemma push_frames_view: "push_frames fs s = Some s' \<Longrightarrow> view s' = view s"
  by (induction fs arbitrary: s) (auto simp: bind_eq_Some_iff view_outgoing)

lemma push_app_data_view: "view (push_app_data ch ds s) = view s"
  by (induction ds arbitrary: s) (simp_all add: view_received)

lemma flush_channel_view: "flush_channel ch s = Some s' \<Longrightarrow> view s' = view s"
  by (auto simp: flush_channel_def flush_acks_def flush_packets_def flush_app_data_def
      push_app_data_view view_input view_output bind_eq_Some_iff split_beta
      dest!: push_frames_view split: option.splits)

lemma flush_list_view: "flush_list chs s = Some s' \<Longrightarrow> view s' = view s"
  by (induction chs arbitrary: s) (auto simp: bind_eq_Some_iff dest!: flush_channel_view)

lemma flush_view: "flush_channels s = Some s' \<Longrightarrow> view s' = view s"
  unfolding flush_channels_def by (rule flush_list_view)

end

lemmas push_defs = push_outgoing_def push_event_def push_received_def set_input_def set_output_def

interpretation params: unflushed ss_params
  by unfold_locales (simp_all add: push_defs)

interpretation state: unflushed ss_state
  by unfold_locales (simp_all add: push_defs)

lemma push_frames_inputs:
  "push_frames fs s = Some s' \<Longrightarrow> ss_inputs s' = ss_inputs s \<and> ss_received s' = ss_received s"
  by (induction fs arbitrary: s) (auto simp: bind_eq_Some_iff push_outgoing_def)

section \<open>Outcomes\<close>

text \<open>The outcome of an operation: a panic, where the contract admits one, or a state with the
  invariant.\<close>

definition within :: "bool \<Rightarrow> ('a \<Rightarrow> bool) \<Rightarrow> 'a option \<Rightarrow> bool" where
  "within may_panic good r = (case r of None \<Rightarrow> may_panic | Some x \<Rightarrow> good x)"

lemma no_error: "(\<forall>e. r \<noteq> Inl e) \<longleftrightarrow> r = Inr ()"
  by (cases r) auto

lemma within_Some [simp]: "within may_panic good (Some x) = good x"
  by (simp add: within_def)

lemma within_False: "within False good r \<longleftrightarrow> (\<exists>x. r = Some x \<and> good x)"
  by (cases r) (simp_all add: within_def)

lemma within_True: "within True good r \<longleftrightarrow> (\<forall>x. r = Some x \<longrightarrow> good x)"
  by (cases r) (simp_all add: within_def)

lemma within_bind:
  assumes "within may_panic good m" and "\<And>x. m = Some x \<Longrightarrow> good x \<Longrightarrow> within may_panic good' (f x)"
  shows "within may_panic good' (Option.bind m f)"
  using assms by (cases m) (simp_all add: within_def)

lemma within_weaken: "within may_panic good r \<Longrightarrow> (\<And>x. good x \<Longrightarrow> good' x) \<Longrightarrow> within may_panic good' r"
  by (cases r) (simp_all add: within_def)

lemma within_map: "within may_panic good (map_option f r) = within may_panic (\<lambda>x. good (f x)) r"
  by (cases r) (simp_all add: within_def)

section \<open>Dispatch of contextual packets\<close>

locale session_handlers =
  fixes good :: "session \<Rightarrow> bool" and may_panic :: bool
  assumes terminate_within:
      "good s \<Longrightarrow> within may_panic good (terminate_inner s r notify by_remote now)"
    and heartbeat_within: "good s \<Longrightarrow> within may_panic good (handle_heartbeat s)"
    and acknowledge_within: "good s \<Longrightarrow> ch < RELIABLE_CHANNEL_COUNT \<Longrightarrow>
      within may_panic good (handle_acknowledge s ch body now)"
    and acknowledge_all_within: "good s \<Longrightarrow> ch < RELIABLE_CHANNEL_COUNT \<Longrightarrow>
      within may_panic good (handle_acknowledge_all s ch body now)"
    and reliable_within: "good s \<Longrightarrow> ch < RELIABLE_CHANNEL_COUNT \<Longrightarrow>
      within may_panic good (handle_reliable s fragment ch body now)"
begin

lemma disconnect_within: "good s \<Longrightarrow> within may_panic good (handle_disconnect s body now)"
  by (auto simp: handle_disconnect_def terminate_within split: sum.split)

lemmas leaf_within = heartbeat_within acknowledge_within acknowledge_all_within reliable_within
  disconnect_within terminate_within

lemma contextual_within:
  "good s \<Longrightarrow> ch < RELIABLE_CHANNEL_COUNT \<Longrightarrow>
     within may_panic good (handle_contextual_inner s op ch body now)"
  "good s \<Longrightarrow> within may_panic good (multi_packet_loop s body offset now)"
proof (induction s op ch body now and s body offset now
    rule: handle_contextual_inner_multi_packet_loop.induct)
  case (1 s op channel body now)
  then show ?case
    by (subst handle_contextual_inner.simps) (auto split: OpCode.split simp: leaf_within)
next
  case (2 s body offset now)
  note loop = multi_packet_loop.simps [of s body offset now]
  show ?case
  proof (cases "offset < length body")
    case True
    show ?thesis
    proof (cases "mp_read (reader_new (drop offset body))")
      case (Inl e)
      with True loop 2(3) show ?thesis by (simp add: terminate_within)
    next
      case (Inr lr)
      obtain len r where lr: "lr = (len, r)" by (cases lr)
      let ?len = "unat len" and ?offset = "offset + rd_offset r"
      let ?sub = "take ?len (drop ?offset body)"
      show ?thesis
      proof (cases "(?len < OP_CODE_SIZE \<or> length body - ?offset < ?len) \<or> read_op_code ?sub = None")
        case True': True
        with True Inr lr 2(3) loop show ?thesis
          by (auto simp: Let_def terminate_within)
      next
        case False
        then obtain op where op: "read_op_code ?sub = Some op" by auto
        note IH = 2(1,2) [OF True Inr lr [symmetric] refl refl _ refl refl op]
        from False True Inr lr op 2(3) loop IH show ?thesis
          by (auto simp: Let_def reliable_channel_less intro!: within_bind)
      qed
    qed
  qed (use loop 2(3) in simp)
qed

lemma handle_contextual_within:
  "good s \<Longrightarrow> ch < RELIABLE_CHANNEL_COUNT \<Longrightarrow>
   within may_panic good (handle_contextual inflate s op ch body now)"
  by (auto simp: handle_contextual_def contextual_within terminate_within split: sum.split)

end

section \<open>Datagrams\<close>

lemma open_pending_params [simp]:
  "ss_params (open_pending s) = ss_params s" "ss_state (open_pending s) = ss_state s"
  "ss_mode (open_pending s) = ss_mode s" "ss_inputs (open_pending s) = ss_inputs s"
  "ss_outputs (open_pending s) = ss_outputs s"
  by (simp_all add: open_pending_def push_event_def)

text \<open>What a valid datagram does: the session opens, and its body goes to the handlers.\<close>

definition valid_body :: "session \<Rightarrow> bytes \<Rightarrow> bytes" where
  "valid_body s dg = take (length dg - 2 - unat (crc_length (ss_params s))) (drop 2 dg)"

definition datagram_channel :: "bytes \<Rightarrow> nat" where
  "datagram_channel dg = reliable_channel (of_be16 (dg ! 0) (dg ! 1))"

definition refreshed :: "session \<Rightarrow> instant \<Rightarrow> session" where
  "refreshed s now = (open_pending s)\<lparr>last_received := now\<rparr>"

lemma refreshed_fields [simp]:
  "ss_params (refreshed s now) = ss_params s" "ss_state (refreshed s now) = ss_state s"
  "ss_mode (refreshed s now) = ss_mode s" "ss_inputs (refreshed s now) = ss_inputs s"
  "ss_outputs (refreshed s now) = ss_outputs s"
  by (simp_all add: refreshed_def)

abbreviation validated :: "session \<Rightarrow> bytes \<Rightarrow> (ValidationResult \<times> OpCode option) option" where
  "validated s dg \<equiv> validate_packet dg (crc32_new (crc_seed (ss_params s)))
     (crc_length (ss_params s)) (is_compression_enabled (ss_params s))"

lemma process_valid:
  assumes "ss_state s \<noteq> Terminated" and "validated s dg = Some (Valid, Some op)"
  shows "process_incoming inflate s dg now = Option.bind
    (if is_contextless op then handle_contextless (refreshed s now) op (drop 2 dg) now
     else handle_contextual inflate (refreshed s now) op (datagram_channel dg) (valid_body s dg) now)
    flush_channels"
proof -
  let ?l = "crc_length (ss_params s)" and ?c = "is_compression_enabled (ss_params s)"
  have len: "packet_minimum_length op ?c ?l \<le> length dg"
    using validate_Valid [OF assms(2)] by simp
  then have two: "2 \<le> length dg" using minimum_length_ge_2 [of op ?c ?l] by linarith
  have "unat ?l \<le> length dg - 2" if "\<not> is_contextless op"
    using minimum_length_ge [OF that, of ?l ?c] len by linarith
  with assms two show ?thesis
    by (simp add: process_incoming_def OP_CODE_SIZE_def Let_def valid_body_def datagram_channel_def
        refreshed_def)
qed

lemma process_invalid:
  assumes "ss_state s \<noteq> Terminated" and "validated s dg = Some (v, op)" and "v \<noteq> Valid"
  shows "process_incoming inflate s dg now = do {
    (consumed, s) \<leftarrow> (if v = InvalidOpCode then handle_unreliable s dg now else Some (False, s));
    if consumed then flush_channels s else terminate_inner s CorruptPacket True False now
  }"
  using assms by (simp add: process_incoming_def)

section \<open>Operations and runs\<close>

datatype session_op =
    OpConnect
  | OpEnqueue bytes Channel
  | OpTerminate DisconnectReason bool instant
  | OpDatagram bytes instant
  | OpTick instant
  | OpDrain

definition drain :: "session \<Rightarrow> session" where
  "drain s = s\<lparr>ss_outgoing := [], ss_received := [], ss_events := []\<rparr>"

lemma drain_takes:
  "drain s = snd (take_events (snd (take_received (snd (take_outgoing s)))))"
  by (simp add: drain_def take_events_def take_received_def take_outgoing_def)

primrec session_step ::
    "(bytes \<Rightarrow> error + bytes) \<Rightarrow> session \<Rightarrow> session_op \<Rightarrow> session option" where
  "session_step inflate s OpConnect = send_session_request s"
| "session_step inflate s (OpEnqueue data channel) = map_option snd (enqueue_data_on s data channel)"
| "session_step inflate s (OpTerminate reason notify now) = terminate s reason notify now"
| "session_step inflate s (OpDatagram dg now) = process_incoming inflate s dg now"
| "session_step inflate s (OpTick now) = session_run_tick s now"
| "session_step inflate s OpDrain = Some (drain s)"

text \<open>A run, with every event surfaced so far: those drained and those pending.\<close>

primrec session_run ::
    "(bytes \<Rightarrow> error + bytes) \<Rightarrow> SessionEvent list \<Rightarrow> session \<Rightarrow> session_op list \<Rightarrow>
     (SessionEvent list \<times> session) option" where
  "session_run inflate h s [] = Some (h, s)"
| "session_run inflate h s (e # es) = do {
     s' \<leftarrow> session_step inflate s e;
     session_run inflate (if e = OpDrain then h @ ss_events s else h) s' es
   }"

lemma session_run_append:
  "session_run inflate h s (es @ fs) = do {
     (h, s) \<leftarrow> session_run inflate h s es; session_run inflate h s fs }"
  by (induction es arbitrary: h s) (simp_all split: bind_split)

text \<open>The contract of a whole session: the leaf handlers keep the invariant, and so do
  negotiation, flushing, unreliable data and the channels' sends and ticks. A datagram may have
  to be admitted: \<open>admits mode body\<close> speaks of the body of a contextless packet.\<close>

locale session_machine = session_handlers +
  fixes admits :: "SessionMode \<Rightarrow> bytes \<Rightarrow> bool"
  assumes flush_within: "good s \<Longrightarrow> within may_panic good (flush_channels s)"
    and validate_within: "good s \<Longrightarrow> within may_panic (\<lambda>_. True) (validated s dg)"
    and open_good: "good s \<Longrightarrow> ss_state s \<noteq> Terminated \<Longrightarrow> good (refreshed s now)"
    and contextless_within: "good s \<Longrightarrow> admits (ss_mode s) body \<Longrightarrow>
      within may_panic good (handle_contextless s op body now)"
    and unreliable_within: "good s \<Longrightarrow>
      within may_panic (\<lambda>r. good (snd r)) (handle_unreliable s dg now)"
    and tick_good: "good s \<Longrightarrow> good (tick_channels now s)"
    and due_within: "good s \<Longrightarrow> within may_panic good (send_heartbeat_if_required s now)"
    and enqueue_within: "good s \<Longrightarrow> ch < RELIABLE_CHANNEL_COUNT \<Longrightarrow>
      within may_panic good (enqueue_reliable s ch data)"
    and push_good: "good s \<Longrightarrow> good (push_outgoing dg s)"
    and request_within: "good s \<Longrightarrow> within may_panic good (send_session_request s)"
    and frame_within: "good s \<Longrightarrow> data \<noteq> [] \<Longrightarrow>
      within may_panic (\<lambda>_. True) (frame_unreliable s data)"
begin

lemma process_within:
  assumes good: "good s" and admits: "admits (ss_mode s) (drop 2 dg)"
  shows "within may_panic good (process_incoming inflate s dg now)"
proof (cases "ss_state s = Terminated")
  case True
  with good show ?thesis by (simp add: process_incoming_def)
next
  case live: False
  show ?thesis
  proof (cases "validated s dg")
    case None
    with validate_within [OF good, of dg] live show ?thesis
      by (simp add: process_incoming_def within_def)
  next
    case (Some r)
    obtain v op where r: "r = (v, op)" by (cases r)
    show ?thesis
    proof (cases "v = Valid")
      case True
      then obtain code where v: "validated s dg = Some (Valid, Some code)"
        using Some r validate_Valid by blast
      have "datagram_channel dg < RELIABLE_CHANNEL_COUNT"
        by (simp add: datagram_channel_def reliable_channel_less)
      then show ?thesis
        unfolding process_valid [OF live v] using open_good [OF good live] admits
        by (auto intro!: within_bind flush_within contextless_within handle_contextual_within)
    next
      case False
      show ?thesis
        unfolding process_invalid [OF live Some [unfolded r] False]
        using good unreliable_within [OF good]
        by (auto intro!: within_bind flush_within terminate_within simp: split_beta)
    qed
  qed
qed

lemma session_tick_within: "good s \<Longrightarrow> within may_panic good (session_run_tick s now)"
  by (auto simp: session_run_tick_def intro!: within_bind due_within terminate_within flush_within
      tick_good)

lemma enqueue_on_within:
  "good s \<Longrightarrow> within may_panic (\<lambda>r. good (snd r)) (enqueue_data_on s data channel)"
  by (auto simp: enqueue_data_on_def Let_def push_good RELIABLE_CHANNEL_COUNT_def not_le
      split: Channel.split
      intro!: within_bind [OF enqueue_within] within_bind [OF frame_within])

definition admitted :: "SessionMode \<Rightarrow> session_op \<Rightarrow> bool" where
  "admitted mode e \<longleftrightarrow> (\<forall>dg now. e = OpDatagram dg now \<longrightarrow> admits mode (drop 2 dg))"

lemma step_within:
  "good s \<Longrightarrow> admitted (ss_mode s) e \<Longrightarrow> e \<noteq> OpDrain \<Longrightarrow>
   within may_panic good (session_step inflate s e)"
  by (cases e) (simp_all add: admitted_def request_within enqueue_on_within terminate_within
      process_within session_tick_within within_map terminate_def)

end

section \<open>Parts of a session no operation changes\<close>

text \<open>A view that no assignment of a handler changes is the same after every operation: a first
  instance of the contract.\<close>

locale fixed_view = unflushed view for view :: "session \<Rightarrow> 'v" +
  assumes view_event: "view (push_event e s) = view s"
    and view_ticks: "view (tick_outputs now s) = view s" "view (tick_channels now s) = view s"
    and view_negotiation: "view (ss_params_update pf s) = view s" "view (ss_session_id_update nf s) = view s"
      "view (ss_rng_update gf s) = view s" "view (open_session_on_next_packet_update qf s) = view s"
    and view_end: "view (ss_state_update sf s) = view s" "view (termination_reason_update rf s) = view s"
      "view (terminated_by_remote_update bf s) = view s" "view (last_received_update tf s) = view s"
begin

lemmas frame = view_outgoing view_received view_input view_output view_event view_ticks
  view_negotiation view_end

lemma refreshed_view: "view (open_pending s) = view s" "view (refreshed s now) = view s"
  by (simp_all add: refreshed_def open_pending_def frame)

lemma terminate_view: "terminate_inner s r notify by_remote now = Some s' \<Longrightarrow> view s' = view s"
  by (auto simp: terminate_inner_eq disconnect_notice_def bind_eq_Some_iff frame dest!: flush_view
      split: if_splits)

lemma negotiation_view:
  "handle_session_request s body now = Some s' \<Longrightarrow> view s' = view s"
  "handle_session_response s body now = Some s' \<Longrightarrow> view s' = view s"
  by (auto simp: handle_session_request_def handle_session_response_def bind_eq_Some_iff Let_def
      split_beta frame dest!: terminate_view split: sum.splits if_splits)

lemma contextless_view: "handle_contextless s op body now = Some s' \<Longrightarrow> view s' = view s"
  by (cases op) (auto simp: handle_contextless_def dest!: negotiation_view terminate_view)

lemma handler_view:
  "handle_heartbeat s = Some s' \<Longrightarrow> view s' = view s"
  "handle_acknowledge s ch body now = Some s' \<Longrightarrow> view s' = view s"
  "handle_acknowledge_all s ch body now = Some s' \<Longrightarrow> view s' = view s"
  "handle_reliable s fragment ch body now = Some s' \<Longrightarrow> view s' = view s"
  "handle_unreliable s body now = Some r \<Longrightarrow> view (snd r) = view s"
  "enqueue_reliable s ch body = Some s' \<Longrightarrow> view s' = view s"
  "send_heartbeat_if_required s now = Some s' \<Longrightarrow> view s' = view s"
  "send_session_request s = Some s' \<Longrightarrow> view s' = view s"
  by (auto simp: handle_heartbeat_def handle_acknowledge_def handle_acknowledge_all_def
      handle_reliable_def handle_unreliable_def enqueue_reliable_def send_heartbeat_if_required_def
      send_session_request_def bind_eq_Some_iff Let_def split_beta no_error frame
      refreshed_view dest!: terminate_view split: sum.splits if_splits)

end

sublocale fixed_view \<subseteq> fixed: session_machine "\<lambda>s. view s = n" True "\<lambda>_ _. True" for n
  by unfold_locales
    (auto simp: within_True frame refreshed_view dest!: flush_view terminate_view contextless_view handler_view)

text \<open>Whether a session is a client or a server.\<close>

lemma mode_frame [simp]:
  "ss_mode (push_outgoing dg s) = ss_mode s" "ss_mode (push_event e s) = ss_mode s"
  "ss_mode (push_received d chan s) = ss_mode s" "ss_mode (set_input ch i s) = ss_mode s"
  "ss_mode (set_output ch o' s) = ss_mode s" "ss_mode (tick_outputs now s) = ss_mode s"
  "ss_mode (tick_channels now s) = ss_mode s" "ss_mode (drain s) = ss_mode s"
  by (simp_all add: push_defs tick_outputs_def tick_channels_def drain_def)

interpretation mode: fixed_view ss_mode
  by unfold_locales simp_all

lemma step_mode: "session_step inflate s e = Some s' \<Longrightarrow> ss_mode s' = ss_mode s"
  using mode.fixed.step_within [of s "ss_mode s" e inflate]
  by (cases "e = OpDrain") (auto simp: within_True mode.fixed.admitted_def)

end
