(* ===== verification/Soe_Session_Life.thy ===== *)
theory Soe_Session_Life
  imports Soe_Session_Run
begin

text \<open>
  The lifecycle of a session. Every operation moves the session through the abstract automaton
  Negotiating - Running - Terminated, and the events it surfaces are the labels of that path:
  \<open>Opened\<close> at most once, \<open>Closed\<close> once, at the end. The automaton is a contract of the
  leaf handlers (\<open>session_machine\<close>), a panic allowed; the whole session inherits it.
\<close>

section \<open>The lifecycle\<close>

type_synonym life = "SessionState \<times> bool \<times> SessionEvent list"

definition life_of :: "session \<Rightarrow> life" where
  "life_of s = (ss_state s, open_session_on_next_packet s, ss_events s)"

inductive life_step :: "life \<Rightarrow> life \<Rightarrow> bool" where
  accept: "life_step (Negotiating, f, es) (Running, True, es)"
| establish: "life_step (Negotiating, f, es) (Running, f, es @ [Opened])"
| opened: "st \<noteq> Terminated \<Longrightarrow> life_step (st, True, es) (st, False, es @ [Opened])"
| close: "st \<noteq> Terminated \<Longrightarrow> life_step (st, f, es) (Terminated, f, es @ [Closed r])"

inductive_simps life_step_simps: "life_step a b"

definition lives :: "session \<Rightarrow> session \<Rightarrow> bool" where
  "lives s s' \<longleftrightarrow> life_step\<^sup>*\<^sup>* (life_of s) (life_of s')"

lemma lives_refl [simp]: "lives s s"
  by (simp add: lives_def)

lemma lives_trans: "lives s s' \<Longrightarrow> lives s' s'' \<Longrightarrow> lives s s''"
  by (simp add: lives_def)

lemma lives_same: "life_of s' = life_of s \<Longrightarrow> lives s s'"
  by (simp add: lives_def)

lemma life_of_simps [simp]:
  "life_of (push_outgoing dg s) = life_of s" "life_of (push_received d chan s) = life_of s"
  "life_of (set_input ch i s) = life_of s" "life_of (set_output ch o' s) = life_of s"
  "life_of (tick_outputs now s) = life_of s" "life_of (tick_channels now s) = life_of s"
  "life_of (s\<lparr>last_received := now\<rparr>) = life_of s" "life_of (s\<lparr>termination_reason := r\<rparr>) = life_of s"
  "life_of (s\<lparr>ss_params := p\<rparr>) = life_of s" "life_of (s\<lparr>ss_session_id := i'\<rparr>) = life_of s"
  "life_of (s\<lparr>ss_rng := g\<rparr>) = life_of s"
  by (simp_all add: life_of_def push_outgoing_def push_received_def set_input_def set_output_def
      tick_outputs_def tick_channels_def)

lemma lives_unchanged [simp]:
  "lives s (push_outgoing dg s') = lives s s'" "lives s (push_received d chan s') = lives s s'"
  "lives s (set_input ch i s') = lives s s'" "lives s (set_output ch o' s') = lives s s'"
  "lives (set_input ch i s) s' = lives s s'" "lives (push_outgoing dg s) s' = lives s s'"
  "lives (ss_params_update pf s) s' = lives s s'" "lives (ss_session_id_update nf s) s' = lives s s'"
  "lives (ss_rng_update gf s) s' = lives s s'" "lives (last_received_update tf s) s' = lives s s'"
  "lives s (last_received_update tf s') = lives s s'"
  "lives s (tick_channels now s') = lives s s'" "lives (tick_channels now s) s' = lives s s'"
  "lives s (ss_session_id_update nf s') = lives s s'" "lives s (ss_rng_update gf s') = lives s s'"
  by (simp_all add: lives_def) (simp_all add: life_of_def)

lemma lives_accept:
  "ss_state s = Negotiating \<Longrightarrow> life_of s' = (Running, True, ss_events s) \<Longrightarrow> lives s s'"
  by (simp add: lives_def) (simp add: life_of_def r_into_rtranclp life_step.accept)

lemma lives_establish:
  "ss_state s = Negotiating \<Longrightarrow>
   life_of s' = (Running, open_session_on_next_packet s, ss_events s @ [Opened]) \<Longrightarrow> lives s s'"
  by (simp add: lives_def) (simp add: life_of_def r_into_rtranclp life_step.establish)

text \<open>The possible event histories: nothing; \<open>Opened\<close> once; then \<open>Closed\<close> once, at the
  end.\<close>

definition life_ok :: "life \<Rightarrow> bool" where
  "life_ok l = (case l of (st, pending, es) \<Rightarrow>
     (case st of
        Negotiating \<Rightarrow> \<not> pending \<and> es = []
      | Running \<Rightarrow> (if pending then es = [] else es = [Opened])
      | Terminated \<Rightarrow> \<exists>r. es = [Closed r] \<or> es = [Opened, Closed r]))"

lemma life_ok_step: "life_step l l' \<Longrightarrow> life_ok l \<Longrightarrow> life_ok l'"
  by (induction rule: life_step.induct) (auto simp: life_ok_def split: SessionState.splits if_splits)

lemma lives_ok: "lives s s' \<Longrightarrow> life_ok (life_of s) \<Longrightarrow> life_ok (life_of s')"
  unfolding lives_def by (induction rule: rtranclp_induct) (auto intro: life_ok_step)

lemma life_ok_new: "life_ok (life_of (session_new mode params cipher seed now))"
  by (simp add: life_ok_def life_of_def session_new_def)

text \<open>Flushing changes neither the state nor the events.\<close>

interpretation life_view: unflushed life_of
  by unfold_locales simp_all

lemma disconnect_notice_life: "disconnect_notice notify r s = Some s' \<Longrightarrow> life_of s' = life_of s"
  by (auto simp: disconnect_notice_def bind_eq_Some_iff split: if_splits)

lemma terminate_lives:
  assumes "terminate_inner s r notify by_remote now = Some s'"
  shows "lives s s' \<and> ss_state s' = Terminated"
proof (cases "ss_state s = Terminated")
  case True
  with assms show ?thesis by (simp add: terminate_inner_def)
next
  case False
  with assms obtain s1 s2 where flush: "flush_channels (tick_outputs now s) = Some s1"
    and notice: "disconnect_notice notify r (s1\<lparr>termination_reason := r\<rparr>) = Some s2"
    and s': "s' = push_event (Closed r) (s2\<lparr>ss_state := Terminated, terminated_by_remote := by_remote\<rparr>)"
    by (auto simp: terminate_inner_eq bind_eq_Some_iff)
  from life_view.flush_view [OF flush] disconnect_notice_life [OF notice] have "life_of s2 = life_of s" by simp
  then have "life_of s' = (Terminated, open_session_on_next_packet s, ss_events s @ [Closed r])"
    unfolding s' by (simp add: life_of_def push_event_def)
  moreover have "life_step (life_of s) (Terminated, open_session_on_next_packet s, ss_events s @ [Closed r])"
    unfolding life_of_def by (rule life_step.close [OF False])
  ultimately show ?thesis by (simp add: lives_def) (simp add: life_of_def)
qed

lemmas terminate_livesD = terminate_lives [THEN conjunct1]

lemma open_pending_lives: "ss_state s \<noteq> Terminated \<Longrightarrow> lives s (open_pending s)"
  by (auto simp: lives_def open_pending_def life_of_def push_event_def intro!: r_into_rtranclp
      life_step.opened)

lemma negotiation_lives:
  "handle_session_request s body now = Some s' \<Longrightarrow> lives s s'"
  "handle_session_response s body now = Some s' \<Longrightarrow> lives s s'"
proof -
  show "lives s s'" if "handle_session_request s body now = Some s'"
    using that
    by (auto simp: handle_session_request_def bind_eq_Some_iff Let_def split_beta
        dest!: terminate_livesD split: sum.splits if_splits)
      (rule lives_accept, simp_all add: life_of_def push_outgoing_def)
  show "lives s s'" if "handle_session_response s body now = Some s'"
    using that
    by (auto simp: handle_session_response_def dest!: terminate_livesD split: sum.splits if_splits)
      (rule lives_establish, simp_all add: life_of_def push_event_def)
qed

lemma contextless_lives: "handle_contextless s op body now = Some s' \<Longrightarrow> lives s s'"
  by (auto simp: handle_contextless_def dest: negotiation_lives terminate_livesD split: OpCode.splits)

lemma disconnect_lives: "handle_disconnect s body now = Some s' \<Longrightarrow> lives s s'"
  by (auto simp: handle_disconnect_def dest: terminate_livesD split: sum.splits)

lemma heartbeat_lives: "handle_heartbeat s = Some s' \<Longrightarrow> lives s s'"
  by (auto simp: handle_heartbeat_def bind_eq_Some_iff split: if_splits)

lemma acknowledge_lives:
  "handle_acknowledge s ch body now = Some s' \<Longrightarrow> lives s s'"
  "handle_acknowledge_all s ch body now = Some s' \<Longrightarrow> lives s s'"
  by (auto simp: handle_acknowledge_def handle_acknowledge_all_def bind_eq_Some_iff split: sum.splits)

lemma reliable_lives: "handle_reliable s f ch body now = Some s' \<Longrightarrow> lives s s'"
  by (auto simp: handle_reliable_def bind_eq_Some_iff Let_def no_error dest!: terminate_livesD
      split: sum.splits if_splits)

lemmas leaf_lives = disconnect_lives heartbeat_lives acknowledge_lives reliable_lives

lemma open_touched_lives:
  "ss_state s \<noteq> Terminated \<Longrightarrow> lives s (open_pending (last_received_update f s))"
  using open_pending_lives [of "last_received_update f s"] by simp

lemma unreliable_lives:
  "handle_unreliable s dg now = Some r \<Longrightarrow> lives s (snd r)"
  by (auto simp: handle_unreliable_def Let_def bind_eq_Some_iff open_touched_lives
      split: if_splits)

lemma send_lives:
  "enqueue_reliable s ch data = Some s' \<Longrightarrow> lives s s'"
  "send_heartbeat_if_required s now = Some s' \<Longrightarrow> lives s s'"
  "send_session_request s = Some s' \<Longrightarrow> lives s s'"
  by (auto simp: enqueue_reliable_def send_heartbeat_if_required_def send_session_request_def
      bind_eq_Some_iff Let_def split_beta split: if_splits)

lemma refreshed_lives: "ss_state s \<noteq> Terminated \<Longrightarrow> lives s (refreshed s now)"
  by (simp add: refreshed_def open_pending_lives)

interpretation life: session_machine "lives s0" True "\<lambda>_ _. True" for s0
  by unfold_locales
    (auto simp: within_True intro: lives_trans
      dest!: life_view.flush_view [THEN lives_same] terminate_livesD leaf_lives contextless_lives
        unreliable_lives send_lives refreshed_lives)

lemmas step_lives = life.step_within [OF lives_refl, unfolded within_True, rule_format]

section \<open>Histories\<close>

definition history :: "SessionEvent list \<Rightarrow> session \<Rightarrow> life" where
  "history h s = (ss_state s, open_session_on_next_packet s, h @ ss_events s)"

lemma life_step_prefix:
  "life_step l l' \<Longrightarrow> life_step (fst l, fst (snd l), h @ snd (snd l)) (fst l', fst (snd l'), h @ snd (snd l'))"
  by (induction rule: life_step.induct) (simp_all add: life_step_simps)

lemma history_step: "lives s s' \<Longrightarrow> life_step\<^sup>*\<^sup>* (history h s) (history h s')"
proof -
  have "life_step\<^sup>*\<^sup>* (fst l, fst (snd l), h @ snd (snd l)) (fst l', fst (snd l'), h @ snd (snd l'))"
    if "life_step\<^sup>*\<^sup>* l l'" for l l'
    using that by (induction rule: rtranclp_induct) (auto intro: rtranclp.intros life_step_prefix)
  from this [of "life_of s" "life_of s'"] show "lives s s' \<Longrightarrow> ?thesis"
    by (simp add: lives_def life_of_def history_def)
qed

lemma life_ok_steps: "life_step\<^sup>*\<^sup>* l l' \<Longrightarrow> life_ok l \<Longrightarrow> life_ok l'"
  by (induction rule: rtranclp_induct) (auto intro: life_ok_step)

lemma session_run_history:
  "session_run inflate h s es = Some (h', s') \<Longrightarrow> life_step\<^sup>*\<^sup>* (history h s) (history h' s')"
proof (induction es arbitrary: h s)
  case (Cons e es)
  then obtain s1 where s1: "session_step inflate s e = Some s1"
    and rest: "session_run inflate (if e = OpDrain then h @ ss_events s else h) s1 es = Some (h', s')"
    by (auto simp: bind_eq_Some_iff)
  note run = Cons.IH [OF rest]
  show ?case
  proof (cases "e = OpDrain")
    case True
    then have "s1 = drain s" using s1 by simp
    then have "history (h @ ss_events s) s1 = history h s" by (simp add: history_def drain_def)
    with run True show ?thesis by simp
  next
    case False
    then have "lives s s1" using step_lives [OF _ False s1] by (simp add: life.admitted_def)
    with run False show ?thesis using rtranclp_trans [OF history_step] by simp
  qed
qed simp

lemma flush_idle:
  "flush_channels (session_new mode params cipher seed now) = Some (session_new mode params cipher seed now)"
  by (simp add: flush_channels_def flush_channel_def flush_acks_def flush_packets_def
      flush_app_data_def session_new_def RELIABLE_CHANNEL_COUNT_def upt_conv_Cons)

section \<open>Properties\<close>

text \<open>C12: Whatever a caller and the network do to a new session, in any order and with any
  datagrams, as long as no operation panics the events it has surfaced fit its state: none while
  negotiating; while running just \<open>Opened\<close>, or nothing yet when a server still waits for
  the first packet; once terminated exactly one \<open>Closed\<close>, last, after at most one
  \<open>Opened\<close>.\<close>

theorem session_lifecycle:
  assumes "session_run inflate [] (session_new mode params cipher seed now) ops = Some (h, s)"
  shows "case ss_state s of
      Negotiating \<Rightarrow> h @ ss_events s = []
    | Running \<Rightarrow> h @ ss_events s = (if open_session_on_next_packet s then [] else [Opened])
    | Terminated \<Rightarrow> \<exists>r. h @ ss_events s \<in> {[Closed r], [Opened, Closed r]}"
proof -
  have "life_ok (history [] (session_new mode params cipher seed now))"
    by (simp add: history_def life_ok_def session_new_def)
  from life_ok_steps [OF session_run_history [OF assms] this] show ?thesis
    by (auto simp: history_def life_ok_def split: SessionState.splits)
qed

theorem session_lifecycle_witness:
  "\<exists>h s. session_run (\<lambda>_. Inl Zlib) [] (session_new Server session_parameters_default None 0 0)
      [OpTerminate Application True 1, OpDrain, OpDatagram [1, 2, 3] 2] = Some (h, s) \<and>
    ss_state s = Terminated \<and> (\<exists>r. h @ ss_events s \<in> {[Closed r], [Opened, Closed r]})"
proof -
  let ?s = "session_new Server session_parameters_default None 0 0"
  let ?ops = "[OpTerminate Application True 1, OpDrain, OpDatagram [1, 2, 3] 2]"
  have "tick_outputs 1 ?s = ?s" by (simp add: tick_outputs_def session_new_def RELIABLE_CHANNEL_COUNT_def)
  then have "\<exists>t. terminate ?s Application True 1 = Some t \<and> ss_state t = Terminated"
    by (simp add: terminate_def terminate_inner_eq flush_idle disconnect_notice_def)
      (simp add: session_new_def push_event_def)
  then obtain h s where run: "session_run (\<lambda>_. Inl Zlib) [] ?s ?ops = Some (h, s)"
    and "ss_state s = Terminated"
    by (auto simp: process_incoming_def drain_def)
  then show ?thesis using session_lifecycle [OF run] by auto
qed

text \<open>A terminated session is inert: it accepts no data and no operation changes it, draining
  its queues apart, so nothing more is sent, received or surfaced.\<close>

theorem terminated_session_inert:
  assumes "ss_state s = Terminated"
  shows "enqueue_data_on s data channel = Some (False, s) \<and>
    session_run inflate h s ops =
      Some (if OpDrain \<in> set ops then (h @ ss_events s, drain s) else (h, s))"
proof -
  have step: "session_step inflate t e = Some t" if "ss_state t = Terminated" "e \<noteq> OpDrain" for t e
    using that
    by (cases e) (simp_all add: send_session_request_def enqueue_data_on_def terminate_def
        terminate_inner_def process_incoming_def session_run_tick_def)
  have "ss_state t = Terminated \<Longrightarrow> session_run inflate h t ops =
      Some (if OpDrain \<in> set ops then (h @ ss_events t, drain t) else (h, t))" for h t
    by (induction ops arbitrary: h t) (auto simp: step drain_def)
  with assms show ?thesis by (simp add: enqueue_data_on_def)
qed

theorem terminated_session_inert_witness:
  "session_run (\<lambda>_. Inl Zlib) []
     ((session_new Client session_parameters_default None 0 0)\<lparr>ss_state := Terminated\<rparr>)
     [OpDatagram [0, 5, 1] 7, OpTick 8] =
   Some ([], (session_new Client session_parameters_default None 0 0)\<lparr>ss_state := Terminated\<rparr>)"
  using terminated_session_inert
    [of "(session_new Client session_parameters_default None 0 0)\<lparr>ss_state := Terminated\<rparr>"
      "[1]" "Reliable 0" "\<lambda>_. Inl Zlib" "[]" "[OpDatagram [0, 5, 1] 7, OpTick 8]"]
  by simp

end
