(* ===== verification/Soe_Session_Safe.thy ===== *)
theory Soe_Session_Safe
  imports Soe_Session_Life Soe_Output_Run Soe_Input_Run
begin

text \<open>
  No operation of a session panics: the parameters leave room for a packet, every channel
  created so far satisfies the invariant of its component, and every operation preserves this,
  whatever datagrams arrive. A client must not be handed a SessionResponse whose check value
  length exceeds four, the hypothesis \<open>crc_admitted\<close>; without it the code does panic, which
  the last property shows.
\<close>

section \<open>The invariant\<close>

definition slots_ok :: "('c \<Rightarrow> bool) \<Rightarrow> 'c option list \<Rightarrow> bool" where
  "slots_ok ok xs \<longleftrightarrow> length xs = RELIABLE_CHANNEL_COUNT \<and> (\<forall>c. Some c \<in> set xs \<longrightarrow> ok c)"

lemma slots_ok_new: "slots_ok ok (replicate RELIABLE_CHANNEL_COUNT None)"
  by (simp add: slots_ok_def)

lemma slots_ok_nth: "slots_ok ok xs \<Longrightarrow> ch < RELIABLE_CHANNEL_COUNT \<Longrightarrow> xs ! ch = Some c \<Longrightarrow> ok c"
  unfolding slots_ok_def by (metis nth_mem)

lemma slots_ok_update: "slots_ok ok xs \<Longrightarrow> ok c \<Longrightarrow> slots_ok ok (xs[ch := Some c])"
  by (auto simp: slots_ok_def dest!: set_update_subset_insert [THEN subsetD])

lemma slots_ok_map:
  "slots_ok ok xs \<Longrightarrow> (\<And>c. ok c \<Longrightarrow> ok (f c)) \<Longrightarrow> slots_ok ok (map (map_option f) xs)"
  unfolding slots_ok_def by (auto simp: eq_commute [of "Some _"])

definition room_ok :: "session_parameters \<Rightarrow> bool" where
  "room_ok p \<longleftrightarrow> unat (crc_length p) \<le> 4 \<and> 13 \<le> unat (udp_length p) \<and>
     0 < max_queued_incoming_reliable p"

definition sending_ok :: "output_channel \<Rightarrow> bool" where
  "sending_ok o' \<longleftrightarrow> output_ok o' \<and> 6 \<le> max_data_length (out_config o')"

definition safe :: "session \<Rightarrow> bool" where
  "safe s \<longleftrightarrow> room_ok (ss_params s) \<and> slots_ok sized (ss_inputs s) \<and>
     slots_ok sending_ok (ss_outputs s)"

text \<open>A SessionResponse is admitted when its check value is one the code can compute.\<close>

definition crc_admitted :: "SessionMode \<Rightarrow> bytes \<Rightarrow> bool" where
  "crc_admitted mode body \<longleftrightarrow> (mode = Client \<longrightarrow>
     (\<forall>r. session_response_deserialize body False = Inr r \<longrightarrow> unat (sp_crc_length r) \<le> 4))"

lemma safe_new: "room_ok params \<Longrightarrow> safe (session_new mode params cipher seed now)"
  by (simp add: safe_def session_new_def slots_ok_new)

lemma safe_frame [simp]:
  "safe (push_outgoing dg s) = safe s" "safe (push_event e s) = safe s"
  "safe (push_received d chan s) = safe s" "safe (refreshed s now) = safe s"
  "safe (open_pending s) = safe s" "safe (drain s) = safe s"
  "safe (last_received_update tf s) = safe s" "safe (termination_reason_update rf s) = safe s"
  "safe (ss_session_id_update nf s) = safe s" "safe (ss_rng_update gf s) = safe s"
  "safe (ss_state_update sf s) = safe s" "safe (terminated_by_remote_update bf s) = safe s"
  "safe (open_session_on_next_packet_update pf s) = safe s"
  by (simp_all add: safe_def push_outgoing_def push_event_def push_received_def drain_def)

lemma safe_room [simp]: "safe s \<Longrightarrow> room_ok (ss_params s)"
  by (simp add: safe_def)

lemma safe_params [simp]:
  "safe s \<Longrightarrow> safe (ss_params_update pf s) = room_ok (pf (ss_params s))"
  by (simp add: safe_def)

lemma room_frame [simp]:
  "room_ok (p\<lparr>remote_udp_length := n\<rparr>) = room_ok p" "room_ok (p\<lparr>crc_seed := n\<rparr>) = room_ok p"
  "room_ok (p\<lparr>is_compression_enabled := c\<rparr>) = room_ok p"
  "room_ok p \<Longrightarrow> room_ok (p\<lparr>crc_length := l\<rparr>) = (unat l \<le> 4)"
  by (simp_all add: room_ok_def)

lemma safe_set_input: "safe s \<Longrightarrow> sized c \<Longrightarrow> safe (set_input ch c s)"
  by (simp add: safe_def set_input_def slots_ok_update)

lemma safe_set_output: "safe s \<Longrightarrow> sending_ok c \<Longrightarrow> safe (set_output ch c s)"
  by (simp add: safe_def set_output_def slots_ok_update)

lemma safe_crc: "safe s \<Longrightarrow> unat (crc_length (ss_params s)) \<le> 4"
  by (simp add: safe_def room_ok_def)

section \<open>Channels\<close>

lemma sized_same: "sized ch \<Longrightarrow> stash ch' = stash ch \<Longrightarrow> in_config ch' = in_config ch \<Longrightarrow>
   window_start_sequence ch' = window_start_sequence ch \<Longrightarrow> sized ch'"
  by (rule sized_cong [of ch]) simp_all

lemma sized_take:
  "sized c \<Longrightarrow> sized (snd (input_take_outgoing c))" "sized c \<Longrightarrow> sized (snd (take_app_data c))"
  by (rule sized_same, assumption, simp_all add: input_take_outgoing_def take_app_data_def)+

lemma sized_tick: "sized c \<Longrightarrow> sized (input_run_tick c now)"
  by (rule sized_same, assumption)
    (simp_all add: input_run_tick_def send_ack_all_def emit_def Let_def)

lemma sending_ok_take: "sending_ok c \<Longrightarrow> sending_ok (snd (output_take_outgoing c))"
  using output_ok_drain [of c] by (simp add: sending_ok_def output_take_outgoing_def)

lemma sending_ok_tick: "sending_ok c \<Longrightarrow> sending_ok (output_run_tick c now)"
  using output_ok_run_tick [of c now] by (simp add: sending_ok_def)

lemma sending_ok_acks:
  "sending_ok c \<Longrightarrow> sending_ok (notify_of_acknowledge c sq now)"
  "sending_ok c \<Longrightarrow> sending_ok (notify_of_acknowledge_all c sq now)"
  using output_ok_ack [of c sq now] output_ok_ack_all [of c sq now] by (simp_all add: sending_ok_def)

lemma sending_ok_enqueue:
  "sending_ok c \<Longrightarrow> \<exists>c'. enqueue_data c data = Some c' \<and> sending_ok c'"
  using output_ok_enqueue [of c data] by (auto simp: sending_ok_def)

lemma input_channel_total:
  assumes "safe s" and "ch < RELIABLE_CHANNEL_COUNT"
  shows "\<exists>c. session_input_channel s ch now = Some c \<and> sized c"
proof -
  have "ch < length (ss_inputs s)" using assms by (simp add: safe_def slots_ok_def)
  moreover have "sized (input_new (input_channel_config (ss_params s)) (ss_cipher s) now)"
    using assms(1) by (intro sized_new) (simp add: safe_def room_ok_def input_channel_config_def)
  ultimately show ?thesis
    using assms slots_ok_nth [of sized "ss_inputs s" ch]
    by (auto simp: session_input_channel_def safe_def split: option.split)
qed

lemma max_data_length_total:
  assumes "room_ok p"
  shows "\<exists>n. session_max_data_length p = Some n \<and> 6 \<le> n"
  using assms by (auto simp: session_max_data_length_def room_ok_def OP_CODE_SIZE_def usize_sub_def)

lemma output_channel_total:
  assumes "safe s" and "ch < RELIABLE_CHANNEL_COUNT"
  shows "\<exists>c. session_output_channel s ch now = Some c \<and> sending_ok c"
proof -
  have "ch < length (ss_outputs s)" using assms by (simp add: safe_def slots_ok_def)
  moreover obtain n where "session_max_data_length (ss_params s) = Some n" and "6 \<le> n"
    using assms(1) max_data_length_total by (auto simp: safe_def)
  ultimately show ?thesis
    using assms slots_ok_nth [of sending_ok "ss_outputs s" ch]
    by (auto simp: session_output_channel_def safe_def sending_ok_def output_ok_new output_new_def
        split: option.split) (simp_all add: output_ok_def)
qed

section \<open>Framing and flushing\<close>

lemma frame_safe [simp]:
  "safe s \<Longrightarrow> frame_contextual_raw s raw payload =
     Some (with_check (ss_params s) (contextual_body (ss_params s) raw payload))"
  by (rule frame_contextual_raw_eq [OF safe_crc])

lemma push_frames_total: "safe s \<Longrightarrow> \<exists>s'. push_frames fs s = Some s' \<and> safe s'"
  by (induction fs arbitrary: s) simp_all

lemma push_app_data_safe [simp]: "safe (push_app_data ch ds s) = safe s"
  by (induction ds arbitrary: s) simp_all

lemma safe_input: "safe s \<Longrightarrow> ch < RELIABLE_CHANNEL_COUNT \<Longrightarrow> ss_inputs s ! ch = Some c \<Longrightarrow> sized c"
  by (rule slots_ok_nth [of sized "ss_inputs s" ch]) (simp_all add: safe_def)

lemma safe_output:
  "safe s \<Longrightarrow> ch < RELIABLE_CHANNEL_COUNT \<Longrightarrow> ss_outputs s ! ch = Some c \<Longrightarrow> sending_ok c"
  by (rule slots_ok_nth [of sending_ok "ss_outputs s" ch]) (simp_all add: safe_def)

lemma flush_acks_total:
  assumes "safe s" and "ch < RELIABLE_CHANNEL_COUNT"
  shows "\<exists>s'. flush_acks ch s = Some s' \<and> safe s'"
proof (cases "ss_inputs s ! ch")
  case (Some c)
  have "safe (set_input ch (snd (input_take_outgoing c)) s)"
    by (intro safe_set_input sized_take safe_input [OF assms Some] assms)
  from push_frames_total [OF this] Some show ?thesis by (simp add: flush_acks_def split_beta)
qed (simp add: flush_acks_def assms)

lemma flush_packets_total:
  assumes "safe s" and "ch < RELIABLE_CHANNEL_COUNT"
  shows "\<exists>s'. flush_packets ch s = Some s' \<and> safe s'"
proof (cases "ss_outputs s ! ch")
  case (Some c)
  have "safe (set_output ch (snd (output_take_outgoing c)) s)"
    by (intro safe_set_output sending_ok_take safe_output [OF assms Some] assms)
  from push_frames_total [OF this] Some show ?thesis by (simp add: flush_packets_def split_beta)
qed (simp add: flush_packets_def assms)

lemma flush_channel_total:
  assumes "safe s" and "ch < RELIABLE_CHANNEL_COUNT"
  shows "\<exists>s'. flush_channel ch s = Some s' \<and> safe s'"
proof -
  obtain s1 where s1: "flush_acks ch s = Some s1" "safe s1"
    using flush_acks_total [OF assms] by blast
  obtain s2 where s2: "flush_packets ch s1 = Some s2" "safe s2"
    using flush_packets_total [OF s1(2) assms(2)] by blast
  have "safe (flush_app_data ch s2)"
    using s2 safe_input [OF s2(2) assms(2)]
    by (auto simp: flush_app_data_def split_beta safe_set_input sized_take split: option.split)
  with s1 s2 show ?thesis by (simp add: flush_channel_def)
qed

lemma flush_list_total:
  "safe s \<Longrightarrow> \<forall>ch\<in>set chs. ch < RELIABLE_CHANNEL_COUNT \<Longrightarrow> \<exists>s'. flush_list chs s = Some s' \<and> safe s'"
proof (induction chs arbitrary: s)
  case (Cons ch chs)
  then obtain s1 where "flush_channel ch s = Some s1" and "safe s1"
    using flush_channel_total [of s ch] by auto
  with Cons.IH [of s1] Cons.prems show ?case by simp
qed simp

lemma flush_total: "safe s \<Longrightarrow> \<exists>s'. flush_channels s = Some s' \<and> safe s'"
  unfolding flush_channels_def by (rule flush_list_total) simp_all

section \<open>Handlers\<close>

lemma safe_tick: "safe s \<Longrightarrow> safe (tick_outputs now s)" "safe s \<Longrightarrow> safe (tick_channels now s)"
  by (simp_all add: safe_def tick_outputs_def tick_channels_def slots_ok_map sending_ok_tick sized_tick)

lemma disconnect_buffer:
  "disconnect_serialize d (replicate DISCONNECT_SIZE 0) = Inr (disconnect_bytes d, DISCONNECT_SIZE)"
  using disconnect.exact_buffer [of d] by (simp add: layout_sizes)

lemma notice_total: "safe s \<Longrightarrow> \<exists>s'. disconnect_notice notify r s = Some s' \<and> safe s'"
  by (auto simp: disconnect_notice_def disconnect_buffer frame_contextual_def)

lemma terminate_total: "safe s \<Longrightarrow> \<exists>s'. terminate_inner s r notify by_remote now = Some s' \<and> safe s'"
proof (cases "ss_state s = Terminated")
  case False
  assume "safe s"
  then obtain s1 where "flush_channels (tick_outputs now s) = Some s1" and "safe s1"
    using flush_total [OF safe_tick(1)] by blast
  moreover from this obtain s2 where
    "disconnect_notice notify r (s1\<lparr>termination_reason := r\<rparr>) = Some s2" and "safe s2"
    using notice_total [of "s1\<lparr>termination_reason := r\<rparr>"] by auto
  ultimately show ?thesis using False by (simp add: terminate_inner_eq)
qed (simp add: terminate_inner_def)

lemma heartbeat_total: "safe s \<Longrightarrow> \<exists>s'. handle_heartbeat s = Some s' \<and> safe s'"
  by (auto simp: handle_heartbeat_def frame_contextual_def)

lemma acknowledge_total:
  assumes "safe s" and "ch < RELIABLE_CHANNEL_COUNT"
  shows "\<exists>s'. handle_acknowledge s ch body now = Some s' \<and> safe s'"
    and "\<exists>s'. handle_acknowledge_all s ch body now = Some s' \<and> safe s'"
  using output_channel_total [OF assms, of now] assms(1)
  by (auto simp: handle_acknowledge_def handle_acknowledge_all_def safe_set_output sending_ok_acks
      split: sum.split)

lemma reliable_total:
  assumes "safe s" and "ch < RELIABLE_CHANNEL_COUNT"
  shows "\<exists>s'. handle_reliable s fragment ch body now = Some s' \<and> safe s'"
proof -
  obtain c where c: "session_input_channel s ch now = Some c" "sized c"
    using input_channel_total [OF assms] by blast
  obtain c' r where r: "handle_packet c fragment body now = Some (c', r)" "sized c'"
    using handle_total [OF c(2)] by blast
  then have "safe (set_input ch c' s)" using assms(1) by (simp add: safe_set_input)
  with c r terminate_total [OF this] show ?thesis
    by (auto simp: handle_reliable_def handle_packet_def Let_def split: sum.split)
qed

section \<open>The contract\<close>

lemma request_buffer:
  "session_request_serialize p (replicate (session_request_size p) 0) =
     Inr (session_request_bytes p, session_request_size p)"
  using session_request.exact_buffer [of p] by (simp add: layout_sizes)

lemma response_buffer:
  "session_response_serialize p (replicate SESSION_RESPONSE_SIZE 0) =
     Inr (session_response_bytes p, SESSION_RESPONSE_SIZE)"
  using session_response.exact_buffer [of p] by (simp add: layout_sizes)

lemma send_request_total: "safe s \<Longrightarrow> \<exists>s'. send_session_request s = Some s' \<and> safe s'"
  by (auto simp: send_session_request_def Let_def split_beta request_buffer)

lemma session_request_total: "safe s \<Longrightarrow> \<exists>s'. handle_session_request s body now = Some s' \<and> safe s'"
  by (auto simp: handle_session_request_def Let_def split_beta response_buffer
      CRC_LENGTH_def terminate_total split: sum.split)

lemma session_response_total':
  "safe s \<Longrightarrow> crc_admitted (ss_mode s) body \<Longrightarrow>
   \<exists>s'. handle_session_response s body now = Some s' \<and> safe s'"
  by (auto simp: handle_session_response_def terminate_total crc_admitted_def split: sum.split)
    (cases "ss_mode s"; simp)+

lemma contextless_total:
  "safe s \<Longrightarrow> crc_admitted (ss_mode s) body \<Longrightarrow>
   \<exists>s'. handle_contextless s op body now = Some s' \<and> safe s'"
  by (cases op) (simp_all add: handle_contextless_def session_request_total session_response_total'
      terminate_total)

lemma unreliable_total:
  "safe s \<Longrightarrow> \<exists>r. handle_unreliable s dg now = Some r \<and> safe (snd r)"
  using safe_crc [of s] by (auto simp: handle_unreliable_def Let_def)

lemma enqueue_reliable_total:
  assumes "safe s" and "ch < RELIABLE_CHANNEL_COUNT"
  shows "\<exists>s'. enqueue_reliable s ch data = Some s' \<and> safe s'"
proof -
  obtain c where c: "session_output_channel s ch (last_received s) = Some c" "sending_ok c"
    using output_channel_total [OF assms] by blast
  obtain c' where "enqueue_data c data = Some c'" "sending_ok c'"
    using sending_ok_enqueue [OF c(2)] by blast
  with c assms show ?thesis by (simp add: enqueue_reliable_def safe_set_output)
qed

interpretation safe: session_machine safe False crc_admitted
proof (unfold_locales, unfold within_False)
  show "\<exists>x. frame_unreliable s data = Some x \<and> True" if "safe s" "data \<noteq> []" for s data
    using frame_unreliable_eq [OF safe_crc [OF that(1)] that(2)] by simp
  show "\<exists>x. validated s dg = Some x \<and> True" if "safe s" for s dg
    using validate_total [OF safe_crc [OF that]] by blast
  show "\<exists>x. send_heartbeat_if_required s now = Some x \<and> safe x" if "safe s" for s now
    using that by (simp add: send_heartbeat_if_required_def frame_contextual_def)
  show "\<exists>r. handle_unreliable s dg now = Some r \<and> safe (snd r)" if "safe s" for s dg now
    using that by (rule unreliable_total)
qed (simp_all add: terminate_total heartbeat_total acknowledge_total reliable_total flush_total
    contextless_total safe_tick enqueue_reliable_total send_request_total)

lemma step_safe:
  assumes "safe s" and "safe.admitted (ss_mode s) e"
  shows "\<exists>s'. session_step inflate s e = Some s' \<and> safe s'"
  using safe.step_within [OF assms, of inflate] assms(1)
  by (cases "e = OpDrain") (simp_all add: within_False)

lemma run_safe:
  assumes "safe s" and "\<forall>e\<in>set ops. safe.admitted (ss_mode s) e"
  shows "\<exists>h' s'. session_run inflate h s ops = Some (h', s') \<and> safe s'"
  using assms
proof (induction ops arbitrary: h s)
  case (Cons e ops)
  then obtain s1 where s1: "session_step inflate s e = Some s1" "safe s1"
    using step_safe [of s e inflate] by auto
  from Cons.prems(2) have "\<forall>e\<in>set ops. safe.admitted (ss_mode s1) e"
    using step_mode [OF s1(1)] by simp
  with Cons.IH [OF s1(2)] s1 show ?case by simp
qed simp

section \<open>After the negotiation\<close>

text \<open>Once the negotiation is over a session is safe against every datagram: a SessionResponse no
  longer changes the parameters.\<close>

definition past :: "session \<Rightarrow> bool" where
  "past s \<longleftrightarrow> safe s \<and> ss_state s \<noteq> Negotiating"

lemma lives_past: "lives s s' \<Longrightarrow> ss_state s \<noteq> Negotiating \<Longrightarrow> ss_state s' \<noteq> Negotiating"
proof -
  have step: "fst l' \<noteq> Negotiating" if "life_step l l'" "fst l \<noteq> Negotiating" for l l'
    using that by (auto simp: life_step_simps)
  have "fst l' \<noteq> Negotiating" if "life_step\<^sup>*\<^sup>* l l'" "fst l \<noteq> Negotiating" for l l'
    using that(1) by (induction rule: rtranclp_induct) (use that(2) step in auto)
  from this [of "life_of s" "life_of s'"] show "lives s s' \<Longrightarrow> ss_state s \<noteq> Negotiating \<Longrightarrow> ?thesis"
    by (simp add: lives_def life_of_def)
qed

lemma within_past:
  assumes "within False safe r" and "within True (lives s) r" and "past s"
  shows "within False past r"
  using assms lives_past by (auto simp: within_def past_def split: option.splits)

lemma contextless_past: "past s \<Longrightarrow> within False safe (handle_contextless s op body now)"
  unfolding within_False
  by (cases op) (auto simp: handle_contextless_def session_request_total terminate_total past_def
      handle_session_response_def split: sum.split)

interpretation past: session_machine past False "\<lambda>_ _. True"
proof unfold_locales
  fix s assume p: "past s"
  then have safe: "safe s" by (simp add: past_def)
  note step = within_past [OF _ _ p]
  show "within False past (terminate_inner s r notify by_remote now)" for r notify by_remote now
    by (rule step [OF safe.terminate_within life.terminate_within]) (simp_all add: safe)
  show "within False past (handle_heartbeat s)"
    by (rule step [OF safe.heartbeat_within life.heartbeat_within]) (simp_all add: safe)
  show "within False past (flush_channels s)"
    by (rule step [OF safe.flush_within life.flush_within]) (simp_all add: safe)
  show "within False (\<lambda>_. True) (validated s dg)" for dg
    by (rule safe.validate_within [OF safe])
  show "past (refreshed s now)" if "ss_state s \<noteq> Terminated" for now
    using that p safe.open_good [OF safe that] lives_past [OF life.open_good [OF lives_refl that]]
    by (simp add: past_def)
  show "within False past (handle_contextless s op body now)" for op body now
    by (rule step [OF contextless_past [OF p] life.contextless_within]) simp_all
  show "within False (\<lambda>r. past (snd r)) (handle_unreliable s dg now)" for dg now
    using safe.unreliable_within [OF safe, of dg now] life.unreliable_within [OF lives_refl, of s dg now] p lives_past
    by (auto simp: within_def past_def split: option.splits)
  show "past (tick_channels now s)" for now
    using p safe.tick_good [OF safe] by (simp add: past_def tick_channels_def)
  show "within False past (send_heartbeat_if_required s now)" for now
    by (rule step [OF safe.due_within life.due_within]) (simp_all add: safe)
  show "past (push_outgoing dg s)" for dg
    using p safe.push_good [OF safe] by (simp add: past_def) (simp add: push_outgoing_def)
  show "within False past (send_session_request s)"
    by (rule step [OF safe.request_within life.request_within]) (simp_all add: safe)
  show "within False (\<lambda>_. True) (frame_unreliable s data)" if "data \<noteq> []" for data
    by (rule safe.frame_within [OF safe that])
  fix ch :: nat assume ch: "ch < RELIABLE_CHANNEL_COUNT"
  show "within False past (handle_acknowledge s ch body now)" for body now
    by (rule step [OF safe.acknowledge_within life.acknowledge_within]) (simp_all add: safe ch)
  show "within False past (handle_acknowledge_all s ch body now)" for body now
    by (rule step [OF safe.acknowledge_all_within life.acknowledge_all_within]) (simp_all add: safe ch)
  show "within False past (handle_reliable s fragment ch body now)" for fragment body now
    by (rule step [OF safe.reliable_within life.reliable_within]) (simp_all add: safe ch)
  show "within False past (enqueue_reliable s ch data)" for data
    by (rule step [OF safe.enqueue_within life.enqueue_within]) (simp_all add: safe ch)
qed

lemma step_past:
  assumes "past s"
  shows "\<exists>s'. session_step inflate s e = Some s' \<and> past s'"
proof (cases "e = OpDrain")
  case True
  with assms show ?thesis by (simp add: past_def drain_def safe_def)
next
  case False
  with past.step_within [OF assms, of e inflate] show ?thesis
    by (simp add: within_False past.admitted_def)
qed
lemma run_past: "past s \<Longrightarrow> \<exists>h' s'. session_run inflate h s ops = Some (h', s') \<and> past s'"
proof (induction ops arbitrary: h s)
  case (Cons e ops)
  obtain s1 where "session_step inflate s e = Some s1" "past s1"
    using step_past [OF Cons.prems, of inflate e] by blast
  with Cons.IH show ?case by simp
qed simp

section \<open>Properties\<close>

text \<open>C6: A session with parameters that leave room for a packet (a check value of at most four
  bytes, datagrams of at least thirteen, a non-empty receive window) returns from any sequence of
  operations: of a server from every one, whatever datagrams arrive; of a client from every one in
  which no datagram is a SessionResponse with a check value longer than four bytes.\<close>

theorem session_never_panics:
  assumes "unat (crc_length params) \<le> 4" and "13 \<le> unat (udp_length params)"
    and "0 < max_queued_incoming_reliable params"
    and "mode = Client \<longrightarrow> (\<forall>dg now r. OpDatagram dg now \<in> set ops \<longrightarrow>
      session_response_deserialize (drop 2 dg) False = Inr r \<longrightarrow> unat (sp_crc_length r) \<le> 4)"
  shows "\<exists>h s. session_run inflate [] (session_new mode params cipher seed now) ops = Some (h, s)"
proof -
  have "safe (session_new mode params cipher seed now)"
    using assms(1-3) by (simp add: safe_new room_ok_def)
  moreover have "\<forall>e\<in>set ops. safe.admitted (ss_mode (session_new mode params cipher seed now)) e"
    using assms(4) by (auto simp: safe.admitted_def crc_admitted_def session_new_def)
  ultimately show ?thesis using run_safe by blast
qed

theorem session_never_panics_witness:
  "\<exists>h s. session_run (\<lambda>_. Inl Zlib) [] (session_new Server session_parameters_default None 1 0)
     [OpDatagram [0, 1, 0, 0, 0, 3] 1, OpEnqueue [1] (Reliable 9), OpTick 2] = Some (h, s)"
  by (rule session_never_panics)
    (simp_all add: session_parameters_default_def CRC_LENGTH_def DEFAULT_UDP_LENGTH_def)

text \<open>Well-formedness is preserved by every operation: parameters with room, four receive
  channels each with a stash of its window's size, four send channels each with a consistent
  send window; the operation also leaves the mode of the session as it was.\<close>

theorem session_operations_well_formed:
  assumes "safe s" and "\<forall>dg now. e = OpDatagram dg now \<longrightarrow> crc_admitted (ss_mode s) (drop 2 dg)"
  shows "\<exists>s'. session_step inflate s e = Some s' \<and> safe s' \<and> ss_mode s' = ss_mode s"
  using step_safe [OF assms(1), of e inflate] assms(2) step_mode
  by (auto simp: safe.admitted_def)

theorem session_operations_well_formed_witness:
  "\<exists>s'. session_step (\<lambda>_. Inl Zlib) (session_new Server session_parameters_default None 1 0)
     (OpDatagram [0, 15, 0, 0, 7] 3) = Some s' \<and> safe s' \<and> ss_mode s' = Server"
  using session_operations_well_formed
    [of "session_new Server session_parameters_default None 1 0" "OpDatagram [0, 15, 0, 0, 7] 3"
      "\<lambda>_. Inl Zlib"]
  by (simp add: safe_new room_ok_def crc_admitted_def session_parameters_default_def
      CRC_LENGTH_def DEFAULT_UDP_LENGTH_def)
    (simp add: session_new_def)



end
