(* ===== verification/Soe_Session_Wire.thy ===== *)
theory Soe_Session_Wire
  imports Soe_Session_Life Soe_Session_Safe
begin

text \<open>
  Two sessions on the wire: what one session frames is what its peer takes apart. The first part
  is about single datagrams, contextual and unreliable; the second about the negotiation, after
  which both ends hold the same parameters.
\<close>

section \<open>Contextual datagrams\<close>

lemma with_check_parts:
  assumes "unat (crc_length p) \<le> 4"
  shows "length (with_check p body) = length body + unat (crc_length p)"
    and "take (length body) (with_check p body) = body"
  using assms by (simp_all add: with_check_def)

lemma contextual_body_parts:
  "length (contextual_body p raw payload) =
     2 + (if is_compression_enabled p then 1 else 0) + length payload"
  "read_op_code (contextual_body p raw payload @ bs) = op_from_u16 raw"
  "drop 2 (contextual_body p raw payload @ bs) =
     (if is_compression_enabled p then [0] else []) @ payload @ bs"
  "of_be16 ((contextual_body p raw payload @ bs) ! 0) ((contextual_body p raw payload @ bs) ! 1) = raw"
  by (simp_all add: contextual_body_def be16_def)

text \<open>Sessions share a wire when they agree on what frames a datagram.\<close>

definition same_wire :: "session_parameters \<Rightarrow> session_parameters \<Rightarrow> bool" where
  "same_wire p q \<longleftrightarrow> crc_seed p = crc_seed q \<and> crc_length p = crc_length q \<and>
     is_compression_enabled p = is_compression_enabled q \<and> unat (crc_length p) \<le> 4"

lemma same_wire_framed:
  "same_wire p q \<Longrightarrow> with_check p b = with_check q b"
  "same_wire p q \<Longrightarrow> contextual_body p raw b = contextual_body q raw b"
  by (simp_all add: same_wire_def with_check_def contextual_body_def)

lemma framed_valid:
  assumes "unat (crc_length p) \<le> 4" and "op_from_u16 raw = Some op"
    and "packet_minimum_length op (is_compression_enabled p) (crc_length p) \<le>
      2 + (if is_compression_enabled p then 1 else 0) + length payload + unat (crc_length p)"
  shows "validate_packet (with_check p (contextual_body p raw payload)) (crc32_new (crc_seed p))
    (crc_length p) (is_compression_enabled p) = Some (Valid, Some op)"
  unfolding with_check_def
  using validate_framed [of "contextual_body p raw payload" op "crc_length p"
      "check_value (crc32_new (crc_seed p)) (crc_length p) (contextual_body p raw payload)"
      "is_compression_enabled p"]
    assms contextual_body_parts(1) [of p raw payload] contextual_body_parts(2) [of p raw payload "[]"]
  by simp

lemma process_framed:
  assumes p: "p = ss_params r" and crc: "unat (crc_length p) \<le> 4"
    and op: "op_from_u16 raw = Some op" "\<not> is_contextless op"
    and len: "packet_minimum_length op (is_compression_enabled p) (crc_length p) \<le>
      2 + (if is_compression_enabled p then 1 else 0) + length payload + unat (crc_length p)"
    and live: "ss_state r \<noteq> Terminated"
  shows "process_incoming inflate r (with_check p (contextual_body p raw payload)) now =
    Option.bind (handle_contextual_inner (refreshed r now) op (reliable_channel raw) payload now)
      flush_channels"
proof -
  let ?dg = "with_check p (contextual_body p raw payload)"
  have "datagram_channel ?dg = reliable_channel raw"
    unfolding datagram_channel_def with_check_def contextual_body_parts(4) ..
  moreover have "valid_body r ?dg = (if is_compression_enabled p then [0] else []) @ payload"
    using crc unfolding valid_body_def p [symmetric] with_check_parts(1) [OF crc]
    by (simp add: with_check_def contextual_body_parts
        contextual_body_parts(3) [of _ _ _ "[]", simplified])
  moreover have "handle_contextual inflate (refreshed r now) op ch
      ((if is_compression_enabled p then [0] else []) @ payload) now =
    handle_contextual_inner (refreshed r now) op ch payload now" for ch
    by (simp add: handle_contextual_def p)
  ultimately show ?thesis
    using process_valid [OF live, of ?dg op inflate now] framed_valid [OF crc op(1) len] op(2)
    by (simp add: p)
qed

text \<open>C14: A contextual datagram framed by one session reaches the handler of its peer with the
  OP code, the channel and the payload it was framed with, whatever the compression setting they
  share. The receiver need not be running.\<close>

theorem contextual_datagram_round_trip:
  assumes "same_wire (ss_params s) (ss_params r)" and "ss_state r \<noteq> Terminated"
    and "op_from_u16 raw = Some op" and "\<not> is_contextless op"
    and "packet_minimum_length op (is_compression_enabled (ss_params s)) (crc_length (ss_params s)) \<le>
      2 + (if is_compression_enabled (ss_params s) then 1 else 0) + length payload +
      unat (crc_length (ss_params s))"
  shows "\<exists>dg. frame_contextual_raw s raw payload = Some dg \<and>
    process_incoming inflate r dg now =
      Option.bind (handle_contextual_inner (refreshed r now) op (reliable_channel raw) payload now)
        flush_channels"
proof -
  let ?p = "ss_params s" and ?q = "ss_params r"
  have crc: "unat (crc_length ?p) \<le> 4" "unat (crc_length ?q) \<le> 4"
    using assms(1) by (auto simp: same_wire_def)
  note eqs = same_wire_framed [OF assms(1)]
  have "process_incoming inflate r (with_check ?p (contextual_body ?p raw payload)) now =
      Option.bind (handle_contextual_inner (refreshed r now) op (reliable_channel raw) payload now)
        flush_channels"
    unfolding eqs using assms by (intro process_framed crc) (simp_all add: same_wire_def)
  then show ?thesis using frame_contextual_raw_eq [OF crc(1)] by simp
qed

theorem contextual_datagram_round_trip_witness:
  "\<exists>dg. frame_contextual_raw (session_new Client session_parameters_default None 0 0) 0x0A [0, 0, 7] =
      Some dg \<and>
    process_incoming (\<lambda>_. Inl Zlib) (session_new Server session_parameters_default None 0 0) dg 5 =
      Option.bind (handle_contextual_inner
        (refreshed (session_new Server session_parameters_default None 0 0) 5) ReliableData
        (reliable_channel 0x0A) [0, 0, 7] 5) flush_channels"
  by (rule contextual_datagram_round_trip)
    (simp_all add: session_new_def session_parameters_default_def same_wire_def CRC_LENGTH_def
      op_from_u16_def contextual_padding_def OP_CODE_SIZE_def)

section \<open>Unreliable datagrams\<close>

lemma op_needs_zero: "op_from_u16 (of_be16 a b) = Some op \<Longrightarrow> a = 0"
proof -
  assume "op_from_u16 (of_be16 a b) = Some op"
  then have "of_be16 a b \<le> 0x1E" by (rule op_from_u16_high_byte)
  then have "unat (of_be16 a b) div 2 ^ 8 = 0" by (simp add: word_le_nat_alt)
  then have "unat (drop_bit 8 (of_be16 a b)) = 0"
    by (simp only: unat_drop_bit_eq drop_bit_nat_def)
  then have "drop_bit 8 (of_be16 a b) = 0" by (simp only: unat_eq_0)
  then show "a = 0" using be16_of_be16 [of a b] by (simp add: be16_def)
qed

lemma no_op_code: "a \<noteq> 0 \<Longrightarrow> op_from_u16 (of_be16 a b) = None"
  using op_needs_zero by (cases "op_from_u16 (of_be16 a b)") auto

lemma unreliable_no_op:
  assumes "payload \<noteq> []"
  shows "read_op_code (unreliable_body payload @ bs) = None"
proof (cases "hd payload = 0")
  case True
  with assms show ?thesis
    by (cases payload) (simp_all add: unreliable_body_def of_be16_def op_from_u16_def)
next
  case False
  with assms show ?thesis
    by (cases "payload @ bs" rule: remdups_adj.cases)
      (auto simp: unreliable_body_def read_op_code_short neq_Nil_conv no_op_code)
qed

lemma unreliable_escape:
  "payload \<noteq> [] \<Longrightarrow> unreliable_body payload \<noteq> []"
  "payload \<noteq> [] \<Longrightarrow> \<not> (unreliable_body payload ! 0 = 0 \<and>
     (length (unreliable_body payload) < 2 \<or> unreliable_body payload ! 1 \<noteq> 0))"
  "payload \<noteq> [] \<Longrightarrow> (if unreliable_body payload ! 0 = 0 then tl (unreliable_body payload)
     else unreliable_body payload) = payload"
  by (auto simp: unreliable_body_def neq_Nil_conv)

lemma handle_unreliable_framed:
  assumes p: "p = ss_params r" and crc: "unat (crc_length p) \<le> 4"
    and "payload \<noteq> []" and "ss_state r = Running"
  shows "handle_unreliable r (with_check p (unreliable_body payload)) now =
    Some (True, push_received payload Unreliable (open_pending (r\<lparr>last_received := now\<rparr>)))"
proof -
  let ?b = "unreliable_body payload" and ?l = "unat (crc_length p)"
  note parts = unreliable_escape(1) [OF assms(3)] unreliable_escape(2,3) [OF assms(3), folded One_nat_def]
  have len: "length (with_check p ?b) = length ?b + ?l" by (rule with_check_parts [OF crc])
  have split: "take (length ?b) (with_check p ?b) = ?b" by (rule with_check_parts [OF crc])
  have check: "drop (4 - ?l) (be32 (crc32_hash (crc32_new (crc_seed p)) ?b)) =
      drop (length ?b) (with_check p ?b)" if "0 < ?l"
    using that by (simp add: with_check_def check_value_def)
  have "?l + 1 \<le> length (with_check p ?b)" using len parts(1) by (cases ?b) simp_all
  with assms(4) crc len split check parts show ?thesis
    by (simp only: handle_unreliable_def Let_def flip: p) (auto split: if_splits)
qed

text \<open>C13: Unreliable data sent by a running session that is small enough to go out raw is framed
  without a panic and delivered by a running peer that shares its check value, byte for byte and
  tagged unreliable, a leading zero byte included; the only exception is a datagram of a single
  byte, which needs a payload of one non-zero byte and no check value.\<close>

theorem unreliable_round_trip:
  assumes "same_wire (ss_params s) (ss_params r)"
    and "ss_state s = Running" and "ss_state r = Running" and "payload \<noteq> []"
    and "(if payload ! 0 = 0 then 1 else 0) + length payload + unat (crc_length (ss_params s)) \<le>
      unat (remote_udp_length (ss_params s))"
    and "hd payload = 0 \<or> 2 \<le> length payload + unat (crc_length (ss_params s))"
  shows "\<exists>dg. enqueue_data_on s payload Unreliable = Some (True, push_outgoing dg s) \<and>
    process_incoming inflate r dg now =
      flush_channels (push_received payload Unreliable (open_pending (r\<lparr>last_received := now\<rparr>)))"
proof -
  let ?p = "ss_params s"
  let ?dg = "with_check ?p (unreliable_body payload)"
  have crc: "unat (crc_length ?p) \<le> 4" "unat (crc_length (ss_params r)) \<le> 4"
    using assms(1) by (auto simp: same_wire_def)
  have "enqueue_data_on s payload Unreliable = Some (True, push_outgoing ?dg s)"
    using assms(2,4,5) frame_unreliable_eq [OF crc(1) assms(4)]
    by (simp add: enqueue_data_on_def Let_def)
  moreover have "2 \<le> length ?dg"
    using assms(4,6) crc by (cases payload) (auto simp: with_check_def unreliable_body_def)
  then have "validated r ?dg = Some (InvalidOpCode, None)"
    using unreliable_no_op [OF assms(4)]
    by (simp add: validate_packet_def with_check_def OP_CODE_SIZE_def)
  then have "process_incoming inflate r ?dg now =
      flush_channels (push_received payload Unreliable (open_pending (r\<lparr>last_received := now\<rparr>)))"
    using handle_unreliable_framed [OF refl crc(2) assms(4,3), of now] same_wire_framed(1) [OF assms(1)]
      assms(3)
    by (simp add: process_invalid)
  ultimately show ?thesis by blast
qed

text \<open>A running session.\<close>

abbreviation running :: "SessionMode \<Rightarrow> session" where
  "running mode \<equiv> (session_new mode session_parameters_default None 0 0)\<lparr>ss_state := Running\<rparr>"

theorem unreliable_round_trip_witness:
  "\<exists>dg. enqueue_data_on (running Client) [0, 9] Unreliable = Some (True, push_outgoing dg (running Client)) \<and>
    process_incoming (\<lambda>_. Inl Zlib) (running Server) dg 3 =
      flush_channels (push_received [0, 9] Unreliable
        (open_pending ((running Server)\<lparr>last_received := 3\<rparr>)))"
  by (rule unreliable_round_trip)
    (simp_all add: session_new_def session_parameters_default_def same_wire_def CRC_LENGTH_def
      DEFAULT_UDP_LENGTH_def)

text \<open>C36: The exception is fatal: with no check value a running session sends a payload of one
  non-zero byte as that byte alone, and the peer that receives it treats it as a corrupt packet
  and ends its session.\<close>

theorem single_byte_unreliable_terminates:
  assumes "same_wire (ss_params s) (ss_params r)" and "crc_length (ss_params s) = 0"
    and "ss_state s = Running" and "ss_state r \<noteq> Terminated" and "b \<noteq> 0"
    and "0 < unat (remote_udp_length (ss_params s))"
  shows "enqueue_data_on s [b] Unreliable = Some (True, push_outgoing [b] s) \<and>
    process_incoming inflate r [b] now = terminate_inner r CorruptPacket True False now"
  using assms frame_unreliable_eq [of s "[b]"]
  by (simp add: enqueue_data_on_def process_incoming_def validate_packet_def OP_CODE_SIZE_def
      with_check_def check_value_def unreliable_body_def Let_def)

theorem single_byte_unreliable_terminates_witness:
  "\<exists>s r. enqueue_data_on s [7] Unreliable = Some (True, push_outgoing [7] s) \<and>
     process_incoming (\<lambda>_. Inl Zlib) r [7] 1 = terminate_inner r CorruptPacket True False 1"
proof (intro exI)
  let ?n = "\<lambda>m. (running m)\<lparr>ss_params := session_parameters_default\<lparr>crc_length := 0\<rparr>\<rparr>"
  show "enqueue_data_on (?n Client) [7] Unreliable = Some (True, push_outgoing [7] (?n Client)) \<and>
     process_incoming (\<lambda>_. Inl Zlib) (?n Server) [7] 1 =
       terminate_inner (?n Server) CorruptPacket True False 1"
    by (rule single_byte_unreliable_terminates)
      (simp_all add: session_parameters_default_def same_wire_def DEFAULT_UDP_LENGTH_def)
qed

section \<open>Negotiation\<close>

definition no_channels :: "session \<Rightarrow> bool" where
  "no_channels s \<longleftrightarrow> ss_inputs s = replicate RELIABLE_CHANNEL_COUNT None \<and>
     ss_outputs s = replicate RELIABLE_CHANNEL_COUNT None"

lemma no_channels_new: "no_channels (session_new mode params cipher seed now)"
  by (simp add: no_channels_def session_new_def)

lemma flush_no_channels: "no_channels s \<Longrightarrow> flush_channels s = Some s"
  by (simp add: no_channels_def flush_channels_def flush_channel_def flush_acks_def flush_packets_def
      flush_app_data_def RELIABLE_CHANNEL_COUNT_def upt_conv_Cons)

lemma validate_contextless:
  assumes "read_op_code dg = Some op" and "is_contextless op"
    and "packet_minimum_length op c l \<le> length dg"
  shows "validate_packet dg crc l c = Some (Valid, Some op)"
  using assms read_op_code_Some_length [OF assms(1)]
  by (simp add: validate_packet_def OP_CODE_SIZE_def)

lemma negotiation_valid:
  "validated s (session_request_bytes q) = Some (Valid, Some SessionRequest)"
  "validated s (session_response_bytes p) = Some (Valid, Some SessionResponse)"
  using layout_sizes(1) [of q] layout_sizes(2) [of p]
  by (simp_all add: validate_contextless session_request_size_def size_defs)
    (simp_all add: validate_contextless layout_defs op_from_u16_def size_defs)

text \<open>The three messages of a negotiation, in terms of the sessions that send them.\<close>

definition request_of :: "session \<Rightarrow> session_request" where
  "request_of s = \<lparr>sr_soe_protocol_version = SOE_PROTOCOL_VERSION,
     sr_session_id = fst (next_u32 (ss_rng s)), sr_udp_length = udp_length (ss_params s),
     sr_application_protocol = application_protocol (ss_params s)\<rparr>"

definition response_of :: "session \<Rightarrow> u32 \<Rightarrow> session_response" where
  "response_of s session_id = \<lparr>sp_session_id = session_id, sp_crc_seed = fst (next_u32 (ss_rng s)),
     sp_crc_length = CRC_LENGTH, sp_is_compression_enabled = is_compression_enabled (ss_params s),
     sp_unknown_value_1 = 0, sp_udp_length = udp_length (ss_params s),
     sp_soe_protocol_version = SOE_PROTOCOL_VERSION\<rparr>"

lemma client_requests:
  assumes "ss_state s = Negotiating" and "ss_mode s = Client"
  shows "send_session_request s = Some (push_outgoing (session_request_bytes (request_of s))
    (s\<lparr>ss_rng := snd (next_u32 (ss_rng s)), ss_session_id := fst (next_u32 (ss_rng s))\<rparr>))"
  using assms layout_sizes(1) [of "request_of s"]
  by (simp add: send_session_request_def Let_def split_beta request_buffer flip: request_of_def)

text \<open>A server that accepts a request.\<close>

definition accepted :: "session \<Rightarrow> session_request \<Rightarrow> session" where
  "accepted s q = (push_outgoing (session_response_bytes (response_of s (sr_session_id q)))
     (s\<lparr>ss_session_id := sr_session_id q,
        ss_params := (ss_params s)\<lparr>remote_udp_length := sr_udp_length q, crc_length := CRC_LENGTH,
          crc_seed := fst (next_u32 (ss_rng s))\<rparr>, ss_rng := snd (next_u32 (ss_rng s))\<rparr>))
     \<lparr>ss_state := Running, open_session_on_next_packet := True\<rparr>"

lemma server_accepts:
  assumes "ss_state s = Negotiating" and "ss_mode s = Server"
    and "session_request_deserialize body False = Inr q"
    and "sr_soe_protocol_version q = SOE_PROTOCOL_VERSION"
    and "sr_application_protocol q = application_protocol (ss_params s)"
  shows "handle_session_request s body now = Some (accepted s q)"
  using assms layout_sizes(2) [of "response_of s (sr_session_id q)"]
  by (simp add: handle_session_request_def Let_def split_beta response_buffer accepted_def)
    (simp add: response_of_def response_buffer layout_sizes)

definition established :: "session \<Rightarrow> session_response \<Rightarrow> session" where
  "established s r = push_event Opened
     (s\<lparr>ss_params := (ss_params s)\<lparr>remote_udp_length := sp_udp_length r,
          crc_length := sp_crc_length r, crc_seed := sp_crc_seed r,
          is_compression_enabled := sp_is_compression_enabled r\<rparr>,
        ss_session_id := sp_session_id r, ss_state := Running\<rparr>)"

lemma client_established:
  assumes "ss_state s = Negotiating" and "ss_mode s = Client"
    and "session_response_deserialize body False = Inr r"
    and "sp_soe_protocol_version r = SOE_PROTOCOL_VERSION"
  shows "handle_session_response s body now = Some (established s r)"
  using assms by (simp add: handle_session_response_def established_def)

lemma accepted_fields [simp]:
  "ss_state (accepted s q) = Running" "open_session_on_next_packet (accepted s q)"
  "ss_session_id (accepted s q) = sr_session_id q"
  "ss_params (accepted s q) = (ss_params s)\<lparr>remote_udp_length := sr_udp_length q,
     crc_length := CRC_LENGTH, crc_seed := fst (next_u32 (ss_rng s))\<rparr>"
  "ss_outgoing (accepted s q) = ss_outgoing s @
     [session_response_bytes (response_of s (sr_session_id q))]"
  "no_channels (accepted s q) = no_channels s" "ss_events (accepted s q) = ss_events s"
  "ss_cipher (accepted s q) = ss_cipher s"
  by (simp_all add: accepted_def push_outgoing_def no_channels_def)

lemma established_fields [simp]:
  "ss_state (established s r) = Running" "ss_session_id (established s r) = sp_session_id r"
  "ss_params (established s r) = (ss_params s)\<lparr>remote_udp_length := sp_udp_length r,
     crc_length := sp_crc_length r, crc_seed := sp_crc_seed r,
     is_compression_enabled := sp_is_compression_enabled r\<rparr>"
  "no_channels (established s r) = no_channels s" "ss_events (established s r) = ss_events s @ [Opened]"
  "ss_cipher (established s r) = ss_cipher s"
  by (simp_all add: established_def push_event_def no_channels_def)

lemma refreshed_plain:
  "\<not> open_session_on_next_packet s \<Longrightarrow> refreshed s now = s\<lparr>last_received := now\<rparr>"
  by (simp add: refreshed_def open_pending_def)

lemma server_step:
  assumes "ss_state s = Negotiating" and "ss_mode s = Server" and "no_channels s"
    and "\<not> open_session_on_next_packet s" and "session_request_ok q"
    and "sr_soe_protocol_version q = SOE_PROTOCOL_VERSION"
    and "sr_application_protocol q = application_protocol (ss_params s)"
  shows "process_incoming inflate s (session_request_bytes q) now =
    Some (accepted (s\<lparr>last_received := now\<rparr>) q)"
proof -
  have "handle_session_request (s\<lparr>last_received := now\<rparr>) (drop 2 (session_request_bytes q)) now =
      Some (accepted (s\<lparr>last_received := now\<rparr>) q)"
    using control_bodies(1) [OF assms(5), of "[]"] assms by (intro server_accepts) simp_all
  moreover have "no_channels (s\<lparr>last_received := now\<rparr>)" using assms(3) by (simp add: no_channels_def)
  ultimately show ?thesis
    using process_valid [of s "session_request_bytes q", OF _ negotiation_valid(1)] assms(1,4)
    by (simp add: handle_contextless_def flush_no_channels refreshed_plain)
qed

lemma process_response:
  assumes "ss_state s = Negotiating" and "ss_mode s = Client"
    and "\<not> open_session_on_next_packet s" and "sp_soe_protocol_version r = SOE_PROTOCOL_VERSION"
  shows "process_incoming inflate s (session_response_bytes r) now =
    flush_channels (established (s\<lparr>last_received := now\<rparr>) r)"
proof -
  have "handle_session_response (s\<lparr>last_received := now\<rparr>) (drop 2 (session_response_bytes r)) now =
      Some (established (s\<lparr>last_received := now\<rparr>) r)"
    using control_bodies(2) [of r "[]"] assms by (intro client_established) simp_all
  then show ?thesis
    using process_valid [of s "session_response_bytes r", OF _ negotiation_valid(2)] assms(1,3)
    by (simp add: handle_contextless_def refreshed_plain)
qed

lemma client_step:
  assumes "ss_state s = Negotiating" and "ss_mode s = Client" and "no_channels s"
    and "\<not> open_session_on_next_packet s" and "sp_soe_protocol_version r = SOE_PROTOCOL_VERSION"
  shows "process_incoming inflate s (session_response_bytes r) now =
    Some (established (s\<lparr>last_received := now\<rparr>) r)"
proof -
  have "no_channels (s\<lparr>last_received := now\<rparr>)" using assms(3) by (simp add: no_channels_def)
  then show ?thesis using assms by (simp add: process_response flush_no_channels)
qed

text \<open>What the negotiation leaves of the parameters of a session.\<close>

definition kept_params :: "session_parameters \<Rightarrow> session_parameters \<Rightarrow> bool" where
  "kept_params p q \<longleftrightarrow> crc_length q = CRC_LENGTH \<and> udp_length q = udp_length p \<and>
     max_queued_incoming_reliable q = max_queued_incoming_reliable p \<and>
     max_queued_outgoing_reliable q = max_queued_outgoing_reliable p"

lemma negotiation_exchange:
  assumes "application_protocol ps = application_protocol pc"
    and "0 \<notin> set (application_protocol pc)" and "valid_utf8 (application_protocol pc)"
  shows "\<exists>c1 s1 c2 req resp.
    send_session_request (session_new Client pc cc seed_c t0) = Some c1 \<and> ss_outgoing c1 = [req] \<and>
    process_incoming inflate (session_new Server ps cs seed_s t1) req t2 = Some s1 \<and>
    ss_outgoing s1 = [resp] \<and> process_incoming inflate c1 resp t3 = Some c2 \<and>
    ss_state c2 = Running \<and> ss_state s1 = Running \<and> same_wire (ss_params c2) (ss_params s1) \<and>
    ss_session_id c2 = ss_session_id s1 \<and>
    remote_udp_length (ss_params c2) = udp_length ps \<and>
    remote_udp_length (ss_params s1) = udp_length pc \<and>
    ss_events c2 = [Opened] \<and> open_session_on_next_packet s1 \<and>
    no_channels c2 \<and> no_channels s1 \<and> ss_cipher c2 = cc \<and> ss_cipher s1 = cs \<and>
    kept_params pc (ss_params c2) \<and> kept_params ps (ss_params s1)"
proof -
  let ?c = "session_new Client pc cc seed_c t0" and ?s = "session_new Server ps cs seed_s t1"
  define q where "q = request_of ?c"
  define c1 where "c1 = push_outgoing (session_request_bytes q)
    (?c\<lparr>ss_rng := snd (next_u32 (ss_rng ?c)), ss_session_id := fst (next_u32 (ss_rng ?c))\<rparr>)"
  define s' where "s' = ?s\<lparr>last_received := t2\<rparr>"
  define r where "r = response_of s' (sr_session_id q)"
  have ok: "session_request_ok q" and q: "sr_soe_protocol_version q = SOE_PROTOCOL_VERSION"
      "sr_application_protocol q = application_protocol pc" "sr_udp_length q = udp_length pc"
    using assms by (simp_all add: q_def request_of_def session_new_def session_request_ok_def)
  have r: "sp_soe_protocol_version r = SOE_PROTOCOL_VERSION" "sp_session_id r = sr_session_id q"
      "sp_udp_length r = udp_length ps" "sp_crc_length r = CRC_LENGTH"
      "sp_is_compression_enabled r = is_compression_enabled ps"
      "sp_crc_seed r = fst (next_u32 (ss_rng s'))"
    by (simp_all add: r_def response_of_def s'_def session_new_def)
  have c1: "send_session_request ?c = Some c1"
    unfolding c1_def q_def by (rule client_requests) (simp_all add: session_new_def)
  have s1: "process_incoming inflate ?s (session_request_bytes q) t2 = Some (accepted s' q)"
    unfolding s'_def using assms(1) q
    by (intro server_step ok) (simp_all add: session_new_def no_channels_def)
  have c2: "process_incoming inflate c1 (session_response_bytes r) t3 =
      Some (established (c1\<lparr>last_received := t3\<rparr>) r)"
    by (intro client_step r(1))
      (simp_all add: c1_def push_outgoing_def session_new_def no_channels_def)
  have "ss_outgoing c1 = [session_request_bytes q]" "ss_params c1 = pc" "ss_events c1 = []"
    "ss_cipher c1 = cc" "no_channels (c1\<lparr>last_received := t3\<rparr>)"
    by (simp_all add: c1_def push_outgoing_def session_new_def no_channels_def)
  moreover have "ss_outgoing (accepted s' q) = [session_response_bytes r]" "ss_params s' = ps"
    "ss_cipher s' = cs" "no_channels s'"
    by (simp_all add: r_def s'_def session_new_def no_channels_def)
  ultimately show ?thesis
    using c1 s1 c2 r q by (intro exI) (auto simp: same_wire_def CRC_LENGTH_def kept_params_def)
qed

text \<open>C10: A client and a server of the same application protocol negotiate: the request of the
  client, delivered to a new server, is answered, and the answer, delivered to the client, leaves
  both running with one session id, one CRC key, check value length and compression setting, each
  knowing the other's datagram size; the client has surfaced \<open>Opened\<close> and the server will
  with the next packet.\<close>

theorem negotiation_agrees:
  assumes "application_protocol ps = application_protocol pc"
    and "0 \<notin> set (application_protocol pc)" and "valid_utf8 (application_protocol pc)"
  shows "\<exists>c1 s1 c2 req resp.
    send_session_request (session_new Client pc cc seed_c t0) = Some c1 \<and> ss_outgoing c1 = [req] \<and>
    process_incoming inflate (session_new Server ps cs seed_s t1) req t2 = Some s1 \<and>
    ss_outgoing s1 = [resp] \<and> process_incoming inflate c1 resp t3 = Some c2 \<and>
    ss_state c2 = Running \<and> ss_state s1 = Running \<and> same_wire (ss_params c2) (ss_params s1) \<and>
    ss_session_id c2 = ss_session_id s1 \<and>
    remote_udp_length (ss_params c2) = udp_length ps \<and>
    remote_udp_length (ss_params s1) = udp_length pc \<and>
    ss_events c2 = [Opened] \<and> open_session_on_next_packet s1"
  using negotiation_exchange [OF assms, of cc seed_c t0 inflate cs seed_s t1 t2 t3] by blast

theorem negotiation_agrees_witness:
  "\<exists>c1 s1 c2 req resp.
    send_session_request (session_new Client session_parameters_default None 7 0) = Some c1 \<and>
    ss_outgoing c1 = [req] \<and>
    process_incoming (\<lambda>_. Inl Zlib) (session_new Server session_parameters_default None 9 0) req 1 =
      Some s1 \<and>
    ss_outgoing s1 = [resp] \<and> process_incoming (\<lambda>_. Inl Zlib) c1 resp 2 = Some c2 \<and>
    ss_state c2 = Running \<and> ss_state s1 = Running \<and> same_wire (ss_params c2) (ss_params s1) \<and>
    ss_session_id c2 = ss_session_id s1 \<and>
    remote_udp_length (ss_params c2) = udp_length session_parameters_default \<and>
    remote_udp_length (ss_params s1) = udp_length session_parameters_default \<and>
    ss_events c2 = [Opened] \<and> open_session_on_next_packet s1"
  by (rule negotiation_agrees)
    (simp_all add: session_parameters_default_def valid_utf8.simps [of "[]"])

end
