(* ===== verification/Soe_Pair.thy ===== *)
theory Soe_Pair
  imports Soe_Flow Soe_Session_Wire
begin

text \<open>
  Two sessions that talk to each other after their negotiation. Every operation of either end is a
  step; what an operation emits is put on a network that loses, repeats, delays and reorders
  datagrams. The theory defines the runs and relates the channels of the two sessions to the flows
  of \<open>Soe_Flow\<close>; \<open>Soe_Pair_Run\<close> shows that every run of a pair refines its flows.
\<close>

section \<open>Endpoints\<close>

text \<open>A session with the datagrams it has sent, the data enqueued on each reliable channel and the
  data received. A datagram is kept with the window starts of the receive channels at the time the
  operation that emitted it began.\<close>

record endpoint =
  ep_session :: session
  ep_net :: "(bytes \<times> (nat \<Rightarrow> int)) set"
  ep_sent :: "nat \<Rightarrow> bytes list"
  ep_got :: "received_data list"

definition window_marks :: "session \<Rightarrow> nat \<Rightarrow> int" where
  "window_marks s ch = (case ss_inputs s ! ch of None \<Rightarrow> 0 | Some i \<Rightarrow> window_start_sequence i)"

definition settle :: "endpoint \<Rightarrow> session \<Rightarrow> (nat \<Rightarrow> bytes list) \<Rightarrow> endpoint" where
  "settle e s sent' =
     \<lparr>ep_session = drain s,
      ep_net = ep_net e \<union> (\<lambda>dg. (dg, window_marks (ep_session e))) ` set (ss_outgoing s),
      ep_sent = sent', ep_got = ep_got e @ ss_received s\<rparr>"

text \<open>The data received on a reliable channel.\<close>

definition on_channel :: "nat \<Rightarrow> received_data list \<Rightarrow> bytes list" where
  "on_channel ch ds = map rc_data (filter (\<lambda>d. rc_channel d = Reliable ch) ds)"

lemma on_channel_simps [simp]:
  "on_channel ch [] = []" "on_channel ch (xs @ ys) = on_channel ch xs @ on_channel ch ys"
  "on_channel ch [\<lparr>rc_data = d, rc_channel = Reliable ch'\<rparr>] = (if ch = ch' then [d] else [])"
  "on_channel ch [\<lparr>rc_data = d, rc_channel = Unreliable\<rparr>] = []"
  by (simp_all add: on_channel_def)

text \<open>The reliable channel on which data goes out, if any: unreliable data that is too large for
  the peer goes out on the first.\<close>

definition reliable_target :: "session \<Rightarrow> bytes \<Rightarrow> Channel \<Rightarrow> nat option" where
  "reliable_target s data channel =
     (if ss_state s \<noteq> Running \<or> data = [] then None
      else case channel of
        Reliable ch \<Rightarrow> if ch < RELIABLE_CHANNEL_COUNT then Some ch else None
      | Unreliable \<Rightarrow>
          if unat (remote_udp_length (ss_params s)) <
             (if data ! 0 = 0 then 1 else 0) + length data + unat (crc_length (ss_params s))
          then Some 0 else None)"

definition sent_after :: "session \<Rightarrow> bytes \<Rightarrow> Channel \<Rightarrow> (nat \<Rightarrow> bytes list) \<Rightarrow> nat \<Rightarrow> bytes list" where
  "sent_after s data channel sent' = (case reliable_target s data channel of
      None \<Rightarrow> sent' | Some ch \<Rightarrow> sent'(ch := sent' ch @ [data]))"

section \<open>Channels\<close>

text \<open>The channels of a session; one that has not been created yet is as it will be.\<close>

definition send_config :: "session_parameters \<Rightarrow> output_config" where
  "send_config p = \<lparr>max_data_length = the (session_max_data_length p),
     max_queued_outgoing = unat (max_queued_outgoing_reliable p), ack_wait = DEFAULT_ACK_WAIT\<rparr>"

definition send_channel :: "session \<Rightarrow> nat \<Rightarrow> output_channel" where
  "send_channel s ch = (case ss_outputs s ! ch of
      Some o' \<Rightarrow> o' | None \<Rightarrow> output_new (send_config (ss_params s)) (ss_cipher s) 0)"

definition receive_channel :: "session \<Rightarrow> nat \<Rightarrow> input_channel" where
  "receive_channel s ch = (case ss_inputs s ! ch of
      Some i \<Rightarrow> i | None \<Rightarrow> input_new (input_channel_config (ss_params s)) (ss_cipher s) 0)"

section \<open>Datagrams\<close>

definition contextual_datagram :: "session_parameters \<Rightarrow> OpCode \<Rightarrow> nat \<Rightarrow> bytes \<Rightarrow> bytes" where
  "contextual_datagram p op ch payload =
     with_check p (contextual_body p (op_as_u16 op + of_nat ch) payload)"

definition packet_datagram :: "session_parameters \<Rightarrow> nat \<Rightarrow> outgoing_reliable \<Rightarrow> bytes" where
  "packet_datagram p ch pkt = contextual_datagram p (or_op_code pkt) ch (or_payload pkt)"

definition ack_datagram :: "session_parameters \<Rightarrow> nat \<Rightarrow> outgoing_contextual \<Rightarrow> bytes" where
  "ack_datagram p ch r = contextual_datagram p (oc_op_code r) ch (be16 (oc_sequence r))"

text \<open>The packets of the data an endpoint has enqueued on a channel.\<close>

definition endpoint_packets :: "endpoint \<Rightarrow> nat \<Rightarrow> rpacket list" where
  "endpoint_packets e ch = fst (stream_packets
     (max_data_length (send_config (ss_params (ep_session e))) - 2) (ss_cipher (ep_session e))
     (ep_sent e ch))"

text \<open>How late a datagram may come: a data packet within a block of 65536 sequences of the
  receiver's window, an acknowledgement within the block the sender reads sequences in. Nothing is
  asked of any other datagram.\<close>

definition on_time :: "endpoint \<Rightarrow> endpoint \<Rightarrow> bytes \<Rightarrow> (nat \<Rightarrow> int) \<Rightarrow> bool" where
  "on_time peer e dg m \<longleftrightarrow> (let p = ss_params (ep_session peer) in
     \<forall>ch<RELIABLE_CHANNEL_COUNT.
       (\<forall>i<length (endpoint_packets peer ch).
          dg = packet_datagram p ch (packet_wire (endpoint_packets peer ch) i) \<longrightarrow>
          (\<exists>j<length (endpoint_packets peer ch).
             dg = packet_datagram p ch (packet_wire (endpoint_packets peer ch) j) \<and>
             timely (receive_channel (ep_session e) ch) j)) \<and>
       (\<forall>r. oc_op_code r \<in> {Acknowledge, AcknowledgeAll} \<longrightarrow> dg = ack_datagram p ch r \<longrightarrow>
          prompt (send_channel (ep_session e) ch) (m ch) (receive_channel (ep_session peer) ch)))"

section \<open>Runs\<close>

inductive endpoint_step ::
    "(bytes \<Rightarrow> error + bytes) \<Rightarrow> endpoint \<Rightarrow> endpoint \<Rightarrow> endpoint \<Rightarrow> bool"
  for inflate :: "bytes \<Rightarrow> error + bytes" and peer :: endpoint where
  enqueue: "enqueue_data_on (ep_session e) data channel = Some (ok, s') \<Longrightarrow>
    reliable_target (ep_session e) data channel = None \<or> message_ok (ss_cipher (ep_session e)) data \<Longrightarrow>
    endpoint_step inflate peer e
      (settle e s' (sent_after (ep_session e) data channel (ep_sent e)))"
| tick: "session_run_tick (ep_session e) now = Some s' \<Longrightarrow>
    endpoint_step inflate peer e (settle e s' (ep_sent e))"
| close: "terminate (ep_session e) reason notify_remote now = Some s' \<Longrightarrow>
    endpoint_step inflate peer e (settle e s' (ep_sent e))"
| datagram: "(dg, m) \<in> ep_net peer \<Longrightarrow> on_time peer e dg m \<Longrightarrow>
    process_incoming inflate (ep_session e) dg now = Some s' \<Longrightarrow>
    endpoint_step inflate peer e (settle e s' (ep_sent e))"

inductive_cases endpoint_stepE: "endpoint_step inflate peer e e'"

inductive pair_step ::
    "(bytes \<Rightarrow> error + bytes) \<Rightarrow> endpoint \<times> endpoint \<Rightarrow> endpoint \<times> endpoint \<Rightarrow> bool"
  for inflate :: "bytes \<Rightarrow> error + bytes" where
  left: "endpoint_step inflate b a a' \<Longrightarrow> pair_step inflate (a, b) (a', b)"
| right: "endpoint_step inflate a b b' \<Longrightarrow> pair_step inflate (a, b) (a, b')"

text \<open>The start of a pair: both ends have negotiated, share the cipher and their parameters leave
  room for packets and windows.\<close>

definition fresh_endpoint :: "session \<Rightarrow> endpoint" where
  "fresh_endpoint s = \<lparr>ep_session = drain s, ep_net = {}, ep_sent = (\<lambda>_. []), ep_got = []\<rparr>"

definition pair_params :: "session_parameters \<Rightarrow> bool" where
  "pair_params p \<longleftrightarrow> room_ok p \<and> unat (max_queued_outgoing_reliable p) \<le> 32767"

definition negotiated :: "session \<Rightarrow> session \<Rightarrow> bool" where
  "negotiated s r \<longleftrightarrow> ss_state s = Running \<and> ss_state r = Running \<and> no_channels s \<and> no_channels r \<and>
     same_wire (ss_params s) (ss_params r) \<and> ss_cipher s = ss_cipher r \<and>
     pair_params (ss_params s) \<and> pair_params (ss_params r)"

inductive pair_reach :: "(bytes \<Rightarrow> error + bytes) \<Rightarrow> session \<Rightarrow> session \<Rightarrow> endpoint \<times> endpoint \<Rightarrow> bool"
  for inflate :: "bytes \<Rightarrow> error + bytes" and s :: session and r :: session where
  start: "negotiated s r \<Longrightarrow> pair_reach inflate s r (fresh_endpoint s, fresh_endpoint r)"
| step: "pair_reach inflate s r x \<Longrightarrow> pair_step inflate x y \<Longrightarrow> pair_reach inflate s r y"

end
