(* ===== verification/Soe_Pair_Run.thy ===== *)
theory Soe_Pair_Run
  imports Soe_Pair
begin

text \<open>
  Every run of a pair of sessions refines a flow for each reliable channel and direction. The
  simulation relation speaks of a session in the middle of an operation; each stage of an operation
  (ticks, the three stages of a flush, the handlers) is matched by steps of the flows.
\<close>

section \<open>The simulation relation\<close>

text \<open>A receive channel agrees with a flow: before it is created the flow has a new one.\<close>

definition receives :: "session \<Rightarrow> nat \<Rightarrow> input_channel \<Rightarrow> bool" where
  "receives s ch i \<longleftrightarrow> (case ss_inputs s ! ch of
      Some i' \<Rightarrow> i = i'
    | None \<Rightarrow> \<exists>t. i = input_new (input_channel_config (ss_params s)) (ss_cipher s) t)"

text \<open>The flows \<open>F\<close> from a sender to a receiver, one for each channel.\<close>

definition flows :: "session \<Rightarrow> session \<Rightarrow> (nat \<Rightarrow> bytes list) \<Rightarrow> received_data list \<Rightarrow>
    (nat \<Rightarrow> flow) \<Rightarrow> bool" where
  "flows s r sent' got F \<longleftrightarrow> (\<forall>ch<RELIABLE_CHANNEL_COUNT.
     flow_reach (send_config (ss_params s)) (input_channel_config (ss_params r)) (ss_cipher s) (F ch) \<and>
     fl_out (F ch) = send_channel s ch \<and> receives r ch (fl_in (F ch)) \<and>
     fl_sent (F ch) = sent' ch \<and> fl_taken (F ch) = on_channel ch got)"

text \<open>What a datagram may be: a packet or an acknowledgement of a flow, or one that has nothing to
  do with the reliable channels.\<close>

definition known :: "session_parameters \<Rightarrow> (nat \<Rightarrow> flow) \<Rightarrow> (nat \<Rightarrow> flow) \<Rightarrow>
    bytes \<times> (nat \<Rightarrow> int) \<Rightarrow> bool" where
  "known p F G d \<longleftrightarrow> (case d of (dg, m) \<Rightarrow>
     (\<exists>ch<RELIABLE_CHANNEL_COUNT. \<exists>pkt\<in>fl_net (F ch). dg = packet_datagram p ch pkt) \<or>
     (\<exists>ch<RELIABLE_CHANNEL_COUNT. \<exists>r. (r, m ch) \<in> fl_acks (G ch) \<and> dg = ack_datagram p ch r) \<or>
     dg = contextual_datagram p Heartbeat 0 [] \<or>
     (\<exists>d. dg = contextual_datagram p Disconnect 0 (disconnect_bytes d)) \<or>
     (\<exists>d. d \<noteq> [] \<and> dg = with_check p (unreliable_body d) \<and>
        length dg \<le> unat (remote_udp_length p)))"

text \<open>Two sessions can be matched.\<close>

definition matched :: "session \<Rightarrow> session \<Rightarrow> bool" where
  "matched s r \<longleftrightarrow> same_wire (ss_params s) (ss_params r) \<and> ss_cipher s = ss_cipher r \<and>
     pair_params (ss_params s) \<and> pair_params (ss_params r) \<and>
     length (ss_inputs s) = RELIABLE_CHANNEL_COUNT \<and> length (ss_outputs s) = RELIABLE_CHANNEL_COUNT \<and>
     length (ss_inputs r) = RELIABLE_CHANNEL_COUNT \<and> length (ss_outputs r) = RELIABLE_CHANNEL_COUNT"

text \<open>The relation in the middle of an operation of \<open>e\<close>, whose session is now \<open>s\<close>: \<open>F\<close> are the
  flows to the peer, \<open>G\<close> those from it.\<close>

definition midway :: "(nat \<Rightarrow> bytes list) \<Rightarrow> endpoint \<Rightarrow> endpoint \<Rightarrow> session \<Rightarrow>
    (nat \<Rightarrow> flow) \<Rightarrow> (nat \<Rightarrow> flow) \<Rightarrow> bool" where
  "midway sent' e peer s F G \<longleftrightarrow>
     matched s (ep_session peer) \<and>
     flows s (ep_session peer) sent' (ep_got peer) F \<and>
     flows (ep_session peer) s (ep_sent peer) (ep_got e @ ss_received s) G \<and>
     (\<forall>ch<RELIABLE_CHANNEL_COUNT. fl_mark (G ch) = window_marks (ep_session e) ch) \<and>
     (\<forall>d\<in>ep_net e. known (ss_params s) F G d) \<and>
     (\<forall>dg\<in>set (ss_outgoing s). known (ss_params s) F G (dg, window_marks (ep_session e))) \<and>
     (\<forall>d\<in>ep_net peer. known (ss_params (ep_session peer)) G F d)"

text \<open>Between operations nothing is pending.\<close>

definition quiet :: "session \<Rightarrow> bool" where
  "quiet s \<longleftrightarrow> (\<forall>i. Some i \<in> set (ss_inputs s) \<longrightarrow> in_outgoing i = [] \<and> app_data i = [])"

definition settled :: "session \<Rightarrow> bool" where
  "settled s \<longleftrightarrow> ss_outgoing s = [] \<and> ss_received s = [] \<and> quiet s"

definition pair_rel :: "endpoint \<Rightarrow> endpoint \<Rightarrow> (nat \<Rightarrow> flow) \<Rightarrow> (nat \<Rightarrow> flow) \<Rightarrow> bool" where
  "pair_rel a b F G \<longleftrightarrow>
     matched (ep_session a) (ep_session b) \<and> settled (ep_session a) \<and> settled (ep_session b) \<and>
     flows (ep_session a) (ep_session b) (ep_sent a) (ep_got b) F \<and>
     flows (ep_session b) (ep_session a) (ep_sent b) (ep_got a) G \<and>
     (\<forall>d\<in>ep_net a. known (ss_params (ep_session a)) F G d) \<and>
     (\<forall>d\<in>ep_net b. known (ss_params (ep_session b)) G F d)"

lemma matched_sym: "matched s r \<longleftrightarrow> matched r s"
  unfolding matched_def same_wire_def by metis

lemma pair_rel_sym: "pair_rel a b F G \<longleftrightarrow> pair_rel b a G F"
  unfolding pair_rel_def using matched_sym [of "ep_session a"] by blast

section \<open>Frames\<close>

lemma channel_frame [simp]:
  "send_channel (set_input ch i s) = send_channel s" "receives (set_output ch o' s) = receives s"
  "send_channel (push_outgoing dg s) = send_channel s" "receives (push_outgoing dg s) = receives s"
  "ch < length (ss_outputs s) \<Longrightarrow> send_channel (set_output ch o' s) = (send_channel s)(ch := o')"
  "ch < length (ss_inputs s) \<Longrightarrow> receives (set_input ch i s) = (receives s)(ch := (\<lambda>x. x = i))"
  by (auto simp: fun_eq_iff send_channel_def receives_def set_input_def set_output_def
      push_outgoing_def split: option.split)

lemma set_frame [simp]:
  "ss_params (set_input ch i s) = ss_params s" "ss_params (set_output ch o' s) = ss_params s"
  "ss_params (push_outgoing dg s) = ss_params s" "ss_cipher (push_outgoing dg s) = ss_cipher s"
  "ss_cipher (set_input ch i s) = ss_cipher s" "ss_cipher (set_output ch o' s) = ss_cipher s"
  "ss_received (set_input ch i s) = ss_received s" "ss_received (set_output ch o' s) = ss_received s"
  "ss_received (push_outgoing dg s) = ss_received s"
  "ss_outgoing (set_input ch i s) = ss_outgoing s" "ss_outgoing (set_output ch o' s) = ss_outgoing s"
  "ss_outgoing (push_outgoing dg s) = ss_outgoing s @ [dg]"
  by (simp_all add: set_input_def set_output_def push_outgoing_def)

text \<open>The relation does not look at the other fields of a session, nor at unreliable data.\<close>

lemma midway_cong:
  assumes mid: "midway sent' e peer s F G" and same: "ss_params s' = ss_params s"
    "ss_cipher s' = ss_cipher s" "ss_inputs s' = ss_inputs s" "ss_outputs s' = ss_outputs s"
    "ss_outgoing s' = ss_outgoing s"
    and received: "\<And>ch. on_channel ch (ss_received s') = on_channel ch (ss_received s)"
  shows "midway sent' e peer s' F G"
proof -
  have channels: "send_channel s' = send_channel s" "receives s' = receives s"
    by (auto simp: fun_eq_iff send_channel_def receives_def same split: option.split)
  show ?thesis
    using mid unfolding midway_def matched_def flows_def same channels on_channel_simps received .
qed

lemma midway_push:
  assumes "midway sent' e peer s F G" and "known (ss_params s) F G (dg, window_marks (ep_session e))"
  shows "midway sent' e peer (push_outgoing dg s) F G"
  using assms
  unfolding midway_def flows_def channel_frame by (auto simp: matched_def push_outgoing_def)

lemma known_mono:
  assumes "known p F G d"
    and "\<And>ch. ch < RELIABLE_CHANNEL_COUNT \<Longrightarrow> fl_net (F ch) \<subseteq> fl_net (F' ch)"
    and "\<And>ch. ch < RELIABLE_CHANNEL_COUNT \<Longrightarrow> fl_acks (G ch) \<subseteq> fl_acks (G' ch)"
  shows "known p F' G' d"
  using assms unfolding known_def by (fastforce split: prod.splits)

lemma matched_set [simp]:
  "matched (set_output ch o' s) r = matched s r" "matched (set_input ch i s) r = matched s r"
  by (simp_all add: matched_def set_output_def set_input_def)

text \<open>A step of the flow to the peer that the send channel follows.\<close>

lemma midway_sender:
  assumes mid: "midway sent' e peer s F G" and ch: "ch < RELIABLE_CHANNEL_COUNT"
    and step: "flow_step (send_config (ss_params s)) (input_channel_config (ss_params (ep_session peer)))
      (ss_cipher s) now (F ch) f'"
    and same: "fl_in f' = fl_in (F ch)" "fl_taken f' = fl_taken (F ch)" "fl_acks f' = fl_acks (F ch)"
    and net: "fl_net (F ch) \<subseteq> fl_net f'"
  shows "midway (sent'(ch := fl_sent f')) e peer (set_output ch (fl_out f') s) (F(ch := f')) G"
proof -
  have len: "ch < length (ss_outputs s)" using mid ch by (simp add: midway_def matched_def)
  have known: "known p F G d \<Longrightarrow> known p (F(ch := f')) G d" "known p G F d \<Longrightarrow> known p G (F(ch := f')) d"
    for p d
    using net same(3) by (auto elim!: known_mono)
  have "flow_reach (send_config (ss_params s)) (input_channel_config (ss_params (ep_session peer)))
      (ss_cipher s) f'"
    using mid ch step flow_reach.step unfolding midway_def flows_def by blast
  then have F: "flows (set_output ch (fl_out f') s) (ep_session peer) (sent'(ch := fl_sent f'))
      (ep_got peer) (F(ch := f'))"
    using mid len same by (simp add: midway_def flows_def)
  have G: "flows (ep_session peer) (set_output ch (fl_out f') s) (ep_sent peer) (ep_got e @ ss_received s) G"
    using mid by (simp add: midway_def flows_def)
  show ?thesis using mid F G known
    unfolding midway_def matched_set by simp
qed

lemma push_app_data_eq:
  "push_app_data ch ds s = s\<lparr>ss_received :=
     ss_received s @ map (\<lambda>d. \<lparr>rc_data = d, rc_channel = Reliable ch\<rparr>) ds\<rparr>"
  by (induction ds arbitrary: s) (simp_all add: push_received_def)

lemma push_app_data_frame [simp]:
  "send_channel (push_app_data ch ds s) = send_channel s"
  "receives (push_app_data ch ds s) = receives s" "matched (push_app_data ch ds s) r = matched s r"
  "ss_params (push_app_data ch ds s) = ss_params s" "ss_cipher (push_app_data ch ds s) = ss_cipher s"
  "ss_outgoing (push_app_data ch ds s) = ss_outgoing s"
  "ss_inputs (push_app_data ch ds s) = ss_inputs s"
  by (simp_all add: push_app_data_eq fun_eq_iff send_channel_def receives_def matched_def
      split: option.split)

lemma on_channel_push:
  "on_channel ch (ss_received (push_app_data ch' ds s)) =
     on_channel ch (ss_received s) @ (if ch = ch' then ds else [])"
  by (simp add: push_app_data_eq on_channel_def o_def)

text \<open>A step of the flow from the peer that the receive channel follows, handing over \<open>ds\<close>.\<close>

lemma midway_take:
  assumes mid: "midway sent' e peer s F G" and ch: "ch < RELIABLE_CHANNEL_COUNT"
    and step: "flow_step (send_config (ss_params (ep_session peer))) (input_channel_config (ss_params s))
      (ss_cipher (ep_session peer)) now (G ch) g'"
    and same: "fl_out g' = fl_out (G ch)" "fl_sent g' = fl_sent (G ch)"
      "fl_mark g' = fl_mark (G ch)" "fl_net g' = fl_net (G ch)" "fl_taken g' = fl_taken (G ch) @ ds"
    and acks: "fl_acks (G ch) \<subseteq> fl_acks g'"
  shows "midway sent' e peer (push_app_data ch ds (set_input ch (fl_in g') s)) F (G(ch := g'))"
    (is "midway sent' e peer ?s F ?G")
proof -
  have len: "ch < length (ss_inputs s)" using mid ch by (simp add: midway_def matched_def)
  have known: "known p F G d \<Longrightarrow> known p F ?G d" "known p G F d \<Longrightarrow> known p ?G F d" for p d
    using acks same(4) by (auto elim!: known_mono)
  have "flow_reach (send_config (ss_params (ep_session peer))) (input_channel_config (ss_params s))
      (ss_cipher (ep_session peer)) g'"
    using mid ch step flow_reach.step unfolding midway_def flows_def by blast
  then have G: "flows (ep_session peer) ?s (ep_sent peer) (ep_got e @ ss_received ?s) ?G"
    using mid len same by (simp add: midway_def flows_def on_channel_push)
  have F: "flows ?s (ep_session peer) sent' (ep_got peer) F"
    using mid by (simp add: midway_def flows_def)
  show ?thesis using mid F G known same(3)
    unfolding midway_def push_app_data_frame matched_set set_frame by simp
qed

lemmas midway_receiver = midway_take [where ds = "[]", simplified push_app_data.simps append_Nil2]

section \<open>Flushing\<close>

lemma midway_crc: "midway sent' e peer s F G \<Longrightarrow> unat (crc_length (ss_params s)) \<le> 4"
  unfolding midway_def matched_def same_wire_def by blast

lemma midway_frames:
  assumes "midway sent' e peer s F G" and "push_frames fs s = Some s'"
    and "\<forall>f\<in>set fs. known (ss_params s) F G (with_check (ss_params s)
      (contextual_body (ss_params s) (fst f) (snd f)), window_marks (ep_session e))"
  shows "midway sent' e peer s' F G"
  using assms
proof (induction fs arbitrary: s)
  case (Cons f fs)
  let ?p = "ss_params s" and ?dg = "with_check (ss_params s) (contextual_body (ss_params s) (fst f) (snd f))"
  have "push_frames fs (push_outgoing ?dg s) = Some s'"
    using Cons.prems(2) frame_contextual_raw_eq [OF midway_crc [OF Cons.prems(1)]] by simp
  moreover have "midway sent' e peer (push_outgoing ?dg s) F G"
    using Cons.prems(3) by (intro midway_push Cons.prems(1)) simp
  moreover have "\<forall>f\<in>set fs. known (ss_params (push_outgoing ?dg s)) F G
      (with_check (ss_params (push_outgoing ?dg s))
        (contextual_body (ss_params (push_outgoing ?dg s)) (fst f) (snd f)), window_marks (ep_session e))"
    unfolding set_frame using Cons.prems(3) by simp
  ultimately show ?case using Cons.IH by blast
qed simp

lemma midway_flows:
  assumes "midway sent' e peer s F G" and "ch < RELIABLE_CHANNEL_COUNT"
  shows "fl_out (F ch) = send_channel s ch" and "receives s ch (fl_in (G ch))"
    and "fl_out (G ch) = send_channel (ep_session peer) ch"
    and "receives (ep_session peer) ch (fl_in (F ch))" and "fl_sent (F ch) = sent' ch"
    and "fl_mark (G ch) = window_marks (ep_session e) ch"
    and "ss_cipher (ep_session peer) = ss_cipher s"
  using assms by (simp_all add: midway_def flows_def matched_def)

lemma midway_flush_acks:
  assumes mid: "midway sent' e peer s F G" and ch: "ch < RELIABLE_CHANNEL_COUNT"
    and flush: "flush_acks ch s = Some s'"
  shows "\<exists>G'. midway sent' e peer s' F G'"
proof (cases "ss_inputs s ! ch")
  case None
  with mid flush show ?thesis by (auto simp: flush_acks_def)
next
  case (Some i)
  then have i: "fl_in (G ch) = i" using midway_flows(2) [OF mid ch] by (simp add: receives_def)
  let ?acks = "in_outgoing i" and ?i = "i\<lparr>in_outgoing := []\<rparr>"
  let ?g = "(G ch)\<lparr>fl_in := ?i, fl_acks := fl_acks (G ch) \<union> (\<lambda>r. (r, fl_mark (G ch))) ` set ?acks\<rparr>"
  let ?G = "G(ch := ?g)"
  have step: "flow_step oc ic c now (G ch) ?g" for oc ic c now
    by (rule flow_step.collect) (simp add: i input_take_outgoing_def)
  have mid': "midway sent' e peer (set_input ch ?i s) F ?G"
    using midway_receiver [OF mid ch step] by simp
  have "push_frames (map (\<lambda>a. (op_as_u16 (oc_op_code a) + of_nat ch, be16 (oc_sequence a))) ?acks)
      (set_input ch ?i s) = Some s'"
    using flush Some by (simp add: flush_acks_def input_take_outgoing_def)
  moreover have "known (ss_params s) F ?G (ack_datagram (ss_params s) ch a, window_marks (ep_session e))"
    if "a \<in> set ?acks" for a
    using that ch midway_flows(6) [OF mid ch] by (auto simp: known_def intro!: exI [of _ ch])
  ultimately have "midway sent' e peer s' F ?G"
    by (intro midway_frames [OF mid']) (auto simp: ack_datagram_def contextual_datagram_def)
  then show ?thesis by blast
qed

lemma midway_flush_packets:
  assumes mid: "midway sent' e peer s F G" and ch: "ch < RELIABLE_CHANNEL_COUNT"
    and flush: "flush_packets ch s = Some s'"
  shows "\<exists>F'. midway sent' e peer s' F' G"
proof (cases "ss_outputs s ! ch")
  case None
  with mid flush show ?thesis by (auto simp: flush_packets_def)
next
  case (Some o')
  then have o': "fl_out (F ch) = o'" using midway_flows(1) [OF mid ch] by (simp add: send_channel_def)
  let ?pkts = "out_outgoing o'" and ?o = "o'\<lparr>out_outgoing := []\<rparr>"
  let ?f = "(F ch)\<lparr>fl_out := ?o, fl_net := fl_net (F ch) \<union> set ?pkts\<rparr>"
  let ?F = "F(ch := ?f)"
  have step: "flow_step oc ic c now (F ch) ?f" for oc ic c now
    by (rule flow_step.transmit) (simp add: o' output_take_outgoing_def)
  have "midway (sent'(ch := fl_sent ?f)) e peer (set_output ch (fl_out ?f) s) ?F G"
    by (rule midway_sender [OF mid ch step]) simp_all
  then have mid': "midway sent' e peer (set_output ch ?o s) ?F G"
    using midway_flows(5) [OF mid ch] by simp
  have "push_frames (map (\<lambda>p. (op_as_u16 (or_op_code p) + of_nat ch, or_payload p)) ?pkts)
      (set_output ch ?o s) = Some s'"
    using flush Some by (simp add: flush_packets_def output_take_outgoing_def)
  moreover have "known (ss_params s) ?F G (packet_datagram (ss_params s) ch pkt, m)"
    if "pkt \<in> set ?pkts" for pkt m
    using that ch by (auto simp: known_def intro!: exI [of _ ch])
  ultimately have "midway sent' e peer s' ?F G"
    by (intro midway_frames [OF mid']) (auto simp: packet_datagram_def contextual_datagram_def)
  then show ?thesis by blast
qed

lemma midway_flush_app_data:
  assumes mid: "midway sent' e peer s F G" and ch: "ch < RELIABLE_CHANNEL_COUNT"
  shows "\<exists>G'. midway sent' e peer (flush_app_data ch s) F G'"
proof (cases "ss_inputs s ! ch")
  case None
  with mid show ?thesis by (auto simp: flush_app_data_def)
next
  case (Some i)
  then have i: "fl_in (G ch) = i" using midway_flows(2) [OF mid ch] by (simp add: receives_def)
  let ?g = "(G ch)\<lparr>fl_in := i\<lparr>app_data := []\<rparr>, fl_taken := fl_taken (G ch) @ app_data i\<rparr>"
  have step: "flow_step oc ic c now (G ch) ?g" for oc ic c now
    by (rule flow_step.take) (simp add: i take_app_data_def)
  have "midway sent' e peer (push_app_data ch (app_data i) (set_input ch (fl_in ?g) s)) F (G(ch := ?g))"
    by (rule midway_take [OF mid ch step]) simp_all
  then show ?thesis using Some by (auto simp: flush_app_data_def take_app_data_def)
qed

lemma midway_flush_list:
  assumes "midway sent' e peer s F G" and "flush_list chs s = Some s'"
    and "\<forall>ch\<in>set chs. ch < RELIABLE_CHANNEL_COUNT"
  shows "\<exists>F' G'. midway sent' e peer s' F' G'"
  using assms
proof (induction chs arbitrary: s F G)
  case (Cons ch chs)
  from Cons.prems(2) obtain s1 s2 where s1: "flush_acks ch s = Some s1"
    and s2: "flush_packets ch s1 = Some s2" and rest: "flush_list chs (flush_app_data ch s2) = Some s'"
    by (auto simp: flush_channel_def bind_eq_Some_iff)
  have ch: "ch < RELIABLE_CHANNEL_COUNT" using Cons.prems(3) by simp
  obtain G1 where "midway sent' e peer s1 F G1" using midway_flush_acks [OF Cons.prems(1) ch s1] by blast
  then obtain F2 where "midway sent' e peer s2 F2 G1" using midway_flush_packets [OF _ ch s2] by blast
  then obtain G3 where "midway sent' e peer (flush_app_data ch s2) F2 G3"
    using midway_flush_app_data [OF _ ch] by blast
  from Cons.IH [OF this rest] Cons.prems(3) show ?case by simp
qed auto

lemma midway_flush:
  assumes "midway sent' e peer s F G" and "flush_channels s = Some s'"
  shows "\<exists>F' G'. midway sent' e peer s' F' G'"
  using midway_flush_list [OF assms(1) assms(2) [unfolded flush_channels_def]] by simp

section \<open>Ticks and termination\<close>

lemma midway_tick_outputs:
  assumes mid: "midway sent' e peer s F G"
  shows "\<exists>F'. midway sent' e peer (tick_outputs now s) F' G"
proof -
  let ?s = "tick_outputs now s"
  define F' where "F' ch = (case ss_outputs s ! ch of None \<Rightarrow> F ch
    | Some o' \<Rightarrow> (F ch)\<lparr>fl_out := output_run_tick o' now\<rparr>)" for ch
  have len: "length (ss_outputs s) = RELIABLE_CHANNEL_COUNT" using mid by (simp add: midway_def matched_def)
  have frame: "ss_params ?s = ss_params s" "ss_cipher ?s = ss_cipher s" "ss_inputs ?s = ss_inputs s"
    "ss_outgoing ?s = ss_outgoing s" "ss_received ?s = ss_received s" "receives ?s = receives s"
    "matched ?s = matched s"
    by (auto simp: tick_outputs_def fun_eq_iff receives_def matched_def split: option.split)
  have same: "fl_in (F' ch) = fl_in (F ch)" "fl_taken (F' ch) = fl_taken (F ch)"
    "fl_acks (F' ch) = fl_acks (F ch)" "fl_net (F' ch) = fl_net (F ch)" "fl_sent (F' ch) = fl_sent (F ch)"
    for ch
    by (simp_all add: F'_def split: option.split)
  have known: "known p F G d \<Longrightarrow> known p F' G d" "known p G F d \<Longrightarrow> known p G F' d" for p d
    by (auto simp: same elim!: known_mono)
  have "flow_reach oc ic c (F' ch) \<and> fl_out (F' ch) = send_channel ?s ch"
    if "flow_reach oc ic c (F ch)" "fl_out (F ch) = send_channel s ch" "ch < RELIABLE_CHANNEL_COUNT"
    for oc ic c ch
  proof (cases "ss_outputs s ! ch")
    case None
    with that len show ?thesis by (simp add: F'_def send_channel_def tick_outputs_def)
  next
    case (Some o')
    then have "flow_reach oc ic c ((F ch)\<lparr>fl_out := output_run_tick (fl_out (F ch)) now\<rparr>)"
      using that flow_reach.step flow_step.tick_out by blast
    with that len Some show ?thesis by (simp add: F'_def send_channel_def tick_outputs_def)
  qed
  then have "flows ?s (ep_session peer) sent' (ep_got peer) F'"
    using mid unfolding midway_def flows_def frame same by blast
  moreover have "flows (ep_session peer) ?s (ep_sent peer) (ep_got e @ ss_received ?s) G"
    using mid unfolding midway_def flows_def frame by blast
  ultimately have "midway sent' e peer ?s F' G"
    using mid known unfolding midway_def frame by blast
  then show ?thesis by blast
qed

definition tick_inputs :: "instant \<Rightarrow> session \<Rightarrow> session" where
  "tick_inputs now s = s\<lparr>ss_inputs := map (map_option (\<lambda>i. input_run_tick i now)) (ss_inputs s)\<rparr>"

lemma tick_channels_split: "tick_channels now s = tick_outputs now (tick_inputs now s)"
  by (simp add: tick_channels_def tick_outputs_def tick_inputs_def)

lemma midway_tick_inputs:
  assumes mid: "midway sent' e peer s F G"
  shows "\<exists>G'. midway sent' e peer (tick_inputs now s) F G'"
proof -
  let ?s = "tick_inputs now s"
  define G' where "G' ch = (case ss_inputs s ! ch of None \<Rightarrow> G ch
    | Some i \<Rightarrow> (G ch)\<lparr>fl_in := input_run_tick i now\<rparr>)" for ch
  have len: "length (ss_inputs s) = RELIABLE_CHANNEL_COUNT" using mid by (simp add: midway_def matched_def)
  have frame: "ss_params ?s = ss_params s" "ss_cipher ?s = ss_cipher s" "ss_outputs ?s = ss_outputs s"
    "ss_outgoing ?s = ss_outgoing s" "ss_received ?s = ss_received s" "send_channel ?s = send_channel s"
    "matched ?s = matched s"
    by (auto simp: tick_inputs_def fun_eq_iff send_channel_def matched_def split: option.split)
  have same: "fl_out (G' ch) = fl_out (G ch)" "fl_taken (G' ch) = fl_taken (G ch)"
    "fl_acks (G' ch) = fl_acks (G ch)" "fl_net (G' ch) = fl_net (G ch)" "fl_sent (G' ch) = fl_sent (G ch)"
    "fl_mark (G' ch) = fl_mark (G ch)" for ch
    by (simp_all add: G'_def split: option.split)
  have known: "known p F G d \<Longrightarrow> known p F G' d" "known p G F d \<Longrightarrow> known p G' F d" for p d
    by (auto simp: same elim!: known_mono)
  have "flow_reach oc ic c (G' ch) \<and> receives ?s ch (fl_in (G' ch))"
    if "flow_reach oc ic c (G ch)" "receives s ch (fl_in (G ch))" "ch < RELIABLE_CHANNEL_COUNT"
    for oc ic c ch
  proof (cases "ss_inputs s ! ch")
    case None
    with that len show ?thesis by (simp add: G'_def receives_def tick_inputs_def)
  next
    case (Some i)
    then have "flow_reach oc ic c ((G ch)\<lparr>fl_in := input_run_tick (fl_in (G ch)) now\<rparr>)"
      using that flow_reach.step flow_step.tick_in by blast
    with that len Some show ?thesis by (simp add: G'_def receives_def tick_inputs_def)
  qed
  then have "flows (ep_session peer) ?s (ep_sent peer) (ep_got e @ ss_received ?s) G'"
    using mid unfolding midway_def flows_def frame same by blast
  moreover have "flows ?s (ep_session peer) sent' (ep_got peer) F"
    using mid unfolding midway_def flows_def frame by blast
  ultimately have "midway sent' e peer ?s F G'"
    using mid known unfolding midway_def frame same by blast
  then show ?thesis by blast
qed

lemma midway_tick_channels:
  "midway sent' e peer s F G \<Longrightarrow> \<exists>F' G'. midway sent' e peer (tick_channels now s) F' G'"
  unfolding tick_channels_split using midway_tick_inputs midway_tick_outputs by blast

lemma known_control:
  "known p F G (contextual_datagram p Heartbeat 0 [], m)"
  "known p F G (contextual_datagram p Disconnect 0 (disconnect_bytes d), m)"
  by (auto simp: known_def)

lemma frame_control:
  assumes "midway sent' e peer s F G"
  shows "frame_contextual s op payload = Some (contextual_datagram (ss_params s) op 0 payload)"
  using frame_contextual_raw_eq [OF midway_crc [OF assms]]
  by (simp add: frame_contextual_def contextual_datagram_def)

lemma midway_notice:
  assumes mid: "midway sent' e peer s F G" and "disconnect_notice notify r s = Some s'"
  shows "midway sent' e peer s' F G"
  using assms(2)
  by (auto simp: disconnect_notice_def disconnect_buffer frame_control [OF mid] known_control
      layout_sizes intro!: midway_push [OF mid] midway_cong [OF mid] split: if_splits)

lemma midway_terminate:
  assumes mid: "midway sent' e peer s F G" and t: "terminate_inner s r notify by_remote now = Some s'"
  shows "\<exists>F' G'. midway sent' e peer s' F' G'"
proof (cases "ss_state s = Terminated")
  case True
  with assms show ?thesis by (auto simp: terminate_inner_def)
next
  case False
  with t obtain s1 s2 where flush: "flush_channels (tick_outputs now s) = Some s1"
    and notice: "disconnect_notice notify r (s1\<lparr>termination_reason := r\<rparr>) = Some s2"
    and s': "s' = push_event (Closed r) (s2\<lparr>ss_state := Terminated, terminated_by_remote := by_remote\<rparr>)"
    by (auto simp: terminate_inner_eq bind_eq_Some_iff)
  obtain F1 where "midway sent' e peer (tick_outputs now s) F1 G"
    using midway_tick_outputs [OF mid] by blast
  from midway_flush [OF this flush] obtain F2 G2 where m1: "midway sent' e peer s1 F2 G2" by blast
  have "midway sent' e peer (s1\<lparr>termination_reason := r\<rparr>) F2 G2"
    by (rule midway_cong [OF m1]) simp_all
  from midway_notice [OF this notice] have m2: "midway sent' e peer s2 F2 G2" .
  have "midway sent' e peer s' F2 G2"
    unfolding s' by (rule midway_cong [OF m2]) (simp_all add: push_event_def)
  then show ?thesis by blast
qed

section \<open>Channels of a session\<close>

lemma midway_matched: "midway sent' e peer s F G \<Longrightarrow> matched s (ep_session peer)"
  by (simp add: midway_def)

lemma matched_data_length:
  assumes "matched s r"
  shows "session_max_data_length (ss_params s) = Some (max_data_length (send_config (ss_params s)))"
    and "6 \<le> max_data_length (send_config (ss_params s))"
  using max_data_length_total [of "ss_params s"] assms
  by (auto simp: matched_def pair_params_def send_config_def)

lemma matched_config:
  assumes "matched s r"
  shows "flow_config (send_config (ss_params s)) (input_channel_config (ss_params r))"
proof -
  have "pair_params (ss_params s)" "pair_params (ss_params r)" using assms by (simp_all add: matched_def)
  then show ?thesis using matched_data_length [OF assms]
    by (simp add: flow_config_def input_channel_config_def pair_params_def room_ok_def)
      (simp add: send_config_def)
qed

lemma session_send_channel:
  assumes "matched s r" and "ch < RELIABLE_CHANNEL_COUNT"
  shows "session_output_channel s ch now = Some (send_channel s ch)"
proof -
  have "output_new c k now = output_new c k 0" for c k by (simp add: output_new_def)
  moreover have "ch < length (ss_outputs s)" using assms by (simp add: matched_def)
  moreover have "send_config (ss_params s) = \<lparr>max_data_length = max_data_length (send_config (ss_params s)),
      max_queued_outgoing = unat (max_queued_outgoing_reliable (ss_params s)), ack_wait = DEFAULT_ACK_WAIT\<rparr>"
    by (simp add: send_config_def)
  ultimately show ?thesis
    using matched_data_length [OF assms(1)]
    by (simp add: session_output_channel_def send_channel_def split: option.split)
qed

text \<open>The send channel is created, or nothing is sent on it.\<close>

lemma midway_touch:
  assumes "midway sent' e peer s F G" and "ch < RELIABLE_CHANNEL_COUNT"
  shows "midway sent' e peer (set_output ch (send_channel s ch) s) F G"
proof -
  have "ch < length (ss_outputs s)" using assms by (simp add: midway_def matched_def)
  then have "send_channel (set_output ch (send_channel s ch) s) = send_channel s" by simp
  with assms(1) show ?thesis unfolding midway_def flows_def by simp
qed

text \<open>A receive channel is created.\<close>

lemma midway_create:
  assumes mid: "midway sent' e peer s F G" and ch: "ch < RELIABLE_CHANNEL_COUNT"
    and i: "session_input_channel s ch now = Some i"
  shows "\<exists>g. midway sent' e peer (set_input ch i s) F (G(ch := g)) \<and> fl_in g = i \<and>
    fl_net g = fl_net (G ch) \<and> fl_sent g = fl_sent (G ch) \<and>
    timely i = timely (fl_in (G ch))"
proof (cases "ss_inputs s ! ch")
  case (Some i')
  have len: "ch < length (ss_inputs s)" using mid ch by (simp add: midway_def matched_def)
  with Some i have i': "i' = i" by (simp add: session_input_channel_def)
  then have "set_input ch i s = s" using Some len
    by (simp add: set_input_def list_update_same_conv)
  with mid Some show ?thesis
    using midway_flows(2) [OF mid ch] i' by (intro exI [of _ "G ch"]) (simp add: receives_def)
next
  case None
  let ?c = "input_channel_config (ss_params s)" and ?k = "ss_cipher s"
  obtain t where t: "fl_in (G ch) = input_new ?c ?k t"
    using None midway_flows(2) [OF mid ch] by (auto simp: receives_def)
  have len: "ch < length (ss_inputs s)" using mid ch by (simp add: midway_def matched_def)
  with None i have i': "i = input_new ?c ?k now" by (simp add: session_input_channel_def)
  let ?g = "(G ch)\<lparr>fl_in := i\<rparr>"
  have "flow_step (send_config (ss_params (ep_session peer))) ?c (ss_cipher (ep_session peer)) now (G ch) ?g"
    unfolding i' midway_flows(7) [OF mid ch] using t by (rule flow_step.create)
  from midway_receiver [OF mid ch this] have "midway sent' e peer (set_input ch i s) F (G(ch := ?g))"
    by simp
  moreover have "timely i = timely (fl_in (G ch))"
    by (simp add: i' t fun_eq_iff timely_def input_new_def max_queued_def)
  ultimately show ?thesis by (intro exI [of _ ?g]) simp
qed

section \<open>Handlers\<close>

lemma midway_enqueue:
  assumes mid: "midway sent' e peer s F G" and ch: "ch < RELIABLE_CHANNEL_COUNT"
    and e: "enqueue_reliable s ch data = Some s'"
    and ok: "data \<noteq> [] \<Longrightarrow> message_ok (ss_cipher s) data"
  shows "\<exists>F'. midway (if data = [] then sent' else sent'(ch := sent' ch @ [data])) e peer s' F' G"
proof -
  obtain o' where o': "enqueue_data (send_channel s ch) data = Some o'" and s': "s' = set_output ch o' s"
    using e by (auto simp: enqueue_reliable_def session_send_channel [OF midway_matched [OF mid] ch]
        bind_eq_Some_iff)
  show ?thesis
  proof (cases "data = []")
    case True
    with o' s' midway_touch [OF mid ch] show ?thesis by auto
  next
    case False
    let ?f = "(F ch)\<lparr>fl_out := o', fl_sent := fl_sent (F ch) @ [data]\<rparr>"
    have "flow_step oc ic (ss_cipher s) now (F ch) ?f" for oc ic now
      using ok [OF False] o' midway_flows(1) [OF mid ch] by (intro flow_step.send) simp_all
    from midway_sender [OF mid ch this]
    have "midway (sent'(ch := fl_sent ?f)) e peer (set_output ch o' s) (F(ch := ?f)) G" by simp
    with False s' midway_flows(5) [OF mid ch] show ?thesis by auto
  qed
qed

lemma midway_reliable:
  assumes mid: "midway sent' e peer s F G" and ch: "ch < RELIABLE_CHANNEL_COUNT"
    and pkt: "pkt \<in> fl_net (G ch)"
      "j < length (flow_packets (send_config (ss_params (ep_session peer))) (ss_cipher s) (G ch))"
      "pkt = packet_wire (flow_packets (send_config (ss_params (ep_session peer))) (ss_cipher s) (G ch)) j"
    and timely: "timely (fl_in (G ch)) j"
    and h: "handle_reliable s (or_op_code pkt = ReliableDataFragment) ch (or_payload pkt) now = Some s'"
  shows "\<exists>F' G'. midway sent' e peer s' F' G'"
proof -
  from h obtain i i' res where i: "session_input_channel s ch now = Some i"
    and handle: "handle_packet i (or_op_code pkt = ReliableDataFragment) (or_payload pkt) now = Some (i', res)"
    and s': "(case res of Inl e \<Rightarrow> terminate_inner (set_input ch i' s) CorruptPacket True False now
      | Inr _ \<Rightarrow> Some (set_input ch i' s)) = Some s'"
    by (auto simp: handle_reliable_def handle_packet_def bind_eq_Some_iff Let_def)
  obtain g where mid1: "midway sent' e peer (set_input ch i s) F (G(ch := g))"
    and g: "fl_in g = i" "fl_net g = fl_net (G ch)" "fl_sent g = fl_sent (G ch)"
      "timely i = timely (fl_in (G ch))"
    using midway_create [OF mid ch i] by blast
  let ?oc = "send_config (ss_params (ep_session peer))"
  have P: "flow_packets ?oc (ss_cipher s) g = flow_packets ?oc (ss_cipher s) (G ch)"
    by (simp add: flow_packets_def g)
  let ?g = "g\<lparr>fl_in := i'\<rparr>"
  have "flow_step ?oc ic (ss_cipher s) now g ?g" for ic
    by (rule flow_step.deliver [OF _ _ _ _ handle [folded g(1)], of j])
      (use pkt timely g in \<open>simp_all add: P\<close>)
  then have "flow_step ?oc (input_channel_config (ss_params (set_input ch i s)))
      (ss_cipher (ep_session peer)) now ((G(ch := g)) ch) ?g"
    using midway_flows(7) [OF mid ch] by simp
  from midway_receiver [OF mid1 ch this]
  have mid2: "midway sent' e peer (set_input ch i' s) F (G(ch := ?g))"
    by (simp add: set_input_def fun_upd_def cong: if_cong)
  show ?thesis
  proof (cases res)
    case (Inl e)
    with s' midway_terminate [OF mid2] show ?thesis by simp
  next
    case (Inr u)
    with s' mid2 show ?thesis by auto
  qed
qed

lemma midway_acknowledge:
  assumes mid: "midway sent' e peer s F G" and ch: "ch < RELIABLE_CHANNEL_COUNT"
    and r: "(r, m) \<in> fl_acks (F ch)" and p: "prompt (fl_out (F ch)) m (fl_in (F ch))"
  shows "\<exists>F'. midway sent' e peer (set_output ch (flow_notify (send_channel s ch) r now) s) F' G"
proof -
  let ?f = "(F ch)\<lparr>fl_out := flow_notify (fl_out (F ch)) r now\<rparr>"
  have step: "flow_step oc ic c now (F ch) ?f" for oc ic c using r p by (rule flow_step.acknowledge)
  from midway_sender [OF mid ch step]
  have "midway (sent'(ch := fl_sent (F ch))) e peer
      (set_output ch (flow_notify (fl_out (F ch)) r now) s) (F(ch := ?f)) G" by simp
  then show ?thesis
    using midway_flows(1,5) [OF mid ch] by auto
qed

section \<open>Datagrams\<close>

lemma midway_refreshed:
  "midway sent' e peer s F G \<Longrightarrow> midway sent' e peer (refreshed s now) F G"
  by (erule midway_cong) (simp_all add: refreshed_def open_pending_def push_event_def)

lemma midway_unreliable:
  assumes mid: "midway sent' e peer s F G" and h: "handle_unreliable s dg now = Some r"
  shows "midway sent' e peer (snd r) F G"
proof -
  have "midway sent' e peer (push_received d Unreliable (open_pending (s\<lparr>last_received := now\<rparr>))) F G" for d
    by (rule midway_cong [OF mid])
      (simp_all add: push_received_def open_pending_def push_event_def)
  with h mid show ?thesis
    by (auto simp: handle_unreliable_def Let_def bind_eq_Some_iff split: if_splits)
qed

lemma midway_invalid:
  assumes mid: "midway sent' e peer s F G" and live: "ss_state s \<noteq> Terminated"
    and v: "validated s dg = Some (v, op)" "v \<noteq> Valid"
    and p: "process_incoming inflate s dg now = Some s'"
  shows "\<exists>F' G'. midway sent' e peer s' F' G'"
proof -
  obtain consumed s1 where s1: "(if v = InvalidOpCode then handle_unreliable s dg now
      else Some (False, s)) = Some (consumed, s1)"
    and rest: "(if consumed then flush_channels s1 else terminate_inner s1 CorruptPacket True False now) =
      Some s'"
    using p unfolding process_invalid [OF live v] by (auto simp: bind_eq_Some_iff)
  have "midway sent' e peer s1 F G"
    using s1 mid midway_unreliable [OF mid] by (fastforce split: if_splits)
  with rest midway_flush midway_terminate show ?thesis by (metis (full_types))
qed

text \<open>A contextual datagram is handled, unless it is too short to be valid.\<close>

lemma process_contextual:
  assumes crc: "unat (crc_length (ss_params s)) \<le> 4" and live: "ss_state s \<noteq> Terminated"
    and op: "op_from_u16 (op_as_u16 op + of_nat ch) = Some op" "\<not> is_contextless op"
  shows "process_incoming inflate s (contextual_datagram (ss_params s) op ch payload) now =
      Option.bind (handle_contextual_inner (refreshed s now) op
        (reliable_channel (op_as_u16 op + of_nat ch)) payload now) flush_channels \<or>
    (\<exists>v op'. validated s (contextual_datagram (ss_params s) op ch payload) = Some (v, op') \<and> v \<noteq> Valid)"
proof (cases "packet_minimum_length op (is_compression_enabled (ss_params s)) (crc_length (ss_params s)) \<le>
      2 + (if is_compression_enabled (ss_params s) then 1 else 0) + length payload +
      unat (crc_length (ss_params s))")
  case True
  from process_framed [OF refl crc op True live] show ?thesis by (simp add: contextual_datagram_def)
next
  case False
  then have "validated s (contextual_datagram (ss_params s) op ch payload) = Some (TooShort, Some op)"
    using op(1) with_check_parts(1) [OF crc] contextual_body_parts(1,2)
    by (simp add: validate_packet_def contextual_datagram_def OP_CODE_SIZE_def)
      (simp add: with_check_def contextual_body_parts(2) not_le)
  then show ?thesis by simp
qed

lemma midway_contextual:
  assumes mid: "midway sent' e peer s F G" and live: "ss_state s \<noteq> Terminated"
    and op: "op_from_u16 (op_as_u16 op + of_nat ch) = Some op" "\<not> is_contextless op"
    and ch: "reliable_channel (op_as_u16 op + of_nat ch) = ch"
    and handler: "\<And>s1. handle_contextual_inner (refreshed s now) op ch payload now = Some s1 \<Longrightarrow>
      \<exists>F' G'. midway sent' e peer s1 F' G'"
    and p: "process_incoming inflate s (contextual_datagram (ss_params s) op ch payload) now = Some s'"
  shows "\<exists>F' G'. midway sent' e peer s' F' G'"
  using process_contextual [OF midway_crc [OF mid] live op, of inflate payload now]
proof
  assume "process_incoming inflate s (contextual_datagram (ss_params s) op ch payload) now =
      Option.bind (handle_contextual_inner (refreshed s now) op
        (reliable_channel (op_as_u16 op + of_nat ch)) payload now) flush_channels"
  then have "Option.bind (handle_contextual_inner (refreshed s now) op ch payload now) flush_channels =
      Some s'" unfolding p ch by simp
  then obtain s1 where "handle_contextual_inner (refreshed s now) op ch payload now = Some s1"
    and flush: "flush_channels s1 = Some s'"
    by (auto simp: bind_eq_Some_iff)
  then obtain F1 G1 where "midway sent' e peer s1 F1 G1" using handler by blast
  from midway_flush [OF this flush] show ?thesis .
next
  assume "\<exists>v op'. validated s (contextual_datagram (ss_params s) op ch payload) = Some (v, op') \<and> v \<noteq> Valid"
  with midway_invalid [OF mid live _ _ p] show ?thesis by blast
qed

lemma ack_ops:
  assumes mid: "midway sent' e peer s F G" and ch: "ch < RELIABLE_CHANNEL_COUNT"
    and r: "(r, m) \<in> fl_acks (F ch)"
  shows "oc_op_code r = Acknowledge \<or> oc_op_code r = AcknowledgeAll"
proof -
  have "flow_reach (send_config (ss_params s)) (input_channel_config (ss_params (ep_session peer)))
      (ss_cipher s) (F ch)"
    using mid ch by (simp add: midway_def flows_def)
  from flow_reach_inv [OF this matched_config [OF midway_matched [OF mid]]] r
  show ?thesis by (auto simp: flow_inv_parts ack_sound_def)
qed

lemma midway_ack_datagram:
  assumes mid: "midway sent' e peer s F G" and live: "ss_state s \<noteq> Terminated"
    and ch: "ch < RELIABLE_CHANNEL_COUNT" and r: "(r, m) \<in> fl_acks (F ch)"
    and p: "prompt (fl_out (F ch)) m (fl_in (F ch))"
    and process: "process_incoming inflate s (ack_datagram (ss_params s) ch r) now = Some s'"
  shows "\<exists>F' G'. midway sent' e peer s' F' G'"
proof (rule midway_contextual [OF mid live])
  let ?s = "refreshed s now" and ?op = "oc_op_code r"
  have op: "?op = Acknowledge \<or> ?op = AcknowledgeAll" by (rule ack_ops [OF mid ch r])
  then have "has_channels ?op" by (auto simp: has_channels_def)
  then show "op_from_u16 (op_as_u16 ?op + of_nat ch) = Some ?op"
    and "reliable_channel (op_as_u16 ?op + of_nat ch) = ch"
    using op_of_channel ch by blast+
  show "\<not> is_contextless ?op" using op by auto
  show "process_incoming inflate s (contextual_datagram (ss_params s) ?op ch (be16 (oc_sequence r))) now =
      Some s'"
    using process by (simp add: ack_datagram_def)
  fix s1
  assume h: "handle_contextual_inner ?s ?op ch (be16 (oc_sequence r)) now = Some s1"
  have mid': "midway sent' e peer ?s F G" by (rule midway_refreshed [OF mid])
  have "s1 = set_output ch (flow_notify (send_channel ?s ch) r now) ?s"
    using h op session_send_channel [OF midway_matched [OF mid'] ch]
      ack.deser_bytes [of "\<lparr>ack_sequence = oc_sequence r\<rparr>" "[]"]
      ack_all.deser_bytes [of "\<lparr>ack_all_sequence = oc_sequence r\<rparr>" "[]"]
    by (auto simp: handle_contextual_inner.simps handle_acknowledge_def handle_acknowledge_all_def
        flow_notify_def)
  then show "\<exists>F' G'. midway sent' e peer s1 F' G'"
    using midway_acknowledge [OF mid' ch r p, of now] by blast
qed

lemma midway_packet_datagram:
  assumes mid: "midway sent' e peer s F G" and live: "ss_state s \<noteq> Terminated"
    and ch: "ch < RELIABLE_CHANNEL_COUNT"
    and pkt: "pkt \<in> fl_net (G ch)"
      "j < length (flow_packets (send_config (ss_params (ep_session peer))) (ss_cipher s) (G ch))"
      "pkt = packet_wire (flow_packets (send_config (ss_params (ep_session peer))) (ss_cipher s) (G ch)) j"
    and timely: "timely (fl_in (G ch)) j"
    and process: "process_incoming inflate s (packet_datagram (ss_params s) ch pkt) now = Some s'"
  shows "\<exists>F' G'. midway sent' e peer s' F' G'"
proof (rule midway_contextual [OF mid live])
  let ?s = "refreshed s now" and ?op = "or_op_code pkt"
  have op: "?op = ReliableData \<or> ?op = ReliableDataFragment" by (simp add: pkt(3) packet_wire_def)
  then have "has_channels ?op" by (auto simp: has_channels_def)
  then show "op_from_u16 (op_as_u16 ?op + of_nat ch) = Some ?op"
    and "reliable_channel (op_as_u16 ?op + of_nat ch) = ch"
    using op_of_channel ch by blast+
  show "\<not> is_contextless ?op" using op by auto
  show "process_incoming inflate s (contextual_datagram (ss_params s) ?op ch (or_payload pkt)) now = Some s'"
    using process by (simp add: packet_datagram_def)
  fix s1
  assume h: "handle_contextual_inner ?s ?op ch (or_payload pkt) now = Some s1"
  have mid': "midway sent' e peer ?s F G" by (rule midway_refreshed [OF mid])
  have cipher: "ss_cipher ?s = ss_cipher s" by (simp add: refreshed_def open_pending_def push_event_def)
  have "handle_reliable ?s (?op = ReliableDataFragment) ch (or_payload pkt) now = Some s1"
    using h op by (auto simp: handle_contextual_inner.simps)
  from midway_reliable [OF mid' ch pkt(1) _ _ timely this] pkt(2,3)
  show "\<exists>F' G'. midway sent' e peer s1 F' G'" unfolding cipher by blast
qed

lemma midway_control:
  assumes mid: "midway sent' e peer s F G" and live: "ss_state s \<noteq> Terminated"
    and dg: "dg = contextual_datagram (ss_params s) Heartbeat 0 [] \<or>
      (\<exists>d. dg = contextual_datagram (ss_params s) Disconnect 0 (disconnect_bytes d))"
    and process: "process_incoming inflate s dg now = Some s'"
  shows "\<exists>F' G'. midway sent' e peer s' F' G'"
proof -
  let ?s = "refreshed s now"
  have mid': "midway sent' e peer ?s F G" by (rule midway_refreshed [OF mid])
  have heartbeat: "\<exists>F' G'. midway sent' e peer s1 F' G'"
    if "handle_contextual_inner ?s Heartbeat 0 [] now = Some s1" for s1
  proof -
    have "midway sent' e peer (push_outgoing (contextual_datagram (ss_params ?s) Heartbeat 0 []) ?s) F G"
      by (intro midway_push [OF mid'] known_control)
    with that mid' show ?thesis
      by (auto simp: handle_contextual_inner.simps handle_heartbeat_def frame_control [OF mid']
          split: if_splits)
  qed
  have disconnect: "\<exists>F' G'. midway sent' e peer s1 F' G'"
    if "handle_contextual_inner ?s Disconnect 0 body now = Some s1" for s1 body
    using that midway_terminate [OF mid'] mid'
    by (auto simp: handle_contextual_inner.simps handle_disconnect_def split: sum.splits)
  have ops: "op_from_u16 (op_as_u16 op + of_nat 0) = Some op" for op by simp
  have chan: "reliable_channel (op_as_u16 Heartbeat + of_nat 0) = 0"
    "reliable_channel (op_as_u16 Disconnect + of_nat 0) = 0"
    by (simp_all add: reliable_channel_def op_as_u16_def)
  from dg show ?thesis
  proof
    assume "dg = contextual_datagram (ss_params s) Heartbeat 0 []"
    with midway_contextual [OF mid live ops _ chan(1) heartbeat] process show ?thesis by simp
  next
    assume "\<exists>d. dg = contextual_datagram (ss_params s) Disconnect 0 (disconnect_bytes d)"
    with midway_contextual [OF mid live ops _ chan(2) disconnect] process show ?thesis by auto
  qed
qed

lemma midway_raw:
  assumes mid: "midway sent' e peer s F G" and live: "ss_state s \<noteq> Terminated"
    and d: "d \<noteq> []" and process: "process_incoming inflate s (with_check (ss_params s) (unreliable_body d)) now = Some s'"
  shows "\<exists>F' G'. midway sent' e peer s' F' G'"
proof -
  have "\<exists>v op. validated s (with_check (ss_params s) (unreliable_body d)) = Some (v, op) \<and> v \<noteq> Valid"
    using unreliable_no_op [OF d] by (simp add: validate_packet_def with_check_def)
  with midway_invalid [OF mid live _ _ process] show ?thesis by blast
qed

text \<open>Whatever the peer may have sent is processed in step with the flows.\<close>

lemma midway_process:
  assumes mid: "midway sent' e peer s F G"
    and known: "known (ss_params (ep_session peer)) G F (dg, m)"
    and timely: "\<And>ch pkt. ch < RELIABLE_CHANNEL_COUNT \<Longrightarrow> pkt \<in> fl_net (G ch) \<Longrightarrow>
      dg = packet_datagram (ss_params (ep_session peer)) ch pkt \<Longrightarrow>
      \<exists>j<length (flow_packets (send_config (ss_params (ep_session peer))) (ss_cipher s) (G ch)).
        pkt = packet_wire (flow_packets (send_config (ss_params (ep_session peer))) (ss_cipher s) (G ch)) j \<and>
        timely (fl_in (G ch)) j"
    and prompt: "\<And>ch r. ch < RELIABLE_CHANNEL_COUNT \<Longrightarrow> (r, m ch) \<in> fl_acks (F ch) \<Longrightarrow>
      dg = ack_datagram (ss_params (ep_session peer)) ch r \<Longrightarrow>
      prompt (fl_out (F ch)) (m ch) (fl_in (F ch))"
    and process: "process_incoming inflate s dg now = Some s'"
  shows "\<exists>F' G'. midway sent' e peer s' F' G'"
proof (cases "ss_state s = Terminated")
  case True
  with mid process show ?thesis by (auto simp: process_incoming_def)
next
  case live: False
  let ?p = "ss_params s" and ?q = "ss_params (ep_session peer)"
  have wire: "same_wire ?q ?p" using midway_matched [OF mid] unfolding matched_def same_wire_def by metis
  have eq: "contextual_datagram ?q = contextual_datagram ?p" "with_check ?q = with_check ?p"
    using same_wire_framed [OF wire] by (simp_all add: fun_eq_iff contextual_datagram_def)
  have eqs: "packet_datagram ?q = packet_datagram ?p" "ack_datagram ?q = ack_datagram ?p"
    by (simp_all add: fun_eq_iff packet_datagram_def ack_datagram_def eq)
  from known consider (packet) ch pkt where "ch < RELIABLE_CHANNEL_COUNT" "pkt \<in> fl_net (G ch)"
      "dg = packet_datagram ?q ch pkt"
    | (ack) ch r where "ch < RELIABLE_CHANNEL_COUNT" "(r, m ch) \<in> fl_acks (F ch)"
      "dg = ack_datagram ?q ch r"
    | (control) "dg = contextual_datagram ?q Heartbeat 0 [] \<or>
        (\<exists>d. dg = contextual_datagram ?q Disconnect 0 (disconnect_bytes d))"
    | (raw) d where "d \<noteq> []" "dg = with_check ?q (unreliable_body d)"
    unfolding known_def by auto
  then show ?thesis
  proof cases
    case packet
    from timely [OF packet] obtain j where
      "j < length (flow_packets (send_config ?q) (ss_cipher s) (G ch))"
      "pkt = packet_wire (flow_packets (send_config ?q) (ss_cipher s) (G ch)) j"
      "timely (fl_in (G ch)) j" by blast
    from midway_packet_datagram [OF mid live packet(1,2) this] process show ?thesis
      by (simp add: packet(3) eqs)
  next
    case ack
    from midway_ack_datagram [OF mid live ack(1,2) prompt [OF ack]] process show ?thesis
      by (simp add: ack(3) eqs)
  next
    case control
    with midway_control [OF mid live _ process] show ?thesis by (simp add: eq)
  next
    case raw
    with midway_raw [OF mid live raw(1)] process show ?thesis by (simp add: eq)
  qed
qed

section \<open>Nothing is left pending\<close>

definition slot_quiet :: "session \<Rightarrow> nat \<Rightarrow> bool" where
  "slot_quiet s ch \<longleftrightarrow> (\<forall>i. ss_inputs s ! ch = Some i \<longrightarrow> in_outgoing i = [] \<and> app_data i = [])"

lemma quiet_slots:
  "length (ss_inputs s) = RELIABLE_CHANNEL_COUNT \<Longrightarrow>
   quiet s \<longleftrightarrow> (\<forall>ch<RELIABLE_CHANNEL_COUNT. slot_quiet s ch)"
  unfolding quiet_def slot_quiet_def by (metis in_set_conv_nth)

lemma flush_channel_quiet:
  assumes "flush_channel ch s = Some s'" and "ch < length (ss_inputs s)"
  shows "slot_quiet s' ch \<and> length (ss_inputs s') = length (ss_inputs s) \<and>
    (\<forall>c. c \<noteq> ch \<longrightarrow> ss_inputs s' ! c = ss_inputs s ! c)"
proof -
  obtain s1 s2 where s1: "flush_acks ch s = Some s1" and s2: "flush_packets ch s1 = Some s2"
    and s': "s' = flush_app_data ch s2"
    using assms(1) by (auto simp: flush_channel_def bind_eq_Some_iff)
  have i2: "ss_inputs s2 = ss_inputs s1"
    using s2 by (auto simp: flush_packets_def split_beta set_output_def dest!: push_frames_inputs
        split: option.splits)
  show ?thesis
  proof (cases "ss_inputs s ! ch")
    case None
    then have "ss_inputs s1 = ss_inputs s" using s1 by (simp add: flush_acks_def)
    with None i2 show ?thesis by (simp add: s' flush_app_data_def slot_quiet_def)
  next
    case (Some i)
    then have "ss_inputs s1 = (ss_inputs s)[ch := Some (i\<lparr>in_outgoing := []\<rparr>)]"
      using s1 by (auto simp: flush_acks_def input_take_outgoing_def set_input_def dest!: push_frames_inputs)
    with Some i2 assms(2) show ?thesis
      by (simp add: s' flush_app_data_def take_app_data_def slot_quiet_def set_input_def)
  qed
qed

lemma flush_list_quiet:
  assumes "flush_list chs s = Some s'" and "\<forall>ch\<in>set chs. ch < length (ss_inputs s)"
  shows "length (ss_inputs s') = length (ss_inputs s) \<and> (\<forall>ch\<in>set chs. slot_quiet s' ch) \<and>
    (\<forall>ch. slot_quiet s ch \<longrightarrow> slot_quiet s' ch)"
  using assms
proof (induction chs arbitrary: s)
  case (Cons ch chs)
  then obtain s1 where s1: "flush_channel ch s = Some s1" and rest: "flush_list chs s1 = Some s'"
    by (auto simp: bind_eq_Some_iff)
  have q: "slot_quiet s1 ch" "length (ss_inputs s1) = length (ss_inputs s)"
    and other: "\<And>c. c \<noteq> ch \<Longrightarrow> ss_inputs s1 ! c = ss_inputs s ! c"
    using flush_channel_quiet [OF s1] Cons.prems(2) by simp_all
  have keep: "slot_quiet s c \<Longrightarrow> slot_quiet s1 c" for c
    using q(1) other by (cases "c = ch") (auto simp: slot_quiet_def)
  from Cons.IH [OF rest] Cons.prems(2) q keep show ?case by auto
qed simp

lemma flush_quiet:
  assumes "flush_channels s = Some s'" and "length (ss_inputs s) = RELIABLE_CHANNEL_COUNT"
  shows "quiet s'"
  using flush_list_quiet [OF assms(1) [unfolded flush_channels_def]] assms(2)
  by (simp add: quiet_slots)

lemma terminate_quiet:
  assumes t: "terminate_inner s r note_remote by_remote now = Some s'"
    and "length (ss_inputs s) = RELIABLE_CHANNEL_COUNT" and "quiet s \<or> ss_state s \<noteq> Terminated"
  shows "quiet s'"
proof (cases "ss_state s = Terminated")
  case True
  with assms show ?thesis by (simp add: terminate_inner_def)
next
  case False
  with t obtain s1 s2 where flush: "flush_channels (tick_outputs now s) = Some s1"
    and s2: "disconnect_notice note_remote r (s1\<lparr>termination_reason := r\<rparr>) = Some s2"
    and s': "s' = push_event (Closed r) (s2\<lparr>ss_state := Terminated, terminated_by_remote := by_remote\<rparr>)"
    by (auto simp: terminate_inner_eq bind_eq_Some_iff)
  have "quiet s1" using flush_quiet [OF flush] assms(2) by (simp add: tick_outputs_def)
  moreover have "ss_inputs s2 = ss_inputs s1"
    using s2 by (auto simp: disconnect_notice_def bind_eq_Some_iff push_outgoing_def split: if_splits)
  ultimately show ?thesis by (simp add: s' quiet_def push_event_def)
qed

lemma unreliable_unconsumed: "handle_unreliable s dg now = Some (False, s') \<Longrightarrow> s' = s"
  by (auto simp: handle_unreliable_def Let_def bind_eq_Some_iff split: if_splits)

text \<open>No operation changes how many receive channels there are.\<close>

abbreviation slots :: "session \<Rightarrow> nat" where "slots s \<equiv> length (ss_inputs s)"

interpretation slots: fixed_view slots
  by unfold_locales (simp_all add: push_defs tick_outputs_def tick_channels_def)

lemma process_quiet:
  assumes p: "process_incoming inflate s dg now = Some s'" and len: "slots s = RELIABLE_CHANNEL_COUNT"
    and q: "quiet s"
  shows "quiet s'"
proof (cases "ss_state s = Terminated")
  case True
  with p q show ?thesis by (simp add: process_incoming_def)
next
  case live: False
  obtain v op where v: "validated s dg = Some (v, op)"
    using p live by (cases "validated s dg") (auto simp: process_incoming_def)
  show ?thesis
  proof (cases "v = Valid")
    case True
    then obtain code where v': "validated s dg = Some (Valid, Some code)"
      using v validate_Valid by blast
    obtain s1 where s1: "(if is_contextless code then handle_contextless (refreshed s now) code (drop 2 dg) now
        else handle_contextual inflate (refreshed s now) code (datagram_channel dg) (valid_body s dg) now) =
        Some s1" and flush: "flush_channels s1 = Some s'"
      using p unfolding process_valid [OF live v'] bind_eq_Some_iff by blast
    have "slots s1 = RELIABLE_CHANNEL_COUNT"
      using s1 len slots.contextless_view [of "refreshed s now" code "drop 2 dg" now s1]
        slots.fixed.handle_contextual_within [of "refreshed s now" RELIABLE_CHANNEL_COUNT
          "datagram_channel dg" inflate code "valid_body s dg" now]
      by (auto simp: within_True datagram_channel_def reliable_channel_less split: if_splits)
    with flush_quiet [OF flush] show ?thesis by simp
  next
    case False
    obtain consumed s1 where s1: "(if v = InvalidOpCode then handle_unreliable s dg now
        else Some (False, s)) = Some (consumed, s1)"
      and rest: "(if consumed then flush_channels s1 else terminate_inner s1 CorruptPacket True False now) =
        Some s'"
      using p unfolding process_invalid [OF live v False] by (auto simp: bind_eq_Some_iff)
    have len1: "slots s1 = RELIABLE_CHANNEL_COUNT"
      using s1 len slots.handler_view(5) [of s dg now "(consumed, s1)"] by (auto split: if_splits)
    show ?thesis
    proof (cases consumed)
      case True
      with rest flush_quiet len1 show ?thesis by auto
    next
      case False
      then have "s1 = s" using s1 by (auto split: if_splits dest: unreliable_unconsumed)
      with False rest terminate_quiet [OF _ len] live show ?thesis by auto
    qed
  qed
qed

lemma tick_quiet:
  assumes t: "session_run_tick s now = Some s'" and len: "slots s = RELIABLE_CHANNEL_COUNT" and q: "quiet s"
  shows "quiet s'"
proof (cases "ss_state s = Terminated")
  case True
  with t q show ?thesis by (simp add: session_run_tick_def)
next
  case live: False
  then obtain s1 where s1: "send_heartbeat_if_required s now = Some s1"
    and rest: "(if inactivity_timeout (ss_params s1) \<noteq> 0 \<and>
        inactivity_timeout (ss_params s1) < duration_since now (last_received s1)
      then terminate_inner s1 Timeout False False now else flush_channels (tick_channels now s1)) = Some s'"
    using t by (auto simp: session_run_tick_def bind_eq_Some_iff)
  have "slots s1 = RELIABLE_CHANNEL_COUNT" using slots.handler_view(7) [OF s1] len by simp
  moreover have "ss_state s1 = ss_state s"
    using s1 by (auto simp: send_heartbeat_if_required_def bind_eq_Some_iff push_outgoing_def split: if_splits)
  ultimately show ?thesis
    using rest live flush_quiet [of "tick_channels now s1" s'] terminate_quiet [of s1 Timeout False False now s']
    by (simp add: slots.view_ticks split: if_splits)
qed

lemma enqueue_inputs: "enqueue_data_on s data channel = Some (ok, s') \<Longrightarrow> ss_inputs s' = ss_inputs s"
  by (auto simp: enqueue_data_on_def enqueue_reliable_def bind_eq_Some_iff Let_def set_output_def
      push_outgoing_def split: if_splits Channel.splits)

section \<open>The steps of a pair\<close>

lemma receives_quiet:
  assumes "receives s ch i" and "quiet s" and "ch < length (ss_inputs s)"
  shows "in_outgoing i = []" and "app_data i = []" and "window_start_sequence i = window_marks s ch"
proof -
  have "in_outgoing i = [] \<and> app_data i = []"
  proof (cases "ss_inputs s ! ch")
    case None
    with assms(1) show ?thesis by (auto simp: receives_def input_new_def)
  next
    case (Some i')
    then have "Some i \<in> set (ss_inputs s)" using assms(1,3) nth_mem by (fastforce simp: receives_def)
    with assms(2) show ?thesis by (simp add: quiet_def)
  qed
  then show "in_outgoing i = []" and "app_data i = []" by simp_all
  show "window_start_sequence i = window_marks s ch"
    using assms(1) by (auto simp: receives_def window_marks_def input_new_def split: option.splits)
qed

text \<open>An operation begins: the flows from the peer are marked.\<close>

lemma midway_begin:
  assumes rel: "pair_rel e peer F G"
  shows "\<exists>G'. midway (ep_sent e) e peer (ep_session e) F G' \<and>
    (\<forall>ch. fl_in (G' ch) = fl_in (G ch) \<and> fl_net (G' ch) = fl_net (G ch) \<and>
       fl_sent (G' ch) = fl_sent (G ch))"
proof -
  let ?s = "ep_session e"
  define G' where "G' ch = (G ch)\<lparr>fl_mark := window_start_sequence (fl_in (G ch))\<rparr>" for ch
  have same: "fl_in (G' ch) = fl_in (G ch)" "fl_net (G' ch) = fl_net (G ch)" "fl_out (G' ch) = fl_out (G ch)"
    "fl_sent (G' ch) = fl_sent (G ch)" "fl_taken (G' ch) = fl_taken (G ch)" "fl_acks (G' ch) = fl_acks (G ch)"
    for ch
    by (simp_all add: G'_def)
  have known: "known p F G d \<Longrightarrow> known p F G' d" "known p G F d \<Longrightarrow> known p G' F d" for p d
    by (auto simp: same elim!: known_mono)
  have q: "quiet ?s" and len: "length (ss_inputs ?s) = RELIABLE_CHANNEL_COUNT"
    using rel by (simp_all add: pair_rel_def settled_def matched_def)
  have G: "flows (ep_session peer) ?s (ep_sent peer) (ep_got e) G" using rel by (simp add: pair_rel_def)
  have quiet: "in_outgoing (fl_in (G ch)) = []"
    "window_start_sequence (fl_in (G ch)) = window_marks ?s ch" if "ch < RELIABLE_CHANNEL_COUNT" for ch
    using receives_quiet(1,3) [OF _ q, of ch "fl_in (G ch)"] G that len by (simp_all add: flows_def)
  have "flow_reach oc ic c (G' ch)" if "flow_reach oc ic c (G ch)" "ch < RELIABLE_CHANNEL_COUNT" for oc ic c ch
    unfolding G'_def using flow_reach.step [OF that(1) flow_step.mark] quiet(1) [OF that(2)] .
  then have "flows (ep_session peer) ?s (ep_sent peer) (ep_got e) G'"
    using G unfolding flows_def same by blast
  moreover have "ss_outgoing ?s = []" "ss_received ?s = []" using rel by (simp_all add: pair_rel_def settled_def)
  ultimately have "midway (ep_sent e) e peer ?s F G'"
    using rel known quiet(2) by (simp add: midway_def pair_rel_def G'_def)
  then show ?thesis using same by blast
qed

text \<open>An operation ends.\<close>

lemma midway_settle:
  assumes mid: "midway sent' e peer s F G" and q: "quiet s" and p: "settled (ep_session peer)"
  shows "pair_rel (settle e s sent') peer F G"
proof -
  have frame: "ss_params (drain s) = ss_params s" "ss_cipher (drain s) = ss_cipher s"
    "ss_inputs (drain s) = ss_inputs s" "ss_outputs (drain s) = ss_outputs s"
    by (simp_all add: drain_def)
  have channels: "send_channel (drain s) = send_channel s" "receives (drain s) = receives s"
    by (auto simp: fun_eq_iff send_channel_def receives_def frame split: option.split)
  have "settled (drain s)" using q by (simp add: settled_def quiet_def drain_def)
  with mid p show ?thesis
    unfolding pair_rel_def midway_def matched_def flows_def settle_def
    by (auto simp: frame channels)
qed

lemma midway_enqueue_on:
  assumes mid: "midway sent' e peer s F G" and e: "enqueue_data_on s data channel = Some (ok, s')"
    and target: "reliable_target s data channel = None \<or> message_ok (ss_cipher s) data"
  shows "\<exists>F'. midway (sent_after s data channel sent') e peer s' F' G"
proof (cases "ss_state s = Running")
  case False
  with e have "s' = s" by (simp add: enqueue_data_on_def)
  with mid False show ?thesis by (auto simp: sent_after_def reliable_target_def)
next
  case running: True
  have reliable: "\<exists>F'. midway (sent_after s data channel sent') e peer s' F' G"
    if ch: "ch < RELIABLE_CHANNEL_COUNT" and er: "enqueue_reliable s ch data = Some s'"
      and t: "reliable_target s data channel = (if data = [] then None else Some ch)" for ch
    using midway_enqueue [OF mid ch er] target t by (auto simp: sent_after_def)
  show ?thesis
  proof (cases channel)
    case (Reliable ch)
    show ?thesis
    proof (cases "ch < RELIABLE_CHANNEL_COUNT")
      case True
      with e running Reliable have "enqueue_reliable s ch data = Some s'"
        by (auto simp: enqueue_data_on_def bind_eq_Some_iff)
      with True Reliable running show ?thesis by (intro reliable [of ch]) (simp_all add: reliable_target_def)
    next
      case False
      with e running Reliable mid show ?thesis
        by (auto simp: enqueue_data_on_def sent_after_def reliable_target_def)
    qed
  next
    case Unreliable
    let ?framed = "(if data ! 0 = 0 then 1 else 0) + length data + unat (crc_length (ss_params s))"
    show ?thesis
    proof (cases "data = []")
      case True
      with e running Unreliable mid show ?thesis
        by (auto simp: enqueue_data_on_def sent_after_def reliable_target_def)
    next
      case data: False
      show ?thesis
      proof (cases "unat (remote_udp_length (ss_params s)) < ?framed")
        case True
        with e running Unreliable data have "enqueue_reliable s 0 data = Some s'"
          by (auto simp: enqueue_data_on_def bind_eq_Some_iff Let_def)
        with True Unreliable running data show ?thesis
          by (intro reliable [of 0]) (simp_all add: reliable_target_def RELIABLE_CHANNEL_COUNT_def)
      next
        case False
        let ?dg = "with_check (ss_params s) (unreliable_body data)"
        have "s' = push_outgoing ?dg s"
          using e running Unreliable data False frame_unreliable_eq [OF midway_crc [OF mid] data]
          by (auto simp: enqueue_data_on_def Let_def bind_eq_Some_iff)
        moreover have "length ?dg = ?framed"
          using with_check_parts(1) [OF midway_crc [OF mid]] data
          by (simp add: unreliable_body_def hd_conv_nth)
        then have "known (ss_params s) F G (?dg, window_marks (ep_session e))"
          using data False by (auto simp: known_def)
        ultimately show ?thesis
          using midway_push [OF mid] Unreliable data False
          by (auto simp: sent_after_def reliable_target_def)
      qed
    qed
  qed
qed

lemma midway_tick:
  assumes mid: "midway sent' e peer s F G" and t: "session_run_tick s now = Some s'"
  shows "\<exists>F' G'. midway sent' e peer s' F' G'"
proof (cases "ss_state s = Terminated")
  case True
  with assms show ?thesis by (auto simp: session_run_tick_def)
next
  case False
  then obtain s1 where s1: "send_heartbeat_if_required s now = Some s1"
    and rest: "(if inactivity_timeout (ss_params s1) \<noteq> 0 \<and>
        inactivity_timeout (ss_params s1) < duration_since now (last_received s1)
      then terminate_inner s1 Timeout False False now else flush_channels (tick_channels now s1)) = Some s'"
    using t by (auto simp: session_run_tick_def bind_eq_Some_iff)
  have mid1: "midway sent' e peer s1 F G"
    using s1 mid midway_push [OF mid known_control(1)]
    by (auto simp: send_heartbeat_if_required_def frame_control [OF mid] split: if_splits)
  show ?thesis
    using rest midway_terminate [OF mid1] midway_flush midway_tick_channels [OF mid1]
    by (metis (full_types))
qed

text \<open>A datagram on time is on time for the flows.\<close>

lemma with_check_inject:
  assumes "with_check p b = with_check p b'" and "unat (crc_length p) \<le> 4"
  shows "b = b'"
proof -
  have "length b = length b'"
    using arg_cong [OF assms(1), of length] with_check_parts(1) [OF assms(2)] by simp
  then show ?thesis using assms(1) by (simp add: with_check_def)
qed

lemma packet_datagram_inject:
  assumes "packet_datagram p ch (packet_wire P i) = packet_datagram p ch (packet_wire P j)"
    and "unat (crc_length p) \<le> 4" and "ch < RELIABLE_CHANNEL_COUNT"
  shows "packet_wire P i = packet_wire P j"
proof -
  let ?a = "packet_wire P i" and ?b = "packet_wire P j"
  have ops: "has_channels (or_op_code (packet_wire P k))" for k
    by (simp add: packet_wire_def has_channels_def)
  have body: "contextual_body p (op_as_u16 (or_op_code ?a) + of_nat ch) (or_payload ?a) =
      contextual_body p (op_as_u16 (or_op_code ?b) + of_nat ch) (or_payload ?b)"
    using with_check_inject [OF _ assms(2)] assms(1)
    by (auto simp: packet_datagram_def contextual_datagram_def)
  have raw: "op_as_u16 (or_op_code ?a) + of_nat ch = (op_as_u16 (or_op_code ?b) + of_nat ch :: u16)"
    using contextual_body_parts(4) [of p _ _ "[]"] body by metis
  then have "or_op_code ?a = or_op_code ?b"
    using op_of_channel [OF ops assms(3)] by (metis option.inject)
  moreover have "or_payload ?a = or_payload ?b"
    using body raw by (simp add: contextual_body_def)
  ultimately show ?thesis by simp
qed

lemma timely_new:
  "receives s ch i \<Longrightarrow> timely i = timely (receive_channel s ch)"
  by (auto simp: receives_def receive_channel_def fun_eq_iff timely_def input_new_def max_queued_def
      split: option.splits)

lemma prompt_new:
  "receives s ch i \<Longrightarrow> prompt o' m i = prompt o' m (receive_channel s ch)"
  by (auto simp: receives_def receive_channel_def prompt_def input_new_def max_queued_def
      split: option.splits)

lemma midway_datagram:
  assumes rel: "pair_rel e peer F G" and dg: "(dg, m) \<in> ep_net peer" and time: "on_time peer e dg m"
    and p: "process_incoming inflate (ep_session e) dg now = Some s'"
  shows "\<exists>F' G'. midway (ep_sent e) e peer s' F' G'"
proof -
  let ?s = "ep_session e" and ?r = "ep_session peer"
  let ?p = "ss_params ?r" and ?oc = "send_config (ss_params ?r)"
  obtain G' where mid: "midway (ep_sent e) e peer ?s F G'"
    and same: "\<And>ch. fl_in (G' ch) = fl_in (G ch)" "\<And>ch. fl_net (G' ch) = fl_net (G ch)"
      "\<And>ch. fl_sent (G' ch) = fl_sent (G ch)"
    using midway_begin [OF rel] by blast
  have known: "known ?p G' F (dg, m)" using mid dg by (auto simp: midway_def)
  have crc: "unat (crc_length ?p) \<le> 4"
    using midway_matched [OF mid] unfolding matched_def same_wire_def by metis
  have packets: "flow_packets ?oc (ss_cipher ?s) (G' ch) = endpoint_packets peer ch"
    if "ch < RELIABLE_CHANNEL_COUNT" for ch
    using mid that midway_flows(7) [OF mid that]
    by (simp add: midway_def flows_def flow_packets_def endpoint_packets_def)
  show ?thesis
  proof (rule midway_process [OF mid known _ _ p])
    fix ch pkt
    assume ch: "ch < RELIABLE_CHANNEL_COUNT" and pkt: "pkt \<in> fl_net (G' ch)"
      and dg_is: "dg = packet_datagram ?p ch pkt"
    let ?P = "endpoint_packets peer ch"
    have "flow_reach ?oc (input_channel_config (ss_params ?s)) (ss_cipher ?r) (G' ch)"
      using mid ch by (simp add: midway_def flows_def)
    from flow_reach_inv [OF this matched_config] midway_matched [OF mid]
    have "flow_inv ?oc (input_channel_config (ss_params ?s)) (ss_cipher ?s) (G' ch)"
      using midway_flows(7) [OF mid ch] matched_sym by metis
    then obtain i where i: "i < length ?P" "pkt = packet_wire ?P i"
      using pkt by (auto simp: flow_inv_def link_inv_defs packets [OF ch])
    then obtain j where j: "j < length ?P" "dg = packet_datagram ?p ch (packet_wire ?P j)"
      "timely (receive_channel ?s ch) j"
      using time ch dg_is unfolding on_time_def Let_def by blast
    have "pkt = packet_wire ?P j"
      using packet_datagram_inject [OF _ crc ch, of ?P i j] j(2) dg_is i(2) by simp
    moreover have "timely (fl_in (G' ch)) j"
      using j(3) timely_new [OF midway_flows(2) [OF mid ch]] by simp
    ultimately show "\<exists>j<length (flow_packets ?oc (ss_cipher ?s) (G' ch)).
        pkt = packet_wire (flow_packets ?oc (ss_cipher ?s) (G' ch)) j \<and> timely (fl_in (G' ch)) j"
      using j(1) packets [OF ch] by auto
  next
    fix ch r
    assume ch: "ch < RELIABLE_CHANNEL_COUNT" and r: "(r, m ch) \<in> fl_acks (F ch)"
      and dg_is: "dg = ack_datagram ?p ch r"
    have "oc_op_code r \<in> {Acknowledge, AcknowledgeAll}" using ack_ops [OF mid ch r] by blast
    then have "prompt (send_channel ?s ch) (m ch) (receive_channel ?r ch)"
      using time ch dg_is unfolding on_time_def Let_def by blast
    then show "prompt (fl_out (F ch)) (m ch) (fl_in (F ch))"
      using midway_flows(1,4) [OF mid ch] prompt_new by metis
  qed
qed

lemma endpoint_step_rel:
  assumes step: "endpoint_step inflate peer e e'" and rel: "pair_rel e peer F G"
  shows "\<exists>F' G'. pair_rel e' peer F' G'"
proof -
  let ?s = "ep_session e"
  have q: "quiet ?s" and len: "slots ?s = RELIABLE_CHANNEL_COUNT" and settled: "settled (ep_session peer)"
    using rel by (simp_all add: pair_rel_def settled_def matched_def)
  obtain G0 where mid: "midway (ep_sent e) e peer ?s F G0" using midway_begin [OF rel] by blast
  from step show ?thesis
  proof (cases rule: endpoint_step.cases)
    case (enqueue data channel ok s')
    then obtain F' where "midway (sent_after ?s data channel (ep_sent e)) e peer s' F' G0"
      using midway_enqueue_on [OF mid] by blast
    moreover have "quiet s'" using q enqueue_inputs [OF enqueue(2)] by (simp add: quiet_def)
    ultimately show ?thesis using midway_settle settled enqueue(1) by blast
  next
    case (tick now s')
    then show ?thesis
      using midway_tick [OF mid tick(2)] tick_quiet [OF tick(2) len q] midway_settle settled by blast
  next
    case (close reason note_remote now s')
    note t = close(2) [unfolded terminate_def]
    show ?thesis
      using midway_terminate [OF mid t] terminate_quiet [OF t len] q midway_settle settled close(1) by blast
  next
    case (datagram dg m now s')
    then show ?thesis
      using midway_datagram [OF rel datagram(2,3,4)] process_quiet [OF datagram(4) len q]
        midway_settle settled by blast
  qed
qed

lemma pair_rel_start:
  assumes "negotiated s r"
  shows "\<exists>F G. pair_rel (fresh_endpoint s) (fresh_endpoint r) F G"
proof -
  let ?F = "\<lambda>s r. \<lambda>ch :: nat. flow_new (send_config (ss_params s)) (input_channel_config (ss_params r)) (ss_cipher s)"
  have flows: "flows (drain s) (drain r) (\<lambda>_. []) [] (?F s r)"
    if "no_channels s" "no_channels r" "ss_cipher s = ss_cipher r" for s r
    using that
    by (auto simp: flows_def send_channel_def receives_def flow_new_def drain_def no_channels_def
        intro: flow_reach.start [unfolded flow_new_def])
  have quiet: "settled (drain s)" if "no_channels s" for s
    using that by (simp add: settled_def quiet_def drain_def no_channels_def)
  have "matched (drain s) (drain r)"
    using assms by (simp add: negotiated_def matched_def drain_def no_channels_def)
  then have "pair_rel (fresh_endpoint s) (fresh_endpoint r) (?F s r) (?F r s)"
    using assms flows [of s r] flows [of r s] quiet
    unfolding pair_rel_def fresh_endpoint_def negotiated_def by simp
  then show ?thesis by blast
qed

lemma pair_reach_rel:
  assumes "pair_reach inflate s r x"
  shows "\<exists>F G. pair_rel (fst x) (snd x) F G"
  using assms
proof (induction rule: pair_reach.induct)
  case start
  then show ?case using pair_rel_start by simp
next
  case (step x y)
  then obtain F G where rel: "pair_rel (fst x) (snd x) F G" by blast
  from step(2) show ?case
  proof (cases rule: pair_step.cases)
    case (left b a a')
    with endpoint_step_rel [OF left(3)] rel show ?thesis by auto
  next
    case (right a b b')
    with endpoint_step_rel [OF right(3)] rel pair_rel_sym show ?thesis
      by (metis fst_conv snd_conv)
  qed
qed

end
