(* ===== verification/Soe_Session_Plain.thy ===== *)
theory Soe_Session_Plain
  imports Soe_Session_Wire
begin

text \<open>
  Running sessions without check values and compression, of which only reliable channel 0 is used:
  their operations in closed form. They serve concrete runs; a first use shows that a promoted
  message does not respect the datagram size of the peer.
\<close>

section \<open>Plain sessions\<close>

definition bare :: "session_parameters \<Rightarrow> bool" where
  "bare p \<longleftrightarrow> crc_length p = 0 \<and> \<not> is_compression_enabled p"

definition plain :: "session_parameters \<Rightarrow> SessionMode \<Rightarrow> input_channel option \<Rightarrow>
    output_channel option \<Rightarrow> instant \<Rightarrow> bytes list \<Rightarrow> received_data list \<Rightarrow> session" where
  "plain p m i o' t dgs ds = (session_new m p None 0 t)\<lparr>ss_state := Running,
     ss_inputs := [i, None, None, None], ss_outputs := [o', None, None, None],
     ss_outgoing := dgs, ss_received := ds\<rparr>"

lemma plain_simps [simp]:
  "ss_state (plain p m i o' t dgs ds) = Running" "ss_params (plain p m i o' t dgs ds) = p"
  "ss_inputs (plain p m i o' t dgs ds) = [i, None, None, None]"
  "ss_outputs (plain p m i o' t dgs ds) = [o', None, None, None]"
  "ss_mode (plain p m i o' t dgs ds) = m" "ss_cipher (plain p m i o' t dgs ds) = None"
  "last_received (plain p m i o' t dgs ds) = t" "ss_outgoing (plain p m i o' t dgs ds) = dgs"
  "ss_received (plain p m i o' t dgs ds) = ds"
  "set_input 0 x (plain p m i o' t dgs ds) = plain p m (Some x) o' t dgs ds"
  "set_output 0 y (plain p m i o' t dgs ds) = plain p m i (Some y) t dgs ds"
  "push_outgoing dg (plain p m i o' t dgs ds) = plain p m i o' t (dgs @ [dg]) ds"
  "push_received d ch (plain p m i o' t dgs ds) =
     plain p m i o' t dgs (ds @ [\<lparr>rc_data = d, rc_channel = ch\<rparr>])"
  "drain (plain p m i o' t dgs ds) = plain p m i o' t [] []"
  "refreshed (plain p m i o' t dgs ds) now = plain p m i o' now dgs ds"
  "tick_channels now (plain p m i o' t dgs ds) =
     plain p m (map_option (\<lambda>x. input_run_tick x now) i)
       (map_option (\<lambda>x. output_run_tick x now) o') t dgs ds"
  by (simp_all add: plain_def session_new_def push_defs drain_def refreshed_def open_pending_def
      tick_channels_def)

lemma push_frames_plain:
  "bare p \<Longrightarrow> push_frames fs (plain p m i o' t dgs ds) =
     Some (plain p m i o' t (dgs @ map (\<lambda>f. be16 (fst f) @ snd f) fs) ds)"
  by (induction fs arbitrary: dgs)
    (simp_all add: bare_def frame_contextual_raw_eq contextual_body_def with_check_def check_value_def)

lemma push_app_data_plain:
  "push_app_data 0 xs (plain p m i o' t dgs ds) =
     plain p m i o' t dgs (ds @ map (\<lambda>d. \<lparr>rc_data = d, rc_channel = Reliable 0\<rparr>) xs)"
  by (induction xs arbitrary: ds) simp_all

lemma flush_plain:
  "bare p \<Longrightarrow> flush_channels (plain p m i o' t dgs ds) = Some (plain p m
     (map_option (\<lambda>x. x\<lparr>in_outgoing := [], app_data := []\<rparr>) i)
     (map_option (\<lambda>x. x\<lparr>out_outgoing := []\<rparr>) o') t
     (dgs @ (case i of None \<Rightarrow> [] | Some x \<Rightarrow>
         map (\<lambda>a. be16 (op_as_u16 (oc_op_code a)) @ be16 (oc_sequence a)) (in_outgoing x)) @
       (case o' of None \<Rightarrow> [] | Some x \<Rightarrow>
         map (\<lambda>p. be16 (op_as_u16 (or_op_code p)) @ or_payload p) (out_outgoing x)))
     (ds @ (case i of None \<Rightarrow> [] | Some x \<Rightarrow>
         map (\<lambda>d. \<lparr>rc_data = d, rc_channel = Reliable 0\<rparr>) (app_data x))))"
  by (cases i; cases o')
    (simp_all add: flush_channels_def upt_conv_Cons RELIABLE_CHANNEL_COUNT_def flush_channel_def
      flush_acks_def flush_packets_def flush_app_data_def output_take_outgoing_def
      input_take_outgoing_def take_app_data_def push_frames_plain push_app_data_plain o_def)

lemma plain_process:
  assumes "bare p" and "op_from_u16 (of_be16 0 b) = Some op" and "\<not> is_contextless op"
    and "reliable_channel (of_be16 0 b) = 0" and "packet_minimum_length op False 0 \<le> 2 + length body"
  shows "process_incoming inflate (plain p m i o' t [] []) (0 # b # body) now =
    Option.bind (handle_contextual_inner (plain p m i o' now [] []) op 0 body now) flush_channels"
  using assms unfolding bare_def
  by (simp add: process_valid [of _ _ op] validate_packet_def OP_CODE_SIZE_def datagram_channel_def
      valid_body_def handle_contextual_def)

section \<open>Promoted messages\<close>

text \<open>C40: A message promoted to reliable channel 0 because its datagram would be too large for the
  peer leaves with the next tick in one datagram that is too large for the peer as well: the
  fragmentation of a reliable channel goes by the session's own datagram size.\<close>

theorem promoted_data_exceeds_remote:
  assumes "crc_length p = 0" and "\<not> is_compression_enabled p" and "13 \<le> unat (udp_length p)"
    and "0 < max_queued_outgoing_reliable p"
    and "unat (remote_udp_length p) < length data" and "length data + 4 \<le> unat (udp_length p)"
  shows "\<exists>s1 s2 dg. enqueue_data_on ((session_new mode p None 0 t)\<lparr>ss_state := Running\<rparr>) data Unreliable =
      Some (True, s1) \<and>
    session_run_tick s1 t = Some s2 \<and> ss_outgoing s2 = [dg] \<and>
    dg = be16 (op_as_u16 ReliableData) @ be16 0 @ data \<and> unat (remote_udp_length p) < length dg"
proof -
  define new where "new = output_new \<lparr>max_data_length = unat (udp_length p) - 2,
    max_queued_outgoing = unat (max_queued_outgoing_reliable p), ack_wait = DEFAULT_ACK_WAIT\<rparr> None t"
  define queued where "queued = append_packets [(False, data)] new"
  let ?s = "plain p mode None None t [] []" and ?pkt = "\<lparr>or_op_code = ReliableData, or_payload = be16 0 @ data\<rparr>"
  have bare: "bare p" using assms(1,2) by (simp add: bare_def)
  have start: "(session_new mode p None 0 t)\<lparr>ss_state := Running\<rparr> = ?s"
    by (simp add: plain_def session_new_def RELIABLE_CHANNEL_COUNT_def numeral_eq_Suc)
  have "session_output_channel ?s 0 t = Some new"
    using assms(1-3) by (simp add: session_output_channel_def session_max_data_length_def usize_sub_def
        OP_CODE_SIZE_def new_def output_new_def)
  moreover have data: "data \<noteq> []" using assms(5) by auto
  have "enqueue_data new data = Some queued"
    unfolding queued_def using assms(3,6) data by (intro enqueue_short) (simp_all add: new_def output_new_def)
  ultimately have enqueue: "enqueue_data_on ?s data Unreliable = Some (True, plain p mode None (Some queued) t [] [])"
    using assms(5) data by (simp add: enqueue_data_on_def enqueue_reliable_def Let_def)
  have "out_outgoing (output_run_tick queued t) = [?pkt]"
    using assms(4) by (simp add: output_run_tick_def queued_def append_packets_def new_def output_new_def
        oldest_timed_out_def stash_entry_def dispatch_loop.simps dispatch_one_def Let_def wire_sequence_def
        unat_gt_0 word_gt_0)
  then have "session_run_tick (plain p mode None (Some queued) t [] []) t =
      Some (plain p mode None (Some (output_run_tick queued t\<lparr>out_outgoing := []\<rparr>)) t
        [be16 (op_as_u16 ReliableData) @ be16 0 @ data] [])"
    by (simp add: session_run_tick_def send_heartbeat_if_required_def flush_plain [OF bare])
  with enqueue start assms(5) show ?thesis by (simp add: be16_def)
qed

theorem promoted_data_exceeds_remote_witness:
  "let p = session_parameters_default\<lparr>crc_length := 0, remote_udp_length := 100\<rparr>; data = replicate 400 7 in
   \<exists>s1 s2 dg. enqueue_data_on ((session_new Client p None 0 0)\<lparr>ss_state := Running\<rparr>) data Unreliable =
      Some (True, s1) \<and>
    session_run_tick s1 0 = Some s2 \<and> ss_outgoing s2 = [dg] \<and>
    dg = be16 (op_as_u16 ReliableData) @ be16 0 @ data \<and> unat (remote_udp_length p) < length dg"
  unfolding Let_def
  by (rule promoted_data_exceeds_remote)
    (simp_all add: session_parameters_default_def DEFAULT_UDP_LENGTH_def)

end
