(* ===== verification/Soe_Pair_Demo.thy ===== *)
theory Soe_Pair_Demo
  imports Soe_Pair Soe_Session_Plain
begin

text \<open>
  A concrete run of a pair: a client enqueues a message on reliable channel 0, its tick sends the
  packet, the server delivers the message and acknowledges it, and the acknowledgement empties the
  send queue. The properties of \<open>Soe_Pair_Correct\<close> are instantiated here.
\<close>

section \<open>The sessions\<close>

text \<open>Two running sessions without check values, of which only channel 0 is used.\<close>

definition demo_params :: session_parameters where
  "demo_params = session_parameters_default\<lparr>crc_length := 0, sp_acknowledge_all_data := True\<rparr>"

lemma demo_params_simps [simp]: 
  "crc_length demo_params = 0" "is_compression_enabled demo_params = False" "sp_acknowledge_all_data demo_params = True"
  "udp_length demo_params = 512" "remote_udp_length demo_params = 512" "heartbeat_after demo_params = DEFAULT_SESSION_HEARTBEAT_AFTER"
  "inactivity_timeout demo_params = DEFAULT_SESSION_INACTIVITY_TIMEOUT"
  "max_queued_outgoing_reliable demo_params = 196" "max_queued_incoming_reliable demo_params = 256"
  by (simp_all add: demo_params_def session_parameters_default_def DEFAULT_UDP_LENGTH_def)

lemma demo_bare [simp]: "bare demo_params"
  by (simp add: bare_def)

lemma demo_config: "send_config demo_params = \<lparr>max_data_length = 510, max_queued_outgoing = 196, ack_wait = DEFAULT_ACK_WAIT\<rparr>"
  by (simp add: send_config_def session_max_data_length_def OP_CODE_SIZE_def usize_sub_def)

text \<open>The send channel with the message queued, dispatched and acknowledged.\<close>

definition demo_queued :: output_channel where
  "demo_queued = append_packets [(False, [7, 8])] (output_new (send_config demo_params) None 0)"

definition demo_sent :: output_channel where
  "demo_sent = demo_queued\<lparr>dispatch_queue := [(0, \<lparr>is_fragment = False, packet_data = [0, 0, 7, 8],
     sent = True, sent_at = Some 5, resent = False\<rparr>)], current_dispatch_index := 1,
     out_stats := (out_stats demo_queued)\<lparr>total_sent := 1\<rparr>\<rparr>"

lemma demo_enqueue: "enqueue_data_on (plain demo_params Client None None 0 [] []) [7, 8] (Reliable 0) =
  Some (True, plain demo_params Client None (Some demo_queued) 0 [] [])"
proof -
  let ?new = "output_new (send_config demo_params) None 0"
  have "enqueue_data ?new [7, 8] = Some demo_queued" unfolding demo_queued_def
    by (rule enqueue_short) (simp_all add: demo_config output_new_def)
  moreover have "session_output_channel (plain demo_params Client None None 0 [] []) 0 0 = Some ?new"
    by (simp add: session_output_channel_def session_max_data_length_def OP_CODE_SIZE_def
        usize_sub_def demo_config output_new_def)
  ultimately show ?thesis by (simp add: enqueue_data_on_def RELIABLE_CHANNEL_COUNT_def enqueue_reliable_def)
qed

lemma demo_dispatch: "output_run_tick demo_queued 5 =
  demo_sent\<lparr>out_outgoing := [\<lparr>or_op_code = ReliableData, or_payload = [0, 0, 7, 8]\<rparr>]\<rparr>"
  by (simp add: demo_sent_def output_run_tick_def demo_queued_def append_packets_def output_new_def
      oldest_timed_out_def stash_entry_def demo_config dispatch_loop.simps dispatch_one_def Let_def
      be16_def wire_sequence_def output_stats_default_def)

lemma demo_quiet_out: "demo_sent\<lparr>out_outgoing := []\<rparr> = demo_sent"
  by (simp add: demo_sent_def demo_queued_def append_packets_def output_new_def)

lemma demo_tick: "session_run_tick (plain demo_params Client None (Some demo_queued) 0 [] []) 5 =
  Some (plain demo_params Client None (Some demo_sent) 0 [[0, 9, 0, 0, 7, 8]] [])"
  by (simp add: session_run_tick_def send_heartbeat_if_required_def flush_plain demo_dispatch
      demo_quiet_out DEFAULT_SESSION_HEARTBEAT_AFTER_def DEFAULT_SESSION_INACTIVITY_TIMEOUT_def
      from_secs_def be16_def op_as_u16_def)

definition demo_received :: input_channel where
  "demo_received = (input_new (input_channel_config demo_params) None 6)\<lparr>window_start_sequence := 1,
     in_stats := \<lparr>total_received = 1, duplicate_count = 0, out_of_order_count = 0,
       total_received_bytes = 2, acknowledge_count = 0\<rparr>\<rparr>"

lemma demo_receive: "handle_reliable_data (input_new (input_channel_config demo_params) None 6) [0, 0, 7, 8] 6 =
  Some (demo_received\<lparr>in_outgoing := [\<lparr>oc_op_code = Acknowledge, oc_sequence = 0\<rparr>], app_data := [[7, 8]]\<rparr>,
    Inr ())"
  by (simp add: handle_reliable_data_def preprocess_def input_new_def count_received_def
      is_valid_reliable_data_def Let_def of_be16_def max_queued_def input_channel_config_def emit_def
      process_data_def MULTI_DATA_INDICATOR_def decrypt_and_handle_def true_incoming_sequence_def
      input_stats_default_def consume_stashed.simps stash_spot_def index_def demo_received_def)

lemma demo_quiet_in: "demo_received\<lparr>in_outgoing := [], app_data := []\<rparr> = demo_received"
  by (simp add: demo_received_def input_new_def)

lemma demo_deliver: "process_incoming inflate (plain demo_params Server None None 0 [] []) [0, 9, 0, 0, 7, 8] 6 =
  Some (plain demo_params Server (Some demo_received) None 6 [[0, 0x11, 0, 0]] [\<lparr>rc_data = [7, 8], rc_channel = Reliable 0\<rparr>])"
proof -
  have "op_from_u16 (of_be16 0 9) = Some ReliableData" "reliable_channel (of_be16 0 9) = 0" 
    by (simp_all add: of_be16_def op_from_u16_def reliable_channel_def)
  then show ?thesis
    by (simp add: plain_process contextual_padding_def OP_CODE_SIZE_def handle_contextual_inner.simps handle_reliable_def
      session_input_channel_def demo_receive flush_plain demo_quiet_in be16_def op_as_u16_def)
qed

definition demo_acked :: output_channel where
  "demo_acked = notify_of_acknowledge demo_sent 0 7"

lemma demo_sent_ok: "output_ok demo_sent"
proof -
  have "output_ok (output_new (send_config demo_params) None 0)" by (rule output_ok_new)
  moreover have "enqueue_data (output_new (send_config demo_params) None 0) [7, 8] = Some demo_queued"
    unfolding demo_queued_def by (rule enqueue_short) (simp_all add: demo_config output_new_def)
  ultimately have "output_ok demo_queued"
    using output_ok_enqueue [of "output_new (send_config demo_params) None 0" "[7, 8]"]
    by (simp add: demo_config output_new_def)
  then have "output_ok (output_run_tick demo_queued 5)" using output_ok_run_tick by blast
  then show ?thesis using output_ok_drain [of "output_run_tick demo_queued 5"]
    by (simp add: demo_dispatch output_take_outgoing_def demo_quiet_out)
qed

lemma demo_acked_queue: "dispatch_queue demo_acked = []" "demo_acked\<lparr>out_outgoing := []\<rparr> = demo_acked"
  "out_outgoing demo_acked = []"
proof -
  have "true_incoming demo_sent 0 = 0"
    by (simp add: true_incoming_def true_incoming_sequence_def demo_sent_def demo_queued_def
      append_packets_def output_new_def)
  then show "dispatch_queue demo_acked = []"
    using ack_queue [OF demo_sent_ok, of 0 7] by (simp add: demo_acked_def) (simp add: demo_sent_def)
  have "out_outgoing (notify_of_acknowledge ch sq now) = out_outgoing ch" for ch sq now
    by (simp add: notify_of_acknowledge_def Let_def raise_max_client_def count_incoming_def count_actual_def
        update_rto_def split: option.split)
  then show "out_outgoing demo_acked = []"
    unfolding demo_acked_def by (simp add: demo_sent_def demo_queued_def append_packets_def output_new_def)
  then show "demo_acked\<lparr>out_outgoing := []\<rparr> = demo_acked" by simp
qed

lemma demo_ack: "process_incoming inflate (plain demo_params Client None (Some demo_sent) 0 [] []) [0, 0x11, 0, 0] 7 =
    Some (plain demo_params Client None (Some demo_acked) 7 [] [])"
proof -
  have "op_from_u16 (of_be16 0 0x11) = Some Acknowledge" "reliable_channel (of_be16 0 0x11) = 0"
    by (simp_all add: of_be16_def op_from_u16_def reliable_channel_def)
  moreover have "acknowledge_deserialize [0, 0] = Inr \<lparr>ack_sequence = 0\<rparr>"
    using ack.deser_bytes [of "\<lparr>ack_sequence = 0\<rparr>" "[]"] by (simp add: be16_def)
  ultimately show ?thesis
    by (simp add: plain_process contextual_padding_def size_defs handle_contextual_inner.simps
        handle_acknowledge_def session_output_channel_def flush_plain demo_acked_def [symmetric] demo_acked_queue)
qed

text \<open>The run.\<close>

definition demo_sending :: "output_channel option \<Rightarrow> instant \<Rightarrow> (bytes \<times> (nat \<Rightarrow> int)) set \<Rightarrow>
    (nat \<Rightarrow> bytes list) \<Rightarrow> endpoint" where
  "demo_sending o' t net sent' = \<lparr>ep_session = plain demo_params Client None o' t [] [], ep_net = net,
     ep_sent = sent', ep_got = []\<rparr>"

definition demo_end :: "input_channel option \<Rightarrow> instant \<Rightarrow> (bytes \<times> (nat \<Rightarrow> int)) set \<Rightarrow>
    received_data list \<Rightarrow> endpoint" where
  "demo_end i t net ds = \<lparr>ep_session = plain demo_params Server i None t [] [], ep_net = net,
     ep_sent = (\<lambda>_. []), ep_got = ds\<rparr>"

definition demo_marks :: "nat \<Rightarrow> int" where
  "demo_marks ch = (case [None, None, None, None] ! ch of None \<Rightarrow> 0 | Some (i :: input_channel) \<Rightarrow> window_start_sequence i)"

lemma demo_window_marks [simp]: "window_marks (plain demo_params m None o' t dgs ds) = demo_marks"
  by (simp add: fun_eq_iff window_marks_def demo_marks_def)

abbreviation "demo_message \<equiv> (\<lambda>_. [])(0 := [[7, 8]]) :: nat \<Rightarrow> bytes list"
abbreviation "demo_data \<equiv> {([0, 9, 0, 0, 7, 8], demo_marks)} :: (bytes \<times> (nat \<Rightarrow> int)) set"
abbreviation "demo_reply \<equiv> {([0, 0x11, 0, 0], demo_marks)} :: (bytes \<times> (nat \<Rightarrow> int)) set"
abbreviation "demo_delivered \<equiv> [\<lparr>rc_data = [7, 8], rc_channel = Reliable 0\<rparr>]"

abbreviation "demo_sender \<equiv> demo_sending (Some demo_sent) 0 demo_data demo_message"
abbreviation "demo_receiver \<equiv> demo_end (Some demo_received) 6 demo_reply demo_delivered"
abbreviation "demo_done \<equiv> demo_sending (Some demo_acked) 7 demo_data demo_message"

lemmas demo_ends = demo_sending_def demo_end_def

lemma four_channels: "replicate RELIABLE_CHANNEL_COUNT x = [x, x, x, x]"
  by (simp add: RELIABLE_CHANNEL_COUNT_def numeral_eq_Suc)

lemma demo_negotiated: "negotiated (plain demo_params Client None None 0 [] []) (plain demo_params Server None None 0 [] [])"
  by (simp add: negotiated_def no_channels_def same_wire_def pair_params_def room_ok_def
      four_channels)

lemma demo_start: "pair_reach inflate (plain demo_params Client None None 0 [] []) (plain demo_params Server None None 0 [] [])
    (demo_sending None 0 {} (\<lambda>_. []), demo_end None 0 {} [])"
  using pair_reach.start [OF demo_negotiated] by (simp add: fresh_endpoint_def demo_ends)

lemma demo_step1: "endpoint_step inflate p (demo_sending None 0 {} (\<lambda>_. []))
    (demo_sending (Some demo_queued) 0 {} demo_message)"
proof -
  let ?e = "demo_sending None 0 {} (\<lambda>_. [])"
  have "endpoint_step inflate p ?e (settle ?e (plain demo_params Client None (Some demo_queued) 0 [] [])
      (sent_after (ep_session ?e) [7, 8] (Reliable 0) (ep_sent ?e)))"
    by (rule endpoint_step.enqueue) (simp_all add: demo_sending_def demo_enqueue message_ok_def)
  then show ?thesis
    by (simp add: demo_sending_def settle_def sent_after_def reliable_target_def RELIABLE_CHANNEL_COUNT_def)
qed

lemma demo_step2: "endpoint_step inflate p (demo_sending (Some demo_queued) 0 {} demo_message)
    (demo_sender)"
proof -
  let ?e = "demo_sending (Some demo_queued) 0 {} demo_message"
  have "endpoint_step inflate p ?e (settle ?e (plain demo_params Client None (Some demo_sent) 0 [[0, 9, 0, 0, 7, 8]] []) (ep_sent ?e))"
    by (rule endpoint_step.tick [of _ 5]) (simp add: demo_sending_def demo_tick)
  then show ?thesis by (simp add: demo_sending_def settle_def)
qed

lemma demo_datagram: "contextual_datagram demo_params op ch payload = be16 (op_as_u16 op + of_nat ch) @ payload"
  by (simp add: contextual_datagram_def with_check_def check_value_def contextual_body_def)

lemma demo_packets: "endpoint_packets (demo_sending o' t net demo_message) ch =
    (if ch = 0 then [(False, [7, 8])] else [])"
  by (simp add: endpoint_packets_def demo_sending_def demo_config seal_def packets_of_def)

lemma demo_on_time: "on_time (demo_sender) (demo_end None 0 {} [])
    [0, 9, 0, 0, 7, 8] m"
  unfolding on_time_def Let_def
proof (intro allI impI conjI)
  fix ch i assume "i < length (endpoint_packets (demo_sender) ch)"
    and dg: "[0, 9, 0, 0, 7, 8] = packet_datagram (ss_params (ep_session (demo_sender))) ch
        (packet_wire (endpoint_packets (demo_sender) ch) i)"
  then have "ch = 0" "i = 0" by (simp_all add: demo_packets split: if_splits)
  with dg show "\<exists>j<length (endpoint_packets (demo_sender) ch).
       [0, 9, 0, 0, 7, 8] = packet_datagram (ss_params (ep_session (demo_sender))) ch
        (packet_wire (endpoint_packets (demo_sender) ch) j) \<and>
       timely (receive_channel (ep_session (demo_end None 0 {} [])) ch) j"
    by (intro exI [of _ 0]) (simp add: demo_packets timely_def receive_channel_def demo_end_def input_new_def max_queued_def
      input_channel_config_def)
next
  fix ch r
  assume "[0, 9, 0, 0, 7, 8] = ack_datagram (ss_params (ep_session (demo_sender))) ch r"
  from arg_cong [OF this, of length]
  show "prompt (send_channel (ep_session (demo_end None 0 {} [])) ch) (m ch)
      (receive_channel (ep_session (demo_sender)) ch)"
    by (simp add: ack_datagram_def demo_sending_def demo_datagram be16_def)
qed

lemma demo_step3: "endpoint_step inflate (demo_sender)
    (demo_end None 0 {} []) (demo_receiver)"
proof -
  let ?p = "demo_sender" and ?e = "demo_end None 0 {} []"
  have "endpoint_step inflate ?p ?e (settle ?e (plain demo_params Server (Some demo_received) None 6 [[0, 0x11, 0, 0]] demo_delivered)
      (ep_sent ?e))"
    by (rule endpoint_step.datagram [where now = 6, OF _ demo_on_time, of demo_marks])
      (simp_all add: demo_deliver demo_ends)
  then show ?thesis by (simp add: demo_end_def settle_def)
qed

lemma demo_prompt: "ch < RELIABLE_CHANNEL_COUNT \<Longrightarrow>
  prompt (send_channel (ep_session (demo_sender)) ch) (demo_marks ch)
    (receive_channel (ep_session (demo_receiver)) ch)"
proof -
  assume "ch < RELIABLE_CHANNEL_COUNT"
  then have "ch = 0 \<or> ch = 1 \<or> ch = 2 \<or> ch = 3" by (auto simp: RELIABLE_CHANNEL_COUNT_def)
  then show ?thesis
    by (auto simp: prompt_def send_channel_def receive_channel_def demo_ends demo_marks_def demo_sent_def demo_queued_def
      append_packets_def output_new_def demo_config demo_received_def input_new_def max_queued_def input_channel_config_def)
qed

lemma demo_on_time2: "on_time (demo_receiver)
    (demo_sender) [0, 0x11, 0, 0] demo_marks"
  unfolding on_time_def Let_def using demo_prompt
  by (simp add: endpoint_packets_def demo_end_def)

lemma demo_step4: "endpoint_step inflate (demo_receiver)
    (demo_sender) (demo_done)"
proof -
  let ?e = "demo_sender" and ?p = "demo_receiver"
  have "endpoint_step inflate ?p ?e (settle ?e (plain demo_params Client None (Some demo_acked) 7 [] []) (ep_sent ?e))"
    by (rule endpoint_step.datagram [where now = 7, OF _ demo_on_time2])
      (simp_all add: demo_ack demo_ends)
  then show ?thesis by (simp add: demo_sending_def settle_def)
qed

lemma demo_run: "pair_reach inflate (plain demo_params Client None None 0 [] []) (plain demo_params Server None None 0 [] [])
    (demo_done, demo_receiver)"
proof -
  note go = pair_reach.step
  note sent = go [OF go [OF demo_start pair_step.left [OF demo_step1]] pair_step.left [OF demo_step2]]
  show ?thesis
    by (rule go [OF go [OF sent pair_step.right [OF demo_step3]] pair_step.left [OF demo_step4]])
qed

end
