(* ===== verification/Soe_Pair_Correct.thy ===== *)
theory Soe_Pair_Correct
  imports Soe_Pair_Run Soe_Pair_Demo
begin

text \<open>
  What two sessions that talk to each other guarantee: the data received on a reliable channel is a
  prefix of the data enqueued on it, all of it once the send queue is empty; no operation panics;
  no datagram is longer than the larger of the two datagram sizes.
\<close>

section \<open>The flows of a pair\<close>

lemma negotiated_sym: "negotiated s r \<Longrightarrow> negotiated r s"
  unfolding negotiated_def same_wire_def by metis

lemma pair_step_swap: "pair_step inflate x y \<Longrightarrow> pair_step inflate (prod.swap x) (prod.swap y)"
  by (induction rule: pair_step.induct) (simp_all add: pair_step.intros)

lemma pair_reach_swap: "pair_reach inflate s r x \<Longrightarrow> pair_reach inflate r s (prod.swap x)"
proof (induction rule: pair_reach.induct)
  case start
  then show ?case using pair_reach.start [OF negotiated_sym] by simp
next
  case (step x y)
  then show ?case using pair_reach.step pair_step_swap by blast
qed

lemma pair_reach_sym: "pair_reach inflate s r (a, b) \<Longrightarrow> pair_reach inflate r s (b, a)"
  using pair_reach_swap [of inflate s r "(a, b)"] by simp

lemma pair_flow:
  assumes "pair_reach inflate s r (a, b)" and "ch < RELIABLE_CHANNEL_COUNT"
  obtains f where
    "flow_reach (send_config (ss_params (ep_session a))) (input_channel_config (ss_params (ep_session b)))
       (ss_cipher (ep_session a)) f"
    and "flow_config (send_config (ss_params (ep_session a))) (input_channel_config (ss_params (ep_session b)))"
    and "fl_out f = send_channel (ep_session a) ch" and "receives (ep_session b) ch (fl_in f)"
    and "in_outgoing (fl_in f) = []" and "app_data (fl_in f) = []"
    and "fl_sent f = ep_sent a ch" and "fl_taken f = on_channel ch (ep_got b)"
proof -
  obtain F G where rel: "pair_rel a b F G" using pair_reach_rel [OF assms(1)] by auto
  then have matched: "matched (ep_session a) (ep_session b)" and quiet: "quiet (ep_session b)"
    by (simp_all add: pair_rel_def settled_def)
  have "ch < length (ss_inputs (ep_session b))" using matched assms(2) by (simp add: matched_def)
  moreover have "receives (ep_session b) ch (fl_in (F ch))"
    using rel assms(2) by (simp add: pair_rel_def flows_def)
  ultimately have "in_outgoing (fl_in (F ch)) = []" "app_data (fl_in (F ch)) = []"
    using receives_quiet quiet by blast+
  with that [of "F ch"] show ?thesis
    using rel assms(2) matched_config [OF matched] by (simp add: pair_rel_def flows_def)
qed

section \<open>No panic\<close>

lemma past_drain: "past (drain s) = past s"
  by (simp add: past_def) (simp add: drain_def)

lemma past_negotiated: "negotiated s r \<Longrightarrow> past (drain s)"
  by (simp add: past_drain) (simp add: negotiated_def past_def safe_def pair_params_def no_channels_def slots_ok_new)

lemma past_operation: "past s \<Longrightarrow> session_step inflate s e = Some s' \<Longrightarrow> past (drain s')"
  using step_past [of s inflate e] by (simp add: past_drain)

lemma endpoint_step_past:
  assumes "endpoint_step inflate peer e e'" and "past (ep_session e)"
  shows "past (ep_session e')"
  using assms(1)
proof (cases rule: endpoint_step.cases)
  case (enqueue data channel ok s')
  with past_operation [OF assms(2), of inflate "OpEnqueue data channel"] show ?thesis
    by (simp add: settle_def)
next
  case (tick now s')
  with past_operation [OF assms(2), of inflate "OpTick now"] show ?thesis by (simp add: settle_def)
next
  case (close reason note_remote now s')
  with past_operation [OF assms(2), of inflate "OpTerminate reason note_remote now"] show ?thesis
    by (simp add: settle_def)
next
  case (datagram dg m now s')
  with past_operation [OF assms(2), of inflate "OpDatagram dg now"] show ?thesis
    by (simp add: settle_def)
qed

lemma pair_reach_past:
  "pair_reach inflate s r x \<Longrightarrow> past (ep_session (fst x)) \<and> past (ep_session (snd x))"
proof (induction rule: pair_reach.induct)
  case start
  then show ?case
    using past_negotiated past_negotiated [OF negotiated_sym] by (simp add: fresh_endpoint_def)
next
  case (step x y)
  from step(2) step(3) show ?case
    by (cases rule: pair_step.cases) (auto intro: endpoint_step_past)
qed

section \<open>The size of datagrams\<close>

lemma stream_packets_sizes:
  "4 \<le> m \<Longrightarrow> p \<in> set (fst (stream_packets m c ds)) \<Longrightarrow> length (snd p) \<le> m"
  by (induction ds arbitrary: c) (auto simp: Let_def split_beta dest: packets_of_sizes split: if_splits)

lemma contextual_datagram_length:
  assumes "unat (crc_length p) \<le> 4"
  shows "length (contextual_datagram p op ch payload) =
    2 + (if is_compression_enabled p then 1 else 0) + length payload + unat (crc_length p)"
  using with_check_parts(1) [OF assms] by (simp add: contextual_datagram_def contextual_body_parts(1))

lemma max_data_length_fits:
  assumes "session_max_data_length p = Some n"
  shows "2 + (if is_compression_enabled p then 1 else 0) + n + unat (crc_length p) = unat (udp_length p)"
  using assms by (auto simp: session_max_data_length_def usize_sub_def OP_CODE_SIZE_def bind_eq_Some_iff
      split: if_splits)

lemma known_length:
  assumes rel: "pair_rel a b F G" and known: "known (ss_params (ep_session a)) F G d"
  shows "length (fst d) \<le> max (unat (udp_length (ss_params (ep_session a))))
    (unat (remote_udp_length (ss_params (ep_session a))))"
proof -
  let ?s = "ep_session a" and ?p = "ss_params (ep_session a)"
  let ?oc = "send_config ?p"
  have m: "matched ?s (ep_session b)" using rel by (simp add: pair_rel_def)
  then have room: "unat (crc_length ?p) \<le> 4" "13 \<le> unat (udp_length ?p)"
    by (simp_all add: matched_def pair_params_def room_ok_def)
  note fits = max_data_length_fits [OF matched_data_length(1) [OF m]] and len = contextual_datagram_length [OF room(1)]
  have small: "length (contextual_datagram ?p op ch payload) \<le> unat (udp_length ?p)"
    if "length payload \<le> 6" for op ch payload
    using that room by (simp add: len)
  obtain dg mk where d: "d = (dg, mk)" by (cases d)
  from known consider
      (packet) ch pkt where "ch < RELIABLE_CHANNEL_COUNT" "pkt \<in> fl_net (F ch)" "dg = packet_datagram ?p ch pkt"
    | (ack) ch r where "dg = ack_datagram ?p ch r"
    | (control) "dg = contextual_datagram ?p Heartbeat 0 [] \<or>
        (\<exists>d. dg = contextual_datagram ?p Disconnect 0 (disconnect_bytes d))"
    | (raw) "length dg \<le> unat (remote_udp_length ?p)"
    unfolding known_def d by auto
  then show ?thesis
  proof cases
    case packet
    have "flow_inv ?oc (input_channel_config (ss_params (ep_session b))) (ss_cipher ?s) (F ch)"
      using rel packet(1) matched_config [OF m] by (intro flow_reach_inv) (simp_all add: pair_rel_def flows_def)
    then obtain i where i: "i < length (flow_packets ?oc (ss_cipher ?s) (F ch))"
      "pkt = packet_wire (flow_packets ?oc (ss_cipher ?s) (F ch)) i"
      using packet(2) by (auto simp: flow_inv_def link_inv_defs)
    have "6 \<le> max_data_length ?oc" by (rule matched_data_length(2) [OF m])
    then have "length (or_payload pkt) \<le> max_data_length ?oc"
      using stream_packets_sizes [of "max_data_length ?oc - 2" _ "ss_cipher ?s" "fl_sent (F ch)"] nth_mem [OF i(1)]
      by (fastforce simp: i(2) packet_wire_def flow_packets_def be16_def)
    then show ?thesis using fits by (simp add: d packet(3) packet_datagram_def len)
  next
    case ack
    then show ?thesis using small [of "be16 (oc_sequence r)" "oc_op_code r" ch]
      by (simp add: d ack_datagram_def be16_def)
  next
    case control
    then show ?thesis using small [of "[]" Heartbeat 0] small [of "disconnect_bytes _" Disconnect 0]
      by (auto simp: d layout_sizes size_defs le_max_iff_disj)
  next
    case raw
    then show ?thesis by (simp add: d)
  qed
qed

section \<open>Delays\<close>

text \<open>No data packet is late while fewer than a block of sequences, less a receive window, has been
  sent on its channel.\<close>

lemma early_data_timely:
  assumes reach: "pair_reach inflate s r (a, b)" and ch: "ch < RELIABLE_CHANNEL_COUNT"
    and few: "int (length (endpoint_packets a ch)) +
      uint (max_queued_incoming_reliable (ss_params (ep_session b))) < 65536"
    and i: "i < length (endpoint_packets a ch)"
  shows "timely (receive_channel (ep_session b) ch) i"
proof -
  obtain f where f: "flow_reach (send_config (ss_params (ep_session a)))
      (input_channel_config (ss_params (ep_session b))) (ss_cipher (ep_session a)) f"
    "flow_config (send_config (ss_params (ep_session a))) (input_channel_config (ss_params (ep_session b)))"
    and r: "receives (ep_session b) ch (fl_in f)" and sent: "fl_sent f = ep_sent a ch"
    using pair_flow [OF reach ch] by metis
  have "flow_packets (send_config (ss_params (ep_session a))) (ss_cipher (ep_session a)) f =
      endpoint_packets a ch"
    by (simp add: flow_packets_def endpoint_packets_def sent)
  then have "window_start_sequence (fl_in f) \<le> int (length (endpoint_packets a ch))"
    and "0 \<le> window_start_sequence (fl_in f)"
    and "in_config (fl_in f) = input_channel_config (ss_params (ep_session b))"
    using flow_reach_inv [OF f] by (simp_all add: flow_inv_def link_inv_defs window_inv_def sized_def)
  moreover have "length (endpoint_packets a ch) < 65536"
    using few uint_ge_0 [of "max_queued_incoming_reliable (ss_params (ep_session b))"] by linarith
  ultimately show ?thesis
    unfolding timely_new [OF r, symmetric] using few i
    by (simp add: timely_def max_queued_def input_channel_config_def)
qed

section \<open>Properties\<close>

text \<open>C2: Every run of two sessions refines a flow for each reliable channel and direction: the
  send channel of one end and the receive channel of the other are those of a flow with the data
  enqueued and received so far. The steps of the run are the operations of the sessions, in any
  order, over a network that loses, repeats, delays and reorders datagrams, as long as no datagram
  is late (\<open>on_time\<close>: no data packet by a block of 65536 sequences, no acknowledgement by a send
  window) and what is enqueued on a reliable channel are messages (\<open>message_ok\<close>: shorter than
  \<open>2 ^ 32 - 1\<close> bytes, and without a cipher not starting with the bytes 00 19).\<close>

theorem pair_refines_flows:
  assumes "pair_reach inflate s r (a, b)" and "ch < RELIABLE_CHANNEL_COUNT"
  shows "\<exists>f. flow_reach (send_config (ss_params (ep_session a)))
      (input_channel_config (ss_params (ep_session b))) (ss_cipher (ep_session a)) f \<and>
    fl_out f = send_channel (ep_session a) ch \<and> receives (ep_session b) ch (fl_in f) \<and>
    fl_sent f = ep_sent a ch \<and> fl_taken f = on_channel ch (ep_got b)"
  using pair_flow [OF assms] by metis

theorem pair_refines_flows_witness:
  "\<exists>f. flow_reach (send_config demo_params) (input_channel_config demo_params) None f \<and>
    fl_out f = demo_acked \<and> fl_in f = demo_received \<and> fl_sent f = [[7, 8]] \<and> fl_taken f = [[7, 8]]"
  using pair_refines_flows [OF demo_run, of 0]
  by (simp add: RELIABLE_CHANNEL_COUNT_def demo_ends send_channel_def receives_def)

text \<open>C1: The data received on a reliable channel is a prefix of the data the peer enqueued on it,
  complete, in order and without duplicates, in both directions. In the run what is enqueued on a
  reliable channel are messages (\<open>message_ok\<close>: shorter than \<open>2 ^ 32 - 1\<close> bytes, and without a cipher not
  starting with the bytes 00 19), and no datagram is late (\<open>on_time\<close>: no data packet by a block of
  65536 sequences, no acknowledgement by a send window).\<close>

theorem pair_delivers_in_order:
  assumes "pair_reach inflate s r (a, b)" and "ch < RELIABLE_CHANNEL_COUNT"
  shows "prefix (on_channel ch (ep_got b)) (ep_sent a ch) \<and> prefix (on_channel ch (ep_got a)) (ep_sent b ch)"
proof -
  have "prefix (on_channel ch (ep_got y)) (ep_sent x ch)" if "pair_reach inflate s r (x, y)" for s r x y
    using pair_flow [OF that assms(2)] flow_prefix by (metis append_Nil2)
  then show ?thesis using assms(1) pair_reach_sym by blast
qed

theorem pair_delivers_in_order_witness:
  "prefix (on_channel 0 (ep_got demo_receiver)) (ep_sent demo_done 0) \<and>
   prefix (on_channel 0 (ep_got demo_done)) (ep_sent demo_receiver 0) \<and>
   on_channel 0 (ep_got demo_receiver) = [[7, 8]]"
  using pair_delivers_in_order [OF demo_run, of 0] by (simp add: RELIABLE_CHANNEL_COUNT_def demo_ends)

text \<open>C7: When the send queue of a reliable channel is empty, everything enqueued on it has been
  received: a packet leaves the queue only on an acknowledgement, and none is sent for a packet the
  receiver does not have. As before, the run enqueues messages (shorter than \<open>2 ^ 32 - 1\<close>
  bytes, and without a cipher not starting with the bytes 00 19), and no datagram in it is late (no
  data packet by a block of 65536 sequences, no acknowledgement by a send window).\<close>

theorem pair_delivers_everything:
  assumes "pair_reach inflate s r (a, b)" and "ch < RELIABLE_CHANNEL_COUNT"
    and "dispatch_queue (send_channel (ep_session a) ch) = []"
  shows "on_channel ch (ep_got b) = ep_sent a ch"
  using pair_flow [OF assms(1,2)] flow_complete assms(3) by (metis append_Nil2)

theorem pair_delivers_everything_witness:
  "on_channel 0 (ep_got demo_receiver) = ep_sent demo_done 0 \<and> ep_sent demo_done 0 = [[7, 8]]"
  using pair_delivers_everything [OF demo_run, of 0]
  by (simp add: RELIABLE_CHANNEL_COUNT_def demo_ends send_channel_def demo_acked_queue)

text \<open>C17: No datagram of a session in a pair is longer than the larger of its own and its peer's
  datagram size, in every run that enqueues messages (\<open>message_ok\<close>) and in which no datagram is
  late (\<open>on_time\<close>).\<close>

theorem pair_datagrams_bounded:
  assumes "pair_reach inflate s r (a, b)" and "(dg, m) \<in> ep_net a"
  shows "length dg \<le> max (unat (udp_length (ss_params (ep_session a))))
    (unat (remote_udp_length (ss_params (ep_session a))))"
proof -
  obtain F G where rel: "pair_rel a b F G" using pair_reach_rel [OF assms(1)] by auto
  then have "known (ss_params (ep_session a)) F G (dg, m)" using assms(2) by (simp add: pair_rel_def)
  from known_length [OF rel this] show ?thesis by simp
qed

theorem pair_datagrams_bounded_witness:
  "length [0, 9, 0, 0, 7, 8 :: u8] \<le> max (unat (udp_length demo_params)) (unat (remote_udp_length demo_params))"
  using pair_datagrams_bounded [OF demo_run, of "[0, 9, 0, 0, 7, 8]" demo_marks]
  by (simp add: demo_ends)

text \<open>The two sessions that a negotiation leaves running start a pair: a client and a server of
  the same application protocol and cipher whose parameters leave room for packets and windows.\<close>

theorem negotiation_starts_pair:
  assumes "application_protocol ps = application_protocol pc"
    and "0 \<notin> set (application_protocol pc)" and "valid_utf8 (application_protocol pc)"
    and "\<forall>p\<in>{pc, ps}. 13 \<le> unat (udp_length p) \<and> 0 < max_queued_incoming_reliable p \<and>
      unat (max_queued_outgoing_reliable p) \<le> 32767"
  shows "\<exists>c1 s1 c2 req resp.
    send_session_request (session_new Client pc cipher seed_c t0) = Some c1 \<and> ss_outgoing c1 = [req] \<and>
    process_incoming inflate (session_new Server ps cipher seed_s t1) req t2 = Some s1 \<and>
    ss_outgoing s1 = [resp] \<and> process_incoming inflate c1 resp t3 = Some c2 \<and>
    pair_reach inflate c2 s1 (fresh_endpoint c2, fresh_endpoint s1)"
proof -
  have params: "pair_params q" if "kept_params p q" "p \<in> {pc, ps}" for p q
    using that assms(4) by (auto simp: kept_params_def pair_params_def room_ok_def CRC_LENGTH_def)
  have start: "pair_reach inflate c s (fresh_endpoint c, fresh_endpoint s)"
    if "ss_state c = Running" "ss_state s = Running" "same_wire (ss_params c) (ss_params s)"
      "no_channels c" "no_channels s" "ss_cipher c = ss_cipher s"
      "kept_params pc (ss_params c)" "kept_params ps (ss_params s)" for c s
    using that params by (intro pair_reach.start) (simp add: negotiated_def)
  from negotiation_exchange [OF assms(1-3), of cipher seed_c t0 inflate cipher seed_s t1 t2 t3]
  show ?thesis using start by metis
qed

theorem negotiation_starts_pair_witness:
  "\<exists>c1 s1 c2 req resp.
    send_session_request (session_new Client session_parameters_default None 7 0) = Some c1 \<and>
    ss_outgoing c1 = [req] \<and>
    process_incoming (\<lambda>_. Inl Zlib) (session_new Server session_parameters_default None 9 0) req 1 =
      Some s1 \<and>
    ss_outgoing s1 = [resp] \<and> process_incoming (\<lambda>_. Inl Zlib) c1 resp 2 = Some c2 \<and>
    pair_reach (\<lambda>_. Inl Zlib) c2 s1 (fresh_endpoint c2, fresh_endpoint s1)"
  by (rule negotiation_starts_pair)
    (simp_all add: session_parameters_default_def DEFAULT_UDP_LENGTH_def valid_utf8.simps [of "[]"])

end
