(* ===== verification/Soe_Session_Early.thy ===== *)
theory Soe_Session_Early
  imports Soe_Session_Wire
begin

text \<open>
  A session before its negotiation ends. The reliable channels are documented as created only once
  a session runs; the code creates them for any contextual packet that validates under the
  parameters in force, and a new session has parameters. Two consequences: a send channel with a
  packet size that the negotiation then outdates, and application data that precedes the opening.
\<close>

section \<open>Channels before the negotiation ends\<close>

text \<open>Flushing keeps the configuration of every channel.\<close>

abbreviation output_configs :: "session \<Rightarrow> output_config option list" where
  "output_configs s \<equiv> map (map_option out_config) (ss_outputs s)"

lemma push_outputs:
  "push_frames fs s = Some s' \<Longrightarrow> ss_outputs s' = ss_outputs s"
  "ss_outputs (push_app_data ch ds s) = ss_outputs s"
proof -
  show "push_frames fs s = Some s' \<Longrightarrow> ss_outputs s' = ss_outputs s"
    by (induction fs arbitrary: s) (auto simp: bind_eq_Some_iff push_outgoing_def)
  show "ss_outputs (push_app_data ch ds s) = ss_outputs s"
    by (induction ds arbitrary: s) (simp_all add: push_received_def)
qed

lemma update_same_config:
  "xs ! ch = Some c \<Longrightarrow> out_config c' = out_config c \<Longrightarrow>
   map (map_option out_config) (xs[ch := Some c']) = map (map_option out_config) xs"
  by (cases "ch < length xs") (simp_all add: map_update list_update_same_conv list_update_beyond)

lemma flush_channel_configs: "flush_channel ch s = Some s' \<Longrightarrow> output_configs s' = output_configs s"
  by (auto simp: flush_channel_def flush_acks_def flush_packets_def flush_app_data_def push_outputs(2)
      bind_eq_Some_iff split_beta set_input_def set_output_def output_take_outgoing_def
      update_same_config dest!: push_outputs(1) split: option.splits)

lemma flush_configs: "flush_channels s = Some s' \<Longrightarrow> output_configs s' = output_configs s"
proof -
  have "flush_list chs s = Some s' \<Longrightarrow> output_configs s' = output_configs s" for chs
    by (induction chs arbitrary: s) (auto simp: bind_eq_Some_iff dest!: flush_channel_configs)
  then show "flush_channels s = Some s' \<Longrightarrow> output_configs s' = output_configs s"
    by (simp add: flush_channels_def)
qed

lemma process_acknowledge:
  assumes "safe r" and "ch < RELIABLE_CHANNEL_COUNT" and "ss_state r \<noteq> Terminated"
    and "session_output_channel (refreshed r now) ch now = Some c"
  shows "process_incoming inflate r (with_check (ss_params r)
      (contextual_body (ss_params r) (op_as_u16 Acknowledge + of_nat ch) (be16 sq))) now =
    flush_channels (set_output ch (notify_of_acknowledge c sq now) (refreshed r now))"
proof -
  have "has_channels Acknowledge" by (simp add: has_channels_def)
  note op = op_of_channel [OF this assms(2)]
  show ?thesis
    using process_framed [OF refl safe_crc [OF assms(1)], of "op_as_u16 Acknowledge + of_nat ch"
        Acknowledge "be16 sq" inflate now] op assms(3,4) ack.deser_bytes [of "\<lparr>ack_sequence = sq\<rparr>" "[]"]
    by (simp add: contextual_padding_def size_defs handle_contextual_inner.simps handle_acknowledge_def)
qed

text \<open>Channels are not only created once the session runs: an Acknowledge that reaches a
  negotiating client, framed with the parameters it was configured with, creates the send channel
  with the packet size of those parameters, and the channel keeps it when the SessionResponse
  then changes the check value length and the compression setting.\<close>

lemma premature_acknowledge_fixes_packet_size:
  assumes "safe r" and "ss_state r = Negotiating" and "ss_mode r = Client"
    and "\<not> open_session_on_next_packet r" and "ch < RELIABLE_CHANNEL_COUNT"
    and "ss_outputs r ! ch = None" and "sp_soe_protocol_version resp = SOE_PROTOCOL_VERSION"
    and "unat (sp_crc_length resp) \<le> 4"
  shows "\<exists>dg r1 r2 c. frame_contextual_raw r (op_as_u16 Acknowledge + of_nat ch) (be16 sq) = Some dg \<and>
    process_incoming inflate r dg t1 = Some r1 \<and> ss_state r1 = Negotiating \<and>
    process_incoming inflate r1 (session_response_bytes resp) t2 = Some r2 \<and>
    ss_state r2 = Running \<and> crc_length (ss_params r2) = sp_crc_length resp \<and>
    is_compression_enabled (ss_params r2) = sp_is_compression_enabled resp \<and>
    ss_outputs r2 ! ch = Some c \<and>
    session_max_data_length (ss_params r) = Some (max_data_length (out_config c))"
proof -
  let ?r = "refreshed r t1" and ?p = "ss_params r"
  have len: "ch < length (ss_outputs r)" using assms(1,5) by (simp add: safe_def slots_ok_def)
  obtain c where c: "session_output_channel ?r ch t1 = Some c" "sending_ok c"
    using output_channel_total [of ?r ch t1] assms(1,5) by auto
  have cfg: "session_max_data_length ?p = Some (max_data_length (out_config c))"
    using c(1) len assms(6) by (auto simp: session_output_channel_def output_new_def bind_eq_Some_iff)
  define s1 where "s1 = set_output ch (notify_of_acknowledge c sq t1) ?r"
  have s1: "safe s1" "output_configs s1 ! ch = Some (out_config c)" "life_of s1 = life_of r"
      "ss_mode s1 = Client"
    using assms(1,3,4) c(2) len
    by (simp_all add: s1_def safe_set_output sending_ok_acks refreshed_plain)
      (simp add: set_output_def)
  obtain r1 where r1: "flush_channels s1 = Some r1" "safe r1"
    using flush_total [OF s1(1)] by blast
  have fields: "life_of r1 = life_of r" "ss_mode r1 = Client" "output_configs r1 ! ch = Some (out_config c)"
    using life_view.flush_view [OF r1(1)] mode.flush_view [OF r1(1)] flush_configs [OF r1(1)] s1
    by simp_all
  let ?e = "established (r1\<lparr>last_received := t2\<rparr>) resp"
  have e: "safe ?e" "ss_outputs ?e = ss_outputs r1"
    using r1(2) assms(8) by (simp_all add: established_def) (simp add: push_event_def)
  obtain r2 where r2: "flush_channels ?e = Some r2" using flush_total [OF e(1)] by blast
  have "output_configs r2 ! ch = Some (out_config c)" "ch < length (output_configs r2)"
    using flush_configs [OF r2] e fields(3) r1(2) assms(5)
    by (simp_all add: safe_def slots_ok_def)
  then obtain c2 where "ss_outputs r2 ! ch = Some c2" "out_config c2 = out_config c" by auto
  moreover have "process_incoming inflate r1 (session_response_bytes resp) t2 = Some r2"
    using fields assms(2,4,7) r2 by (simp add: process_response life_of_def)
  moreover have "process_incoming inflate r (with_check ?p (contextual_body ?p
      (op_as_u16 Acknowledge + of_nat ch) (be16 sq))) t1 = Some r1"
    using process_acknowledge [OF assms(1,5) _ c(1)] assms(2) r1(1) by (simp add: s1_def)
  ultimately show ?thesis
    using frame_contextual_raw_eq [OF safe_crc [OF assms(1)]] cfg fields(1) assms(2)
      state.flush_view [OF r2] params.flush_view [OF r2]
    by (simp add: life_of_def)
qed

lemma premature_acknowledge_fixes_packet_size_witness:
  "\<exists>dg r1 r2 c. frame_contextual_raw (session_new Client session_parameters_default None 0 0)
      (op_as_u16 Acknowledge + of_nat 1) (be16 0) = Some dg \<and>
    process_incoming (\<lambda>_. Inl Zlib) (session_new Client session_parameters_default None 0 0) dg 1 =
      Some r1 \<and> ss_state r1 = Negotiating \<and>
    process_incoming (\<lambda>_. Inl Zlib) r1 (session_response_bytes \<lparr>sp_session_id = 1, sp_crc_seed = 2,
      sp_crc_length = 4, sp_is_compression_enabled = True, sp_unknown_value_1 = 0,
      sp_udp_length = 512, sp_soe_protocol_version = SOE_PROTOCOL_VERSION\<rparr>) 2 = Some r2 \<and>
    ss_state r2 = Running \<and> crc_length (ss_params r2) = 4 \<and>
    is_compression_enabled (ss_params r2) \<and> ss_outputs r2 ! 1 = Some c \<and>
    session_max_data_length session_parameters_default = Some (max_data_length (out_config c))"
  using premature_acknowledge_fixes_packet_size
    [of "session_new Client session_parameters_default None 0 0" 1
      "\<lparr>sp_session_id = 1, sp_crc_seed = 2, sp_crc_length = 4, sp_is_compression_enabled = True,
        sp_unknown_value_1 = 0, sp_udp_length = 512, sp_soe_protocol_version = SOE_PROTOCOL_VERSION\<rparr>"
      0 "\<lambda>_. Inl Zlib" 1 2]
  by (simp add: safe_new room_ok_def session_parameters_default_def CRC_LENGTH_def
      DEFAULT_UDP_LENGTH_def RELIABLE_CHANNEL_COUNT_def)
    (simp add: session_new_def RELIABLE_CHANNEL_COUNT_def session_parameters_default_def
      CRC_LENGTH_def DEFAULT_UDP_LENGTH_def)

section \<open>Data before the negotiation ends\<close>

text \<open>A flush hands the application the data of every channel, in the order of the channels.\<close>

definition channel_data :: "session \<Rightarrow> nat \<Rightarrow> received_data list" where
  "channel_data s ch = map (\<lambda>d. \<lparr>rc_data = d, rc_channel = Reliable ch\<rparr>)
     (case ss_inputs s ! ch of None \<Rightarrow> [] | Some c \<Rightarrow> app_data c)"

lemma push_app_data_received:
  "ss_received (push_app_data ch ds s) = ss_received s @ map (\<lambda>d. \<lparr>rc_data = d, rc_channel = Reliable ch\<rparr>) ds"
  "ss_inputs (push_app_data ch ds s) = ss_inputs s"
  by (induction ds arbitrary: s) (simp_all add: push_received_def)

lemma flush_acks_received:
  assumes "flush_acks ch s = Some s'" and "ch < length (ss_inputs s)"
  shows "ss_received s' = ss_received s \<and> length (ss_inputs s') = length (ss_inputs s) \<and>
    (\<forall>k. k \<noteq> ch \<longrightarrow> ss_inputs s' ! k = ss_inputs s ! k) \<and> channel_data s' ch = channel_data s ch"
  using assms
  by (auto simp: flush_acks_def split_beta channel_data_def set_input_def input_take_outgoing_def
      dest!: push_frames_inputs split: option.splits)

lemma flush_packets_received:
  "flush_packets ch s = Some s' \<Longrightarrow> ss_received s' = ss_received s \<and> ss_inputs s' = ss_inputs s"
  by (auto simp: flush_packets_def split_beta set_output_def dest!: push_frames_inputs split: option.splits)

lemma flush_app_data_received:
  "ss_received (flush_app_data ch s) = ss_received s @ channel_data s ch \<and>
   length (ss_inputs (flush_app_data ch s)) = length (ss_inputs s) \<and>
   (\<forall>k. k \<noteq> ch \<longrightarrow> ss_inputs (flush_app_data ch s) ! k = ss_inputs s ! k)"
  by (auto simp: flush_app_data_def channel_data_def split_beta set_input_def take_app_data_def
      push_app_data_received split: option.splits)

lemma flush_channel_received:
  assumes "flush_channel ch s = Some s'" and "ch < length (ss_inputs s)"
  shows "ss_received s' = ss_received s @ channel_data s ch \<and> length (ss_inputs s') = length (ss_inputs s) \<and>
    (\<forall>k. k \<noteq> ch \<longrightarrow> ss_inputs s' ! k = ss_inputs s ! k)"
proof -
  obtain s1 s2 where s1: "flush_acks ch s = Some s1" and s2: "flush_packets ch s1 = Some s2"
    and s': "s' = flush_app_data ch s2"
    using assms(1) by (auto simp: flush_channel_def bind_eq_Some_iff)
  have "channel_data s2 ch = channel_data s1 ch"
    using flush_packets_received [OF s2] by (simp add: channel_data_def)
  then show ?thesis
    using flush_acks_received [OF s1 assms(2)] flush_packets_received [OF s2]
      flush_app_data_received [of ch s2] by (simp add: s')
qed

lemma flush_list_received:
  assumes "flush_list chs s = Some s'" and "distinct chs" and "\<forall>ch\<in>set chs. ch < length (ss_inputs s)"
  shows "ss_received s' = ss_received s @ concat (map (channel_data s) chs)"
  using assms
proof (induction chs arbitrary: s)
  case (Cons ch chs)
  then obtain s1 where s1: "flush_channel ch s = Some s1" and rest: "flush_list chs s1 = Some s'"
    by (auto simp: bind_eq_Some_iff)
  have "ch < length (ss_inputs s)" using Cons.prems(3) by simp
  note one = flush_channel_received [OF s1 this]
  have "channel_data s1 k = channel_data s k" if "k \<in> set chs" for k
    using one that Cons.prems(2) by (auto simp: channel_data_def)
  then have same: "map (channel_data s1) chs = map (channel_data s) chs" by simp
  have "ss_received s' = ss_received s1 @ concat (map (channel_data s1) chs)"
    using Cons.prems one by (intro Cons.IH [OF rest]) simp_all
  then show ?case unfolding same using one by simp
qed simp

lemma first_packet:
  fixes b :: u8
  assumes "0 < max_queued_incoming config"
  shows "\<exists>c. handle_reliable_data (input_new config None now) [0, 0, b] now = Some (c, Inr ()) \<and>
    app_data c = [[b]]"
proof -
  let ?n = "input_new config None now"
  have zero: "of_be16 0 0 = 0" by (simp add: of_be16_def)
  have ts: "true_incoming_sequence 0 0 (max_queued ch) = 0" for ch
    using true_incoming_current [of 0 "max_queued ch"] by (simp add: wire_sequence_def max_queued_def)
  have start: "window_start_sequence ?n = 0" "in_config ?n = config"
    by (simp_all add: input_new_def)
  have q: "0 \<le> max_queued (count_received ?n)" by (simp add: max_queued_def)
  define ch where "ch = (if acknowledge_all_data config then emit Acknowledge 0 (count_received ?n)
      else count_received ?n)"
  have pre: "preprocess ?n [0, 0, b] False now = Some (True, ch)"
    using q by (simp add: preprocess_def is_valid_reliable_data_def zero start ts Let_def ch_def emit_def)
  define ch2 where "ch2 = (process_data ch [b])\<lparr>window_start_sequence := 1\<rparr>"
  have ch: "in_cipher ch = None" "app_data ch = []" "stash ch = stash ?n" "in_config ch = config"
      "window_start_sequence ch = 0"
    by (simp_all add: ch_def emit_def count_received_def input_new_def)
  have fields: "app_data ch2 = [[b]]" "stash ch2 = stash ?n" "in_config ch2 = config"
      "window_start_sequence ch2 = 1"
    using ch by (simp_all add: ch2_def process_data_def decrypt_and_handle_def)
  have "sized ch2"
    by (rule sized_cong [OF sized_new [OF assms, of None now]])
      (simp_all add: fields, simp_all add: input_new_def)
  moreover from this have "stash ch2 ! spot_of ch2 (window_start_sequence ch2) = None"
    using spot_less [of ch2 1] by (simp add: fields) (simp add: input_new_def)
  ultimately have "consume_stashed ch2 = Some (ch2, Inr ())" by (rule consume_empty)
  moreover have "handle_reliable_data ?n [0, 0, b] now = consume_stashed ch2"
    by (simp add: handle_reliable_data_def pre ch2_def ch)
  ultimately show ?thesis using fields by simp
qed

section \<open>Properties\<close>

text \<open>C37: A session that still negotiates delivers data: a ReliableData packet framed with the
  parameters the session was configured with, whose CRC key is a constant, reaches the
  application while the session is negotiating and has surfaced no event, so data precedes the
  opening.\<close>

theorem premature_data_delivered:
  assumes "safe r" and "ss_state r = Negotiating" and "no_channels r" and "ss_cipher r = None"
    and "\<not> open_session_on_next_packet r"
  shows "\<exists>dg r'. frame_contextual_raw r (op_as_u16 ReliableData) [0, 0, b] = Some dg \<and>
    process_incoming inflate r dg now = Some r' \<and> ss_state r' = Negotiating \<and>
    ss_events r' = ss_events r \<and>
    ss_received r' = ss_received r @ [\<lparr>rc_data = [b], rc_channel = Reliable 0\<rparr>]"
proof -
  let ?r = "refreshed r now" and ?p = "ss_params r"
  have "0 < max_queued_incoming (input_channel_config ?p)"
    using assms(1) by (simp add: safe_def room_ok_def input_channel_config_def)
  then obtain c where c: "handle_reliable_data (input_new (input_channel_config ?p) None now)
      [0, 0, b] now = Some (c, Inr ())" "app_data c = [[b]]"
    using first_packet by blast
  have inputs: "ss_inputs r = replicate RELIABLE_CHANNEL_COUNT None"
    using assms(3) by (simp add: no_channels_def)
  have "session_input_channel ?r 0 now = Some (input_new (input_channel_config ?p) None now)"
    using inputs assms(4,5)
    by (simp add: session_input_channel_def RELIABLE_CHANNEL_COUNT_def refreshed_plain)
  then have handled: "handle_contextual_inner ?r ReliableData 0 [0, 0, b] now = Some (set_input 0 c ?r)"
    using c by (simp add: handle_contextual_inner.simps handle_reliable_def)
  have "sized c"
    using handle_total [OF sized_new [of "input_channel_config ?p" None now], of False "[0, 0, b]" now] c(1)
      assms(1)
    by (auto simp: handle_packet_def safe_def room_ok_def input_channel_config_def)
  then have "safe (set_input 0 c ?r)" using assms(1) by (simp add: safe_set_input)
  then obtain r' where r': "flush_channels (set_input 0 c ?r) = Some r'" using flush_total by blast
  have "op_from_u16 9 = Some ReliableData" "reliable_channel 9 = 0"
    by (simp_all add: op_from_u16_def reliable_channel_def)
  then have "process_incoming inflate r (with_check ?p (contextual_body ?p (op_as_u16 ReliableData) [0, 0, b])) now = Some r'"
    using process_framed [OF refl safe_crc [OF assms(1)], of 9 ReliableData "[0, 0, b]" inflate now]
      assms(2) handled r'
    by (simp add: contextual_padding_def OP_CODE_SIZE_def)
  moreover have "life_of r' = life_of r"
    using life_view.flush_view [OF r'] assms(5) by (simp add: refreshed_plain)
  moreover have "ss_received r' = ss_received r @ [\<lparr>rc_data = [b], rc_channel = Reliable 0\<rparr>]"
    using flush_list_received [OF r' [unfolded flush_channels_def]] inputs c(2) assms(5)
    by (simp add: RELIABLE_CHANNEL_COUNT_def channel_data_def set_input_def refreshed_plain upt_conv_Cons)
  ultimately show ?thesis
    using frame_contextual_raw_eq [OF safe_crc [OF assms(1)]] assms(2) by (simp add: life_of_def)
qed

theorem premature_data_delivered_witness:
  "\<exists>dg r'. frame_contextual_raw (session_new Client session_parameters_default None 0 0)
      (op_as_u16 ReliableData) [0, 0, 7] = Some dg \<and>
    process_incoming (\<lambda>_. Inl Zlib) (session_new Client session_parameters_default None 0 0) dg 1 = Some r' \<and>
    ss_state r' = Negotiating \<and> ss_events r' = [] \<and>
    ss_received r' = [\<lparr>rc_data = [7], rc_channel = Reliable 0\<rparr>]"
  using premature_data_delivered [of "session_new Client session_parameters_default None 0 0" 7
      "\<lambda>_. Inl Zlib" 1]
  by (simp add: no_channels_new safe_new room_ok_def session_parameters_default_def CRC_LENGTH_def
      DEFAULT_UDP_LENGTH_def)
    (simp add: session_new_def)

end
