(* ===== verification/Soe_Flow_Run.thy ===== *)
theory Soe_Flow_Run
  imports Soe_Flow
begin

text \<open>
  The flows of \<open>Soe_Flow\<close> in time: when a flow whose acknowledgements were lost recovers, and when
  it stalls for ever.
\<close>

section \<open>What the receiver has told the sender\<close>

definition told :: "input_channel \<Rightarrow> outgoing_contextual list \<times> int \<times> instant" where
  "told ch = (in_outgoing ch, last_ack_all_sequence ch, last_ack_all_time ch)"

lemma told_frame [simp]:
  "told (process_data ch d) = told ch"
  "told (fst (write_immediate_fragment ch d)) = told ch"
  "told (try_process_current_buffer ch) = told ch"
  "told (stash_update f1 ch) = told ch"
  "told (window_start_sequence_update f2 ch) = told ch"
  "told (count_duplicate ch) = told ch" "told (count_received ch) = told ch"
  "told (count_out_of_order ch) = told ch"
  "told (send_ack_all sq now ch) = (in_outgoing ch @
     [\<lparr>oc_op_code = AcknowledgeAll, oc_sequence = wire_sequence sq\<rparr>], sq, now)"
  "told (emit op_code q ch) = (in_outgoing ch @ [\<lparr>oc_op_code = op_code, oc_sequence = q\<rparr>],
     last_ack_all_sequence ch, last_ack_all_time ch)"
  by (simp_all add: told_def write_immediate_fragment_def try_process_current_buffer_def Let_def
      count_duplicate_def count_received_def count_out_of_order_def send_ack_all_def emit_def
      split: option.split)

lemma told_write: "write_immediate_fragment ch d = (ch', r) \<Longrightarrow> told ch' = told ch"
  using told_frame(2) [of ch d] by simp

lemma told_consume: "consume_stashed ch = Some (ch', r) \<Longrightarrow> told ch' = told ch"
proof (induction ch arbitrary: ch' r rule: consume_stashed.induct)
  case (1 ch)
  note def = 1(3) [unfolded consume_stashed.simps [of ch]]
  show ?case
  proof (cases "\<exists>n item. stash_spot ch (window_start_sequence ch) = Some n \<and>
      index (stash ch) n = Some (Some item)")
    case False
    with def show ?thesis by (auto split: option.splits)
  next
    case True
    then obtain n item where n: "stash_spot ch (window_start_sequence ch) = Some n"
      and item: "index (stash ch) n = Some (Some item)" by blast
    show ?thesis
    proof (cases "st_is_fragment item")
      case frag: True
      with def n item 1(1) [OF n item refl refl frag refl _ refl] show ?thesis
        by (auto simp: Let_def split: sum.splits)
    next
      case False
      with def n item 1(2) [OF n item refl refl False refl] show ?thesis
        by (auto simp: Let_def)
    qed
  qed
qed

lemma told_handle:
  assumes "handle_packet ch f data now = Some (ch', res)"
  shows "\<exists>immediate ch1. preprocess ch data f now = Some (immediate, ch1) \<and> told ch' = told ch1"
  using assms
  by (auto simp: handle_packet_def handle_reliable_data_def handle_reliable_data_fragment_def
      bind_eq_Some_iff Let_def dest!: told_consume told_write split: if_splits prod.splits sum.splits)

text \<open>A packet makes the receiver tell the sender of itself, of everything below the window, or
  of nothing.\<close>

lemma told_preprocess:
  assumes "preprocess ch (be16 q @ d) f now = Some (immediate, ch1)"
  shows "told ch1 =
    (if window_start_sequence ch + max_queued ch < true_sequence ch q then told ch
     else if window_start_sequence ch \<le> true_sequence ch q
     then (in_outgoing ch @ (if acknowledge_all_data (in_config ch) \<or>
              true_sequence ch q \<noteq> window_start_sequence ch
            then [\<lparr>oc_op_code = Acknowledge, oc_sequence = q\<rparr>] else []),
          last_ack_all_sequence ch, last_ack_all_time ch)
     else if duration_since now (last_ack_all_time ch) < max_ack_delay (in_config ch)
     then (in_outgoing ch @ [\<lparr>oc_op_code = AcknowledgeAll,
            oc_sequence = wire_sequence (window_start_sequence ch - 1)\<rparr>],
          window_start_sequence ch - 1, now)
     else told ch)"
proof -
  have times: "last_ack_all_sequence (count_received ch) = last_ack_all_sequence ch"
    "last_ack_all_time (count_received ch) = last_ack_all_time ch"
    by (simp_all add: count_received_def)
  have plain: "told ch = (in_outgoing ch, last_ack_all_sequence ch, last_ack_all_time ch)"
    by (rule told_def)
  show ?thesis
    using assms
    by (auto simp: preprocess_def Let_def validity_cases times bind_eq_Some_iff simp flip: plain
        split: if_splits)
qed

section \<open>A flow after an instant\<close>

text \<open>Any steps from the instant \<open>t\<close> on, on either clock.\<close>

inductive flow_later ::
    "output_config \<Rightarrow> input_config \<Rightarrow> rc4_key_state option \<Rightarrow> instant \<Rightarrow> flow \<Rightarrow> flow \<Rightarrow> bool"
  for oc :: output_config and ic :: input_config and c :: "rc4_key_state option" and t :: instant
  and f :: flow where
  later_refl: "flow_later oc ic c t f f"
| later_step: "flow_later oc ic c t f g \<Longrightarrow> flow_step oc ic c now g g' \<Longrightarrow> t \<le> now \<Longrightarrow>
    flow_later oc ic c t f g'"

lemma later_trans: "flow_later oc ic c t g h \<Longrightarrow> flow_later oc ic c t f g \<Longrightarrow> flow_later oc ic c t f h"
  by (induction rule: flow_later.induct) (auto intro: later_step)

lemma later_inv:
  "flow_later oc ic c t f g \<Longrightarrow> flow_config oc ic \<Longrightarrow> flow_inv oc ic c f \<Longrightarrow> flow_inv oc ic c g"
  by (induction rule: flow_later.induct) (auto simp: flow_config_def intro: flow_inv_step)

lemma flow_inv_config:
  "flow_inv oc ic c f \<Longrightarrow> out_config (fl_out f) = oc" "flow_inv oc ic c f \<Longrightarrow> in_config (fl_in f) = ic"
  by (simp_all add: flow_inv_def link_inv_defs)

lemma flow_inv_window:
  "flow_inv oc ic c f \<Longrightarrow> 0 \<le> window_start_sequence (fl_in f) \<and>
     window_start_sequence (fl_in f) \<le> int (length (flow_packets oc c f)) \<and> 0 < max_queued (fl_in f)"
  by (simp add: flow_inv_def link_inv_defs window_inv_def sized_def)

section \<open>A stall\<close>

text \<open>A packet the receiver has processed, repeated within a block.\<close>

definition behind :: "rpacket list \<Rightarrow> input_channel \<Rightarrow> outgoing_reliable \<Rightarrow> bool" where
  "behind P ch pkt \<longleftrightarrow> (\<exists>i. window_start_sequence ch + max_queued ch - 65536 < int i \<and>
     int i < window_start_sequence ch \<and> pkt = packet_wire P i)"

text \<open>Everything the sender may send has been received and acknowledged, the acknowledgements are
  lost, and the delay in which a repetition is answered is over.\<close>

definition stalled :: "output_config \<Rightarrow> rc4_key_state option \<Rightarrow> instant \<Rightarrow> flow \<Rightarrow> bool" where
  "stalled oc c t f \<longleftrightarrow> (let ch = fl_in f; w = window_start_sequence ch;
       n = max_queued_outgoing oc; queue = dispatch_queue (fl_out f) in
     fl_acks f = {} \<and> in_outgoing ch = [] \<and> last_ack_all_sequence ch = w - 1 \<and>
     last_ack_all_time ch + max_ack_delay (in_config ch) \<le> t \<and> w < 2 ^ 62 \<and>
     0 < n \<and> n \<le> length queue \<and>
     (\<forall>q\<in>set (map fst (take n queue)). w + max_queued ch - 65536 < q \<and> q < w) \<and>
     (\<forall>pkt\<in>fl_net f \<union> set (out_outgoing (fl_out f)). behind (flow_packets oc c f) ch pkt))"

definition unmoved :: "flow \<Rightarrow> flow \<Rightarrow> bool" where
  "unmoved f f' \<longleftrightarrow> window_start_sequence (fl_in f') = window_start_sequence (fl_in f) \<and>
     prefix (map fst (dispatch_queue (fl_out f))) (map fst (dispatch_queue (fl_out f'))) \<and>
     fl_taken f' @ app_data (fl_in f') = fl_taken f @ app_data (fl_in f)"

lemma unmoved_trans: "unmoved f g \<Longrightarrow> unmoved g h \<Longrightarrow> unmoved f h"
  by (auto simp: unmoved_def intro: prefix_order.trans)

lemma behind_same: "same_window ch ch' \<Longrightarrow> behind P ch' pkt = behind P ch pkt"
  by (simp add: behind_def same_window_def max_queued_def)

lemma stalled_receiver:
  assumes "stalled oc c t f" and same: "same_window (fl_in f) in'" and "told in' = told (fl_in f)"
  shows "stalled oc c t (f\<lparr>fl_in := in'\<rparr>) \<and> unmoved f (f\<lparr>fl_in := in'\<rparr>)"
proof -
  have "max_queued in' = max_queued (fl_in f)" using same by (simp add: same_window_def max_queued_def)
  then show ?thesis
    using assms behind_same [OF same]
    by (simp add: stalled_def unmoved_def told_def same_window_def core_def Let_def)
qed

text \<open>A packet behind the window is not answered.\<close>

lemma behind_ignored:
  assumes inv: "flow_inv oc ic c f" and cfg: "flow_config oc ic" and st: "stalled oc c t f" and "t \<le> now"
    and pkt: "behind (flow_packets oc c f) (fl_in f) pkt"
    and h: "handle_packet (fl_in f) (or_op_code pkt = ReliableDataFragment) (or_payload pkt) now = Some (in', res)"
  shows "same_window (fl_in f) in' \<and> told in' = told (fl_in f)"
proof -
  let ?ch = "fl_in f" and ?w = "window_start_sequence (fl_in f)" and ?n = "max_queued (fl_in f)"
  obtain i where i: "?w + ?n - 65536 < int i" "int i < ?w" and p: "pkt = packet_wire (flow_packets oc c f) i"
    using pkt by (auto simp: behind_def)
  let ?q = "wire_sequence (int i)" and ?d = "snd (flow_packets oc c f ! i)"
  have pay: "or_payload pkt = be16 ?q @ ?d" by (simp add: p packet_wire_def)
  have w: "0 \<le> ?w" "0 < ?n" "?w < 2 ^ 62"
    using flow_inv_window [OF inv] st by (simp_all add: stalled_def Let_def)
  have outside: "?w + ?n < true_sequence ?ch ?q \<or> true_sequence ?ch ?q < ?w"
  proof (rule ccontr)
    assume between: "\<not> (?w + ?n < true_sequence ?ch ?q \<or> true_sequence ?ch ?q < ?w)"
    have "true_sequence ?ch ?q mod 65536 = int i mod 65536"
      using true_incoming_cong [OF w(1,3), of ?q ?n] by (simp add: true_sequence_def)
    moreover have "\<bar>true_sequence ?ch ?q - int i\<bar> < 65536" using between i by linarith
    ultimately have "true_sequence ?ch ?q = int i" by (rule cong_unique)
    with between i show False by linarith
  qed
  from preprocess_rejected [OF this, of ?d "or_op_code pkt = ReliableDataFragment" now]
  obtain ch1 where pre: "preprocess ?ch (be16 ?q @ ?d) (or_op_code pkt = ReliableDataFragment) now =
      Some (False, ch1)" and same: "same_window ?ch ch1" by blast
  have "in' = ch1" using h handle_not_immediate [OF pre] by (simp add: pay)
  moreover have "last_ack_all_time ?ch + max_ack_delay (in_config ?ch) \<le> now"
    using st \<open>t \<le> now\<close> by (simp add: stalled_def Let_def)
  then have "\<not> duration_since now (last_ack_all_time ?ch) < max_ack_delay (in_config ?ch)" by linarith
  ultimately show ?thesis using told_preprocess [OF pre] outside same by auto
qed

text \<open>The sender only repeats, and what it accepts waits.\<close>

lemma tick_packets:
  assumes "output_ok ch" and "carries P ch" and "pkt \<in> set (out_outgoing (output_run_tick ch now))"
  shows "pkt \<in> set (out_outgoing ch) \<or>
    (\<exists>q\<in>set (map fst (take (max_queued_outgoing (out_config ch)) (dispatch_queue ch))).
       0 \<le> q \<and> pkt = packet_wire P (nat q))"
proof -
  have "set (drop k (take (window_of ch) (dispatch_queue ch))) \<subseteq>
      set (take (max_queued_outgoing (out_config ch)) (dispatch_queue ch))" for k
    using set_drop_subset [of k "take (window_of ch) (dispatch_queue ch)"]
    by (auto simp: window_of_def min_def split: if_splits dest: in_set_takeD)
  moreover have "packet_out e = packet_wire P (nat (fst e)) \<and> 0 \<le> fst e"
    if "e \<in> set (take (max_queued_outgoing (out_config ch)) (dispatch_queue ch))" for e
    using assms(2) in_set_takeD [OF that] by (simp add: carries_def)
  ultimately show ?thesis
    using assms(3) run_tick_effect [OF assms(1), of now] by (fastforce simp: Let_def)
qed

lemma stalled_tick_out:
  assumes inv: "flow_inv oc ic c f" and st: "stalled oc c t f"
    and f': "f' = f\<lparr>fl_out := output_run_tick (fl_out f) now\<rparr>"
  shows "stalled oc c t f' \<and> unmoved f f'"
proof -
  let ?o = "fl_out f" and ?o' = "output_run_tick (fl_out f) now" and ?P = "flow_packets oc c f"
  have ok: "output_ok ?o" and carries: "carries ?P ?o" and oc: "out_config ?o = oc"
    using inv by (simp_all add: flow_inv_def link_inv_defs)
  have queue: "map fst (dispatch_queue ?o') = map fst (dispatch_queue ?o)"
    using tick_queue [OF ok] by blast
  then have len: "length (dispatch_queue ?o') = length (dispatch_queue ?o)" by (metis length_map)
  have front: "map fst (take n (dispatch_queue ?o')) = map fst (take n (dispatch_queue ?o))" for n
    using queue by (simp flip: take_map)
  have "behind ?P (fl_in f) pkt" if "pkt \<in> set (out_outgoing ?o')" for pkt
    using tick_packets [OF ok carries that] unfolding oc
  proof (elim disjE bexE conjE)
    fix q assume q: "q \<in> set (map fst (take (max_queued_outgoing oc) (dispatch_queue ?o)))"
      "0 \<le> q" "pkt = packet_wire ?P (nat q)"
    have "\<forall>q\<in>set (map fst (take (max_queued_outgoing oc) (dispatch_queue ?o))).
        window_start_sequence (fl_in f) + max_queued (fl_in f) - 65536 < q \<and>
        q < window_start_sequence (fl_in f)"
      using st unfolding stalled_def Let_def by blast
    from bspec [OF this q(1)] q(2,3) show ?thesis
      unfolding behind_def by (intro exI [of _ "nat q"]) simp
  qed (use st in \<open>simp add: stalled_def Let_def\<close>)
  then show ?thesis
    using st queue len front by (simp add: f' stalled_def unmoved_def Let_def ball_Un del: set_map)
qed

lemma stalled_send:
  assumes inv: "flow_inv oc ic c f" and cfg: "flow_config oc ic" and st: "stalled oc c t f"
    and ok: "message_ok c d" and e: "enqueue_data (fl_out f) d = Some o'"
    and f': "f' = f\<lparr>fl_out := o', fl_sent := fl_sent f @ [d]\<rparr>"
  shows "stalled oc c t f' \<and> unmoved f f'"
proof -
  let ?o = "fl_out f" and ?P = "flow_packets oc c f"
  have "d \<noteq> []" and oc: "out_config ?o = oc" and m: "6 \<le> max_data_length oc"
    using ok inv cfg by (simp_all add: message_ok_def flow_inv_config flow_config_def)
  then obtain ps k where o': "o' = append_packets ps (?o\<lparr>out_cipher := k\<rparr>)"
    using e by (auto simp: enqueue_eq)
  have queue: "dispatch_queue o' = dispatch_queue ?o @ stash_all (total_sequence ?o) ps"
    and out: "out_outgoing o' = out_outgoing ?o" by (simp_all add: o' append_packets_def)
  obtain Q where P': "flow_packets oc c f' = ?P @ Q"
    by (auto simp: f' flow_packets_def stream_packets_append split_beta)
  have w: "window_start_sequence (fl_in f) \<le> int (length ?P)" using flow_inv_window [OF inv] by blast
  have "behind (?P @ Q) (fl_in f) pkt" if "behind ?P (fl_in f) pkt" for pkt
    using that w unfolding behind_def
    by (elim exE conjE, intro exI conjI) (assumption+, simp add: packet_wire_append)
  with P' have "behind (flow_packets oc c f') (fl_in f) pkt" if "behind ?P (fl_in f) pkt" for pkt
    using that by simp
  then show ?thesis
    using st queue out by (simp add: f' stalled_def unmoved_def Let_def)
qed

lemma stalled_step:
  assumes step: "flow_step oc ic c now f f'" and inv: "flow_inv oc ic c f"
    and cfg: "flow_config oc ic" and st: "stalled oc c t f" and t: "t \<le> now"
  shows "stalled oc c t f' \<and> unmoved f f'"
  using step
proof (cases rule: flow_step.cases)
  case send
  then show ?thesis using stalled_send [OF inv cfg st] by simp
next
  case tick_out
  then show ?thesis using stalled_tick_out [OF inv st] by simp
next
  case (transmit pkts o')
  then show ?thesis
    using st by (auto simp: stalled_def unmoved_def Let_def output_take_outgoing_def)
next
  case (create t')
  have "dispatch_queue (fl_out f) \<noteq> []" and "0 < max_queued_outgoing oc"
    using st by (auto simp: stalled_def Let_def)
  then obtain e where e: "e \<in> set (take (max_queued_outgoing oc) (dispatch_queue (fl_out f)))"
    by (cases "dispatch_queue (fl_out f)"; cases "max_queued_outgoing oc") auto
  then have "0 \<le> fst e"
    using flow_inv_output_ok [OF inv] in_set_takeD [OF e] by (simp add: output_ok_def)
  moreover have "fst e < 0"
    using st e create(2) by (auto simp: stalled_def Let_def input_new_def)
  ultimately show ?thesis by simp
next
  case (deliver pkt i in' res)
  have "behind (flow_packets oc c f) (fl_in f) pkt"
    using st deliver(2) by (simp add: stalled_def Let_def)
  from behind_ignored [OF inv cfg st t this deliver(6)] show ?thesis
    using stalled_receiver [OF st] by (simp add: deliver(1))
next
  case tick_in
  have "input_run_tick (fl_in f) now = fl_in f"
    using st by (simp add: stalled_def Let_def input_run_tick_def)
  with tick_in st show ?thesis by (simp add: unmoved_def)
next
  case mark
  with st show ?thesis by (simp add: stalled_def unmoved_def Let_def)
next
  case (collect acks in')
  then have "acks = []" and "in' = fl_in f"
    using st by (auto simp: input_take_outgoing_def stalled_def Let_def)
  with collect st show ?thesis by (simp add: unmoved_def)
next
  case (take ds in')
  have "same_window (fl_in f) (in'\<lparr>app_data := app_data (fl_in f)\<rparr>)"
    using take(2) by (auto simp: take_app_data_def same_window_def core_def)
  with take st show ?thesis
    by (auto simp: take_app_data_def stalled_def unmoved_def Let_def behind_def max_queued_def)
next
  case (acknowledge r m)
  with st show ?thesis by (simp add: stalled_def Let_def)
qed

lemma stalled_later:
  assumes later: "flow_later oc ic c t f g" and cfg: "flow_config oc ic"
    and inv: "flow_inv oc ic c f" and st: "stalled oc c t f"
  shows "stalled oc c t g \<and> unmoved f g"
  using later
proof induction
  case later_refl
  with st show ?case by (simp add: unmoved_def)
next
  case (later_step g now g')
  with stalled_step [OF later_step(2) later_inv [OF later_step(1) cfg inv] cfg] show ?case
    using unmoved_trans by blast
qed

section \<open>The receiver is never ahead of its acknowledgements\<close>

lemma consume_moves:
  "consume_stashed ch = Some (ch', r) \<Longrightarrow> window_start_sequence ch' +
     int (length (filter (\<lambda>s. s \<noteq> None) (stash ch'))) \<le>
   window_start_sequence ch + int (length (filter (\<lambda>s. s \<noteq> None) (stash ch)))"
proof (induction ch arbitrary: ch' r rule: consume_stashed.induct)
  case (1 ch)
  note def = 1(3) [unfolded consume_stashed.simps [of ch]]
  show ?case
  proof (cases "\<exists>n item. stash_spot ch (window_start_sequence ch) = Some n \<and>
      index (stash ch) n = Some (Some item)")
    case False
    with def show ?thesis by (auto split: option.splits)
  next
    case True
    then obtain n item where n: "stash_spot ch (window_start_sequence ch) = Some n"
      and item: "index (stash ch) n = Some (Some item)" by blast
    have less: "length (filter (\<lambda>s. s \<noteq> None) ((stash ch)[n := None])) <
        length (filter (\<lambda>s. s \<noteq> None) (stash ch))"
      using item by (intro filter_update_less) (auto simp: index_def split: if_splits)
    show ?thesis
    proof (cases "st_is_fragment item")
      case frag: True
      show ?thesis
      proof (cases "snd (write_immediate_fragment (ch\<lparr>stash := (stash ch)[n := None]\<rparr>) (st_data item))")
        case (Inl e)
        with def n item frag less show ?thesis by (auto simp: Let_def)
      next
        case (Inr u)
        with def n item frag 1(1) [OF n item refl refl frag refl Inr refl] less show ?thesis
          by (fastforce simp: Let_def)
      qed
    next
      case False
      with def n item 1(2) [OF n item refl refl False refl] less show ?thesis
        by (fastforce simp: Let_def)
    qed
  qed
qed

text \<open>A handled packet moves the window past itself and the packets stashed.\<close>

lemma ops_frame [simp]:
  "window_start_sequence (emit op_code q ch) = window_start_sequence ch"
  "stash (emit op_code q ch) = stash ch" "in_config (emit op_code q ch) = in_config ch"
  "window_start_sequence (count_duplicate ch) = window_start_sequence ch"
  "stash (count_duplicate ch) = stash ch" "in_config (count_duplicate ch) = in_config ch"
  "window_start_sequence (count_out_of_order ch) = window_start_sequence ch"
  "stash (count_out_of_order ch) = stash ch" "in_config (count_out_of_order ch) = in_config ch"
  by (simp_all add: emit_def count_duplicate_def count_out_of_order_def)

lemma preprocess_frame:
  "preprocess ch data f now = Some (immediate, ch1) \<Longrightarrow>
     window_start_sequence ch1 = window_start_sequence ch \<and> length (stash ch1) = length (stash ch) \<and>
     in_config ch1 = in_config ch"
proof -
  assume pre: "preprocess ch data f now = Some (immediate, ch1)"
  obtain v ch2 where v: "is_valid_reliable_data (count_received ch) data now = (v, ch2)"
    by (cases "is_valid_reliable_data (count_received ch) data now")
  have "same_window (count_received ch) ch2"
    using validity_same [of "count_received ch" data now] v by simp
  then have same: "window_start_sequence ch2 = window_start_sequence ch" "length (stash ch2) = length (stash ch)"
    "in_config ch2 = in_config ch" by (simp_all add: same_window_def)
  show ?thesis
  proof (cases v)
    case None
    with pre v same show ?thesis by (simp add: preprocess_def Let_def)
  next
    case (Some q)
    with pre v same show ?thesis
      by (cases q; cases "fst q = window_start_sequence ch")
        (auto simp: preprocess_def Let_def bind_eq_Some_iff simp del: if_split split: if_split_asm)
  qed
qed

lemma handle_cases:
  assumes "handle_packet ch f data now = Some (ch', res)"
  shows "\<exists>immediate ch1. preprocess ch data f now = Some (immediate, ch1) \<and>
    (window_start_sequence ch' = window_start_sequence ch1 \<or>
     (\<exists>a. consume_stashed a = Some (ch', res) \<and> stash a = stash ch1 \<and>
        window_start_sequence a = window_start_sequence ch1 + 1))"
proof -
  obtain immediate ch1 where pre: "preprocess ch data f now = Some (immediate, ch1)"
    using assms by (cases f) (auto simp: handle_packet_def handle_reliable_data_def
        handle_reliable_data_fragment_def bind_eq_Some_iff)
  let ?w = "write_immediate_fragment ch1 (drop 2 data)"
  have rest: "window_start_sequence ch' = window_start_sequence ch1 \<or>
     (\<exists>a. consume_stashed a = Some (ch', res) \<and> stash a = stash ch1 \<and>
        window_start_sequence a = window_start_sequence ch1 + 1)"
  proof (cases "immediate \<and> f")
    case True
    with assms pre show ?thesis
      using write_fragment_frame [of ch1 "drop 2 data"] unfolding handle_packet_def
      by (cases ?w; cases "snd ?w")
        (auto simp: handle_reliable_data_fragment_def next_window_def Let_def
          intro!: exI [of _ "try_process_current_buffer (next_window (fst ?w))"])
  next
    case False
    show ?thesis
    proof (cases immediate)
      case True
      with assms pre False show ?thesis
        by (intro disjI2 exI [of _ "next_window (process_data ch1 (drop 2 data))"])
          (simp add: handle_packet_def handle_reliable_data_def next_window_def Let_def)
    next
      case False
      with assms handle_not_immediate [of ch data f now ch1] pre show ?thesis by simp
    qed
  qed
  with pre show ?thesis by blast
qed

lemma handle_moves:
  assumes "handle_packet ch f data now = Some (ch', res)"
  shows "window_start_sequence ch' \<le> window_start_sequence ch + 1 + int (length (stash ch))"
proof -
  from handle_cases [OF assms] obtain immediate ch1
    where pre: "preprocess ch data f now = Some (immediate, ch1)"
      and rest: "window_start_sequence ch' = window_start_sequence ch1 \<or>
       (\<exists>a. consume_stashed a = Some (ch', res) \<and> stash a = stash ch1 \<and>
          window_start_sequence a = window_start_sequence ch1 + 1)" by blast
  have "window_start_sequence ch' \<le> window_start_sequence a + int (length (stash a))"
    if "consume_stashed a = Some (ch', res)" for a
    using consume_moves [OF that] length_filter_le [of "\<lambda>s. s \<noteq> None" "stash a"] by linarith
  with rest preprocess_frame [OF pre] show ?thesis by force
qed

section \<open>Cumulative acknowledgements trail the window\<close>

lemma flow_told_step:
  assumes step: "flow_step oc ic c now f f'" and inv: "flow_inv oc ic c f" and cfg: "flow_config oc ic"
    and less: "last_ack_all_sequence (fl_in f) < window_start_sequence (fl_in f)"
  shows "last_ack_all_sequence (fl_in f') < window_start_sequence (fl_in f')"
  using step
proof (cases rule: flow_step.cases)
  case (deliver pkt i in' res)
  have m: "6 \<le> max_data_length oc" using cfg by (simp add: flow_config_def)
  have "handled (fresh_receiver c) (flow_packets oc c f) (with_app (fl_taken f) (fl_in f))
      (with_app (fl_taken f) in')"
    using deliver_handled [of oc ic c "flow_link f" i now] m inv deliver
    by (simp add: flow_inv_def with_app_handle)
  then have w: "window_start_sequence (fl_in f) \<le> window_start_sequence in'"
    by (simp add: handled_def grows_def)
  obtain immediate ch1 where pre: "preprocess (fl_in f) (or_payload pkt)
      (or_op_code pkt = ReliableDataFragment) now = Some (immediate, ch1)" and told: "told in' = told ch1"
    using told_handle [OF deliver(6)] by blast
  have "or_payload pkt = be16 (wire_sequence (int i)) @ snd (flow_packets oc c f ! i)"
    by (simp add: deliver(4) packet_wire_def)
  from told_preprocess [OF pre [unfolded this]] told
  have "last_ack_all_sequence in' = last_ack_all_sequence (fl_in f) \<or>
      last_ack_all_sequence in' = window_start_sequence (fl_in f) - 1"
    by (auto simp: told_def split: if_splits)
  with w less show ?thesis by (auto simp: deliver(1))
next
  case tick_in
  with less show ?thesis by (auto simp: input_run_tick_def Let_def send_ack_all_def emit_def)
qed (use less in \<open>auto simp: input_new_def input_take_outgoing_def take_app_data_def\<close>)

lemma later_told:
  "flow_later oc ic c t f g \<Longrightarrow> flow_config oc ic \<Longrightarrow> flow_inv oc ic c f \<Longrightarrow>
   last_ack_all_sequence (fl_in f) < window_start_sequence (fl_in f) \<Longrightarrow>
   last_ack_all_sequence (fl_in g) < window_start_sequence (fl_in g)"
  by (induction rule: flow_later.induct) (auto dest: later_inv intro: flow_told_step)

lemma flow_told:
  assumes "flow_reach oc ic c f" and cfg: "flow_config oc ic"
  shows "last_ack_all_sequence (fl_in f) < window_start_sequence (fl_in f)"
  using assms(1)
proof induction
  case (step f now f')
  then show ?case using flow_told_step [OF step(2) flow_reach_inv [OF step(1) cfg] cfg] by blast
qed (simp add: flow_new_def input_new_def)

section \<open>Recovery\<close>

text \<open>A late tick sends everything in the send window again, from its front.\<close>

lemma late_tick:
  assumes ok: "output_ok ch"
  shows "\<exists>now\<ge>t. out_outgoing (output_run_tick ch now) =
    out_outgoing ch @ map packet_out (take (window_of ch) (dispatch_queue ch))"
proof (cases "dispatch_queue ch")
  case Nil
  then show ?thesis using run_tick_effect [OF ok, of t] by (auto simp: Let_def)
next
  case (Cons e es)
  then have entry: "entry_ok ch 0" using ok by (simp add: output_ok_def)
  show ?thesis
  proof (cases "sent (snd e)")
    case True
    with entry Cons obtain a where a: "sent_at (snd e) = Some a" by (auto simp: entry_ok_def Let_def)
    let ?now = "t + a + rto ch + 1"
    have "oldest_timed_out ch ?now" using Cons True a by (cases e) (simp add: oldest_timed_out_def)
    then show ?thesis using run_tick_effect [OF ok, of ?now] by (intro exI [of _ ?now]) (simp add: Let_def)
  next
    case False
    with entry Cons have "current_dispatch_index ch = 0" by (simp add: entry_ok_def Let_def)
    then show ?thesis using run_tick_effect [OF ok, of t] by (intro exI [of _ t]) (simp add: Let_def)
  qed
qed

text \<open>A late tick of the receiver tells the sender of everything below the window.\<close>

lemma late_tick_in:
  assumes "last_ack_all_sequence ch < window_start_sequence ch - 1"
    and "\<not> acknowledge_all_data (in_config ch)"
  shows "\<exists>now\<ge>t. input_run_tick ch now = send_ack_all (window_start_sequence ch - 1) now ch"
  using assms
  by (intro exI [of _ "t + last_ack_all_time ch + max_ack_delay (in_config ch) + 1"])
    (simp add: input_run_tick_def Let_def)

lemma flow_inv_sized: "flow_inv oc ic c f \<Longrightarrow> sized (fl_in f)"
  by (simp add: flow_inv_def link_inv_defs window_inv_def sized_def)

lemma flow_inv_packets_ok:
  assumes "flow_inv oc ic c f" and "flow_config oc ic" and "i < length (flow_packets oc c f)"
    and "timely (fl_in f) i"
  defines "pkt \<equiv> packet_wire (flow_packets oc c f) i"
  shows "\<exists>in'. handle_packet (fl_in f) (or_op_code pkt = ReliableDataFragment) (or_payload pkt) now =
      Some (in', Inr ()) \<and> window_start_sequence (fl_in f) \<le> window_start_sequence in' \<and>
    (true_sequence (fl_in f) (wire_sequence (int i)) = int i \<and>
     int i \<le> window_start_sequence (fl_in f) + max_queued (fl_in f) \<longrightarrow> has_packet 1 in' (int i))"
proof -
  have "link_inv oc ic c (flow_link f)" and "6 \<le> max_data_length oc"
    using assms(1,2) by (simp_all add: flow_inv_def flow_config_def)
  from deliver_handled [OF this, of i now] assms(3,4) show ?thesis
    by (fastforce simp: pkt_def with_app_handle handled_def grows_def)
qed

text \<open>One round: the packet at the window start is sent again and moves the window.\<close>

lemma send_round:
  assumes inv: "flow_inv oc ic c f" and cfg: "flow_config oc ic" and plain: "\<not> acknowledge_all_data ic"
    and w: "window_start_sequence (fl_in f) < int (length (flow_packets oc c f))"
    and small: "length (flow_packets oc c f) < 2 ^ 61"
    and front: "window_start_sequence (fl_in f) \<in>
      set (map fst (take (max_queued_outgoing oc) (dispatch_queue (fl_out f))))"
  shows "\<exists>g. flow_later oc ic c t f g \<and> fl_sent g = fl_sent f \<and> told (fl_in g) = told (fl_in f) \<and>
    window_start_sequence (fl_in f) < window_start_sequence (fl_in g) \<and>
    window_start_sequence (fl_in g) \<le> window_start_sequence (fl_in f) + 1 + max_queued (fl_in f) \<and>
    map fst (dispatch_queue (fl_out g)) = map fst (dispatch_queue (fl_out f)) \<and>
    max_client_sequence (fl_out g) = max_client_sequence (fl_out f)"
proof -
  let ?o = "fl_out f" and ?ch = "fl_in f" and ?P = "flow_packets oc c f"
  let ?w = "window_start_sequence ?ch" and ?n = "max_queued ?ch"
  let ?i = "nat ?w" let ?pkt = "packet_wire ?P ?i"
  have ok: "output_ok ?o" and carries: "carries ?P ?o" and oc: "out_config ?o = oc"
    and ic: "in_config ?ch = ic"
    using inv by (simp_all add: flow_inv_def link_inv_defs)
  have w0: "0 \<le> ?w" and n: "0 < ?n" using flow_inv_window [OF inv] by simp_all
  have n16: "?n \<le> 65535"
    using uint_bounded [of "max_queued_incoming (in_config ?ch)"] by (simp add: max_queued_def)
  have w62: "?w < 2 ^ 62" and iw: "?i < length ?P" using w w0 small by (simp_all add: nat_less_iff)
  obtain now where now: "t \<le> now" and out: "out_outgoing (output_run_tick ?o now) =
      out_outgoing ?o @ map packet_out (take (window_of ?o) (dispatch_queue ?o))"
    using late_tick [OF ok] by blast
  define o1 where "o1 = output_run_tick ?o now"
  define f1 where "f1 = f\<lparr>fl_out := o1\<rparr>"
  define f2 where "f2 = f1\<lparr>fl_out := o1\<lparr>out_outgoing := []\<rparr>,
    fl_net := fl_net f1 \<union> set (out_outgoing o1)\<rparr>"
  have s1: "flow_step oc ic c now f f1" unfolding f1_def o1_def by (rule flow_step.tick_out)
  have s2: "flow_step oc ic c t f1 f2"
    unfolding f2_def by (rule flow_step.transmit) (simp add: f1_def output_take_outgoing_def)
  have later: "flow_later oc ic c t f f2"
    using later_refl later_step [OF _ s1 now] later_step [OF _ s2] by blast
  note inv2 = later_inv [OF later cfg inv]
  have f2: "fl_in f2 = ?ch" "flow_packets oc c f2 = ?P" "fl_sent f2 = fl_sent f"
    by (simp_all add: f2_def f1_def)
  obtain e where e: "e \<in> set (take (max_queued_outgoing oc) (dispatch_queue ?o))" "fst e = ?w"
    using front by auto
  then have "packet_out e = ?pkt" using carries in_set_takeD [OF e(1)] by (simp add: carries_def)
  moreover have "take (window_of ?o) (dispatch_queue ?o) = take (max_queued_outgoing oc) (dispatch_queue ?o)"
    by (simp add: window_of_def oc min_def)
  ultimately have "?pkt \<in> set (out_outgoing o1)" using e(1) by (force simp: o1_def out)
  then have net: "?pkt \<in> fl_net f2" by (simp add: f2_def)
  have timely: "timely (fl_in f2) ?i" using w0 w62 n16 by (simp add: f2 timely_def)
  have seq: "true_sequence ?ch (wire_sequence ?w) = ?w"
    using true_incoming_current [OF w0 w62] n by (simp add: true_sequence_def)
  obtain in' where h: "handle_packet ?ch (or_op_code ?pkt = ReliableDataFragment) (or_payload ?pkt) t =
      Some (in', Inr ())" and le: "?w \<le> window_start_sequence in'" and has: "has_packet 1 in' ?w"
    using flow_inv_packets_ok [OF inv2 cfg, of ?i t] timely iw w0 seq n by (auto simp: f2)
  define g where "g = f2\<lparr>fl_in := in'\<rparr>"
  have s3: "flow_step oc ic c t f2 g"
    unfolding g_def by (rule flow_step.deliver [OF net _ _ timely, of oc c t in' "Inr ()"])
      (use iw h in \<open>simp_all add: f2\<close>)
  have pay: "or_payload ?pkt = be16 (wire_sequence ?w) @ snd (?P ! ?i)" using w0 by (simp add: packet_wire_def)
  obtain immediate ch1 where "preprocess ?ch (or_payload ?pkt) (or_op_code ?pkt = ReliableDataFragment) t =
      Some (immediate, ch1)" "told in' = told ch1" using told_handle [OF h] by blast
  with told_preprocess [of ?ch "wire_sequence ?w" "snd (?P ! ?i)"] seq n plain
  have told: "told in' = told ?ch" by (simp add: pay ic told_def [of ?ch])
  have up: "window_start_sequence in' \<le> ?w + 1 + ?n"
    using handle_moves [OF h] flow_inv_sized [OF inv] by (simp add: sized_def)
  have "?w < window_start_sequence in'" using has le by (auto simp: has_packet_def)
  moreover have "map fst (dispatch_queue o1) = map fst (dispatch_queue ?o)"
    "max_client_sequence o1 = max_client_sequence ?o"
    using tick_queue [OF ok, of now] by (simp_all add: o1_def)
  moreover have "flow_later oc ic c t f g" using later_step [OF later s3] by simp
  ultimately show ?thesis
    using told up by (intro exI [of _ g]) (simp add: g_def f2_def f1_def)
qed

text \<open>Another: the receiver acknowledges everything below its window, and the sender hears it.\<close>

lemma ack_round:
  assumes inv: "flow_inv oc ic c f" and cfg: "flow_config oc ic" and plain: "\<not> acknowledge_all_data ic"
    and quiet: "in_outgoing (fl_in f) = []"
    and less: "last_ack_all_sequence (fl_in f) < window_start_sequence (fl_in f) - 1"
    and prompt: "prompt (fl_out f) (window_start_sequence (fl_in f)) (fl_in f)"
  shows "\<exists>g. flow_later oc ic c t f g \<and> fl_sent g = fl_sent f \<and> in_outgoing (fl_in g) = [] \<and>
    window_start_sequence (fl_in g) = window_start_sequence (fl_in f) \<and>
    dispatch_queue (fl_out g) =
      filter (\<lambda>e. window_start_sequence (fl_in f) - 1 < fst e) (dispatch_queue (fl_out f)) \<and>
    max_client_sequence (fl_out g) =
      max (max_client_sequence (fl_out f)) (window_start_sequence (fl_in f) - 1)"
proof -
  let ?o = "fl_out f" and ?ch = "fl_in f" and ?w = "window_start_sequence (fl_in f)"
  let ?r = "\<lparr>oc_op_code = AcknowledgeAll, oc_sequence = wire_sequence (?w - 1)\<rparr>"
  have "in_config ?ch = ic" using inv by (rule flow_inv_config)
  with late_tick_in [OF less] plain obtain now
    where now: "t \<le> now" and tick: "input_run_tick ?ch now = send_ack_all (?w - 1) now ?ch" by blast
  define f1 where "f1 = f\<lparr>fl_mark := ?w\<rparr>"
  define ch2 where "ch2 = send_ack_all (?w - 1) now ?ch"
  define f2 where "f2 = f1\<lparr>fl_in := ch2\<rparr>"
  define ch3 where "ch3 = ch2\<lparr>in_outgoing := []\<rparr>"
  define f3 where "f3 = f2\<lparr>fl_in := ch3, fl_acks := fl_acks f2 \<union> (\<lambda>r. (r, fl_mark f2)) ` set (in_outgoing ch2)\<rparr>"
  define g where "g = f3\<lparr>fl_out := flow_notify ?o ?r t\<rparr>"
  have s1: "flow_step oc ic c t f f1" unfolding f1_def by (rule flow_step.mark) (rule quiet)
  have "flow_step oc ic c now f1 (f1\<lparr>fl_in := input_run_tick (fl_in f1) now\<rparr>)" by (rule flow_step.tick_in)
  then have s2: "flow_step oc ic c now f1 f2" by (simp add: f2_def f1_def ch2_def tick)
  have s3: "flow_step oc ic c t f2 f3"
    unfolding f3_def by (rule flow_step.collect) (simp add: f2_def ch3_def input_take_outgoing_def)
  have later3: "flow_later oc ic c t f f3"
    using later_step [OF later_refl s1] later_step [OF _ s2 now] later_step [OF _ s3] by blast
  have same: "same_window ?ch ch3" by (simp add: ch3_def ch2_def same_window_def send_ack_all_def emit_def core_def)
  then have w3: "window_start_sequence ch3 = ?w" "max_queued ch3 = max_queued ?ch"
    by (simp_all add: same_window_def max_queued_def)
  have acks: "(?r, ?w) \<in> fl_acks f3"
    by (simp add: f3_def f2_def f1_def ch2_def quiet)
  have out3: "fl_out f3 = ?o" "fl_in f3 = ch3" by (simp_all add: f3_def f2_def f1_def)
  have prompt3: "prompt (fl_out f3) ?w (fl_in f3)" using prompt by (simp add: prompt_def out3 w3)
  have "flow_step oc ic c t f3 (f3\<lparr>fl_out := flow_notify (fl_out f3) ?r t\<rparr>)"
    by (rule flow_step.acknowledge [OF acks prompt3])
  then have "flow_step oc ic c t f3 g" by (simp add: g_def out3)
  with later3 have later: "flow_later oc ic c t f g" by (rule later_step) simp
  have inv3: "flow_inv oc ic c f3" by (rule later_inv [OF later3 cfg inv])
  have sound: "ack_sound ?w (fl_in f3) ?r" using inv3 acks by (auto simp: flow_inv_parts)
  have q: "max_queued_outgoing oc \<le> 32767" using cfg by (simp add: flow_config_def)
  obtain s where s: "true_incoming (fl_out f3) (oc_sequence ?r) = s" "?w - 1 \<le> s"
    and "oc_op_code ?r = Acknowledge \<and> has_packet 1 (fl_in f3) s \<or>
      oc_op_code ?r = AcknowledgeAll \<and> s < window_start_sequence (fl_in f3)"
    by (rule prompt_read [OF inv3 q sound prompt3])
  then have "s < ?w" by (simp add: out3 w3)
  with s have "true_incoming ?o (oc_sequence ?r) = ?w - 1" by (simp add: out3)
  then have "dispatch_queue (flow_notify ?o ?r t) = filter (\<lambda>e. ?w - 1 < fst e) (dispatch_queue ?o)"
    "max_client_sequence (flow_notify ?o ?r t) = max (max_client_sequence ?o) (?w - 1)"
    using flow_notify_queue [OF flow_inv_output_ok [OF inv], of ?r t] by simp_all
  with later show ?thesis
    by (intro exI [of _ g]) (simp add: g_def f3_def f2_def f1_def ch3_def w3 [unfolded ch3_def])
qed

text \<open>A quiet flow whose queue begins at the window drains, packet by packet.\<close>

definition small_windows :: "output_config \<Rightarrow> input_config \<Rightarrow> bool" where
  "small_windows oc ic \<longleftrightarrow> 0 < max_queued_outgoing oc \<and>
     int (max_queued_outgoing oc) + uint (max_queued_incoming ic) < 32767"

lemma flow_drains:
  assumes cfg: "flow_config oc ic" and win: "small_windows oc ic" and plain: "\<not> acknowledge_all_data ic"
  shows "flow_inv oc ic c f \<Longrightarrow> in_outgoing (fl_in f) = [] \<Longrightarrow>
    last_ack_all_sequence (fl_in f) < window_start_sequence (fl_in f) \<Longrightarrow>
    (\<forall>q\<in>set (map fst (dispatch_queue (fl_out f))). window_start_sequence (fl_in f) \<le> q) \<Longrightarrow>
    window_start_sequence (fl_in f) \<le> max_client_sequence (fl_out f) + 1 \<Longrightarrow>
    max_client_sequence (fl_out f) < window_start_sequence (fl_in f) + int (max_queued_outgoing oc) \<Longrightarrow>
    length (flow_packets oc c f) < 2 ^ 61 \<Longrightarrow>
    \<exists>g. flow_later oc ic c t f g \<and> fl_sent g = fl_sent f \<and> dispatch_queue (fl_out g) = []"
proof (induction "nat (int (length (flow_packets oc c f)) - window_start_sequence (fl_in f))"
    arbitrary: f rule: less_induct)
  case less
  let ?o = "fl_out f" and ?ch = "fl_in f" and ?P = "flow_packets oc c f" and ?n = "max_queued_outgoing oc"
  let ?w = "window_start_sequence ?ch" and ?m = "max_client_sequence ?o"
  note inv = less.prems(1)
  have ok: "output_ok ?o" and carries: "carries ?P ?o" and oc: "out_config ?o = oc" and ic: "in_config ?ch = ic"
    using inv by (simp_all add: flow_inv_def link_inv_defs)
  show ?case
  proof (cases "dispatch_queue ?o")
    case Nil
    then show ?thesis using later_refl by blast
  next
    case (Cons e es)
    have e: "?w \<le> fst e" "fst e < int (length ?P)"
      using less.prems(4) carries by (simp_all add: Cons carries_def)
    then have w: "?w < int (length ?P)" by simp
    have w0: "0 \<le> ?w" using flow_inv_window [OF inv] by blast
    have "\<not> has_packet 1 ?ch ?w" by (simp add: has_packet_def)
    then have "?w \<in> fst ` set (dispatch_queue ?o)"
      using inv w w0 unfolding flow_inv_parts by (metis int_nat_eq nat_less_iff)
    moreover have "sorted_wrt (<) (map fst (dispatch_queue ?o))" using ok by (simp add: output_ok_def)
    ultimately have "fst e = ?w" using e(1) by (auto simp: Cons)
    then have front: "?w \<in> set (map fst (take ?n (dispatch_queue ?o)))"
      using win by (cases ?n) (simp_all add: Cons small_windows_def)
    obtain g where g: "flow_later oc ic c t f g" "fl_sent g = fl_sent f" "told (fl_in g) = told ?ch"
      and gw: "?w < window_start_sequence (fl_in g)"
        "window_start_sequence (fl_in g) \<le> ?w + 1 + max_queued ?ch"
      and gq: "map fst (dispatch_queue (fl_out g)) = map fst (dispatch_queue ?o)"
      and gm: "max_client_sequence (fl_out g) = ?m"
      using send_round [OF inv cfg plain w less.prems(7) front] by blast
    let ?v = "window_start_sequence (fl_in g)"
    have ginv: "flow_inv oc ic c g" by (rule later_inv [OF g(1) cfg inv])
    have gP: "flow_packets oc c g = ?P" by (simp add: flow_packets_def g(2))
    have mq: "max_queued (fl_in g) = uint (max_queued_incoming ic)" "max_queued ?ch = uint (max_queued_incoming ic)"
      using flow_inv_config(2) [OF ginv] ic by (simp_all add: max_queued_def)
    have win': "int ?n + uint (max_queued_incoming ic) < 32767" using win by (simp add: small_windows_def)
    have v: "?v \<le> int (length ?P)" using flow_inv_window [OF ginv] by (simp add: gP)
    have "int ?n < 32767" using win' uint_ge_0 [of "max_queued_incoming ic"] by linarith
    then have "?m < 2 ^ 62" using less.prems(6,7) w by simp
    then have prompt: "prompt (fl_out g) ?v (fl_in g)"
      using gw gm mq win' less.prems(5,6) flow_inv_config(1) [OF ginv] by (simp add: prompt_def)
    have "in_outgoing (fl_in g) = []" "last_ack_all_sequence (fl_in g) < ?v - 1"
      using g(3) less.prems(2,3) gw(1) by (simp_all add: told_def)
    from ack_round [OF ginv cfg plain this prompt] obtain h where h: "flow_later oc ic c t g h"
      "fl_sent h = fl_sent g" "in_outgoing (fl_in h) = []" "window_start_sequence (fl_in h) = ?v"
      "dispatch_queue (fl_out h) = filter (\<lambda>e. ?v - 1 < fst e) (dispatch_queue (fl_out g))"
      "max_client_sequence (fl_out h) = max ?m (?v - 1)"
      unfolding gm by blast
    have fh: "flow_later oc ic c t f h" by (rule later_trans [OF h(1) g(1)])
    have hinv: "flow_inv oc ic c h" by (rule later_inv [OF fh cfg inv])
    have hP: "flow_packets oc c h = ?P" by (simp add: flow_packets_def h(2) g(2))
    have "\<exists>k. flow_later oc ic c t h k \<and> fl_sent k = fl_sent h \<and> dispatch_queue (fl_out k) = []"
    proof (rule less.hyps [OF _ hinv h(3)])
      show "nat (int (length (flow_packets oc c h)) - window_start_sequence (fl_in h)) <
          nat (int (length ?P) - ?w)"
        using gw(1) v by (simp add: hP h(4))
      show "last_ack_all_sequence (fl_in h) < window_start_sequence (fl_in h)"
        using later_told [OF fh cfg inv less.prems(3)] .
      show "\<forall>q\<in>set (map fst (dispatch_queue (fl_out h))). window_start_sequence (fl_in h) \<le> q"
        by (auto simp: h(4,5))
      show "window_start_sequence (fl_in h) \<le> max_client_sequence (fl_out h) + 1"
        by (simp add: h(4,6))
      show "max_client_sequence (fl_out h) < window_start_sequence (fl_in h) + int ?n"
        using less.prems(6) gw(1) win by (simp add: h(4,6) small_windows_def)
      show "length (flow_packets oc c h) < 2 ^ 61" using less.prems(7) by (simp add: hP)
    qed
    then show ?thesis using later_trans [OF _ fh] h(2) g(2) by auto
  qed
qed

lemma later_reach: "flow_later oc ic c t f g \<Longrightarrow> flow_reach oc ic c f \<Longrightarrow> flow_reach oc ic c g"
  by (induction rule: flow_later.induct) (auto intro: flow_reach.step)

lemma sorted_front:
  assumes "sorted_wrt (<) xs" and "w \<in> set xs" and "q \<in> set (take n xs)" and "w \<le> (q :: int)"
  shows "w \<in> set (take n xs)"
proof (rule ccontr)
  assume "w \<notin> set (take n xs)"
  moreover have "set xs = set (take n xs) \<union> set (drop n xs)" by (metis append_take_drop_id set_append)
  ultimately have "w \<in> set (drop n xs)" using assms(2) by blast
  moreover have "sorted_wrt (<) (take n xs @ drop n xs)" using assms(1) by simp
  ultimately have "q < w" using assms(3) unfolding sorted_wrt_append by blast
  with assms(4) show False by simp
qed

text \<open>What the sender has been told of, against what has been received.\<close>

definition abreast :: "output_config \<Rightarrow> flow \<Rightarrow> bool" where
  "abreast oc f \<longleftrightarrow> (let m = max_client_sequence (fl_out f); w = window_start_sequence (fl_in f);
       n = int (max_queued_outgoing oc) in m < w + n \<and> w \<le> m + n + 1)"

text \<open>The receiver has something to acknowledge, or the sender something new it may send.\<close>

definition wakeable :: "output_config \<Rightarrow> flow \<Rightarrow> bool" where
  "wakeable oc f \<longleftrightarrow> (let w = window_start_sequence (fl_in f); queue = dispatch_queue (fl_out f) in
     last_ack_all_sequence (fl_in f) < w - 1 \<or> queue = [] \<or>
     (\<exists>q\<in>set (map fst (take (max_queued_outgoing oc) queue)). w \<le> q))"

lemma woken_drains:
  assumes cfg: "flow_config oc ic" and win: "small_windows oc ic" and plain: "\<not> acknowledge_all_data ic"
    and inv: "flow_inv oc ic c f" and quiet: "in_outgoing (fl_in f) = []"
    and less: "last_ack_all_sequence (fl_in f) < window_start_sequence (fl_in f) - 1"
    and m: "max_client_sequence (fl_out f) < window_start_sequence (fl_in f) + int (max_queued_outgoing oc)"
    and w: "window_start_sequence (fl_in f) \<le> max_client_sequence (fl_out f) +
      int (max_queued_outgoing oc) + uint (max_queued_incoming ic) + 2"
    and small: "length (flow_packets oc c f) < 2 ^ 61"
  shows "\<exists>g. flow_later oc ic c t f g \<and> fl_sent g = fl_sent f \<and> dispatch_queue (fl_out g) = []"
proof -
  let ?w = "window_start_sequence (fl_in f)" and ?m = "max_client_sequence (fl_out f)"
  let ?n = "max_queued_outgoing oc"
  have bound: "int ?n + uint (max_queued_incoming ic) < 32767" "0 \<le> uint (max_queued_incoming ic)"
    using win by (simp_all add: small_windows_def)
  have mq: "max_queued (fl_in f) = uint (max_queued_incoming ic)"
    using flow_inv_config(2) [OF inv] by (simp add: max_queued_def)
  have "?w \<le> int (length (flow_packets oc c f))" using flow_inv_window [OF inv] by blast
  moreover have "int ?n < 32767" using bound by linarith
  ultimately have "?m < 2 ^ 62" using m small by simp
  then have "prompt (fl_out f) ?w (fl_in f)"
    using m w bound(1) flow_inv_config(1) [OF inv] by (simp add: prompt_def mq)
  from ack_round [OF inv cfg plain quiet less this] obtain g where g: "flow_later oc ic c t f g"
    "fl_sent g = fl_sent f" "in_outgoing (fl_in g) = []" "window_start_sequence (fl_in g) = ?w"
    "dispatch_queue (fl_out g) = filter (\<lambda>e. ?w - 1 < fst e) (dispatch_queue (fl_out f))"
    "max_client_sequence (fl_out g) = max ?m (?w - 1)" by blast
  have "\<exists>h. flow_later oc ic c t g h \<and> fl_sent h = fl_sent g \<and> dispatch_queue (fl_out h) = []"
  proof (rule flow_drains [OF cfg win plain later_inv [OF g(1) cfg inv] g(3)])
    show "last_ack_all_sequence (fl_in g) < window_start_sequence (fl_in g)"
      using less by (intro later_told [OF g(1) cfg inv]) simp
    show "max_client_sequence (fl_out g) < window_start_sequence (fl_in g) + int ?n"
      using m win by (simp add: g(4,6) small_windows_def)
    show "length (flow_packets oc c g) < 2 ^ 61" using small by (simp add: flow_packets_def g(2))
  qed (auto simp: g(4-6))
  with later_trans [OF _ g(1)] g(2) show ?thesis by auto
qed

lemma wakeable_drains:
  assumes cfg: "flow_config oc ic" and win: "small_windows oc ic" and plain: "\<not> acknowledge_all_data ic"
    and inv: "flow_inv oc ic c f" and quiet: "in_outgoing (fl_in f) = []"
    and told: "last_ack_all_sequence (fl_in f) < window_start_sequence (fl_in f)"
    and abreast: "abreast oc f" and wake: "wakeable oc f" and small: "length (flow_packets oc c f) < 2 ^ 61"
  shows "\<exists>g. flow_later oc ic c t f g \<and> fl_sent g = fl_sent f \<and> dispatch_queue (fl_out g) = []"
proof -
  let ?w = "window_start_sequence (fl_in f)" and ?m = "max_client_sequence (fl_out f)"
  let ?n = "max_queued_outgoing oc" and ?queue = "dispatch_queue (fl_out f)" and ?P = "flow_packets oc c f"
  have near: "?m < ?w + int ?n" "?w \<le> ?m + int ?n + 1" using abreast by (simp_all add: abreast_def Let_def)
  consider "?queue = []" | "last_ack_all_sequence (fl_in f) < ?w - 1"
    | q where "q \<in> set (map fst (take ?n ?queue))" "?w \<le> q"
    using wake by (auto simp: wakeable_def Let_def)
  then show ?thesis
  proof cases
    case 1
    then show ?thesis using later_refl by blast
  next
    case 2
    moreover have "?w \<le> ?m + int ?n + uint (max_queued_incoming ic) + 2"
      using near(2) uint_ge_0 [of "max_queued_incoming ic"] by linarith
    ultimately show ?thesis using woken_drains [OF cfg win plain inv quiet _ near(1) _ small] by blast
  next
    case q: 3
    have carries: "carries ?P (fl_out f)" and sorted: "sorted_wrt (<) (map fst ?queue)"
      using inv by (simp_all add: flow_inv_def link_inv_defs output_ok_def)
    have "q < int (length ?P)" using q(1) carries by (auto simp: carries_def dest: in_set_takeD)
    then have w: "?w < int (length ?P)" using q(2) by linarith
    have "\<not> has_packet 1 (fl_in f) ?w" by (simp add: has_packet_def)
    then have "?w \<in> set (map fst ?queue)"
      using inv w flow_inv_window [OF inv] unfolding flow_inv_parts set_map by (metis int_nat_eq nat_less_iff)
    from sorted_front [OF sorted this] q have front: "?w \<in> set (map fst (take ?n ?queue))"
      by (simp add: take_map)
    obtain g where g: "flow_later oc ic c t f g" "fl_sent g = fl_sent f" "told (fl_in g) = told (fl_in f)"
        "?w < window_start_sequence (fl_in g)"
        "window_start_sequence (fl_in g) \<le> ?w + 1 + max_queued (fl_in f)"
        "max_client_sequence (fl_out g) = ?m"
      using send_round [OF inv cfg plain w small front] by blast
    have "max_queued (fl_in f) = uint (max_queued_incoming ic)"
      using flow_inv_config(2) [OF inv] by (simp add: max_queued_def)
    then have "\<exists>h. flow_later oc ic c t g h \<and> fl_sent h = fl_sent g \<and> dispatch_queue (fl_out h) = []"
      using g quiet told near small
      by (intro woken_drains [OF cfg win plain later_inv [OF g(1) cfg inv]])
        (simp_all add: told_def flow_packets_def)
    with later_trans [OF _ g(1)] g(2) show ?thesis by auto
  qed
qed

section \<open>Two flows\<close>

text \<open>One message has been enqueued.\<close>

lemma flow_enqueued:
  assumes "max_data_length oc = 508"
  shows "\<exists>f. flow_reach oc ic None f \<and> fl_sent f = [[7, 8]] \<and>
    fl_out f = append_packets [(False, [7, 8])] (output_new oc None 0) \<and> fl_in f = input_new ic None 0 \<and>
    flow_packets oc None f = [(False, [7, 8])] \<and> fl_net f = {}"
proof -
  let ?new = "flow_new oc ic None"
  let ?o = "append_packets [(False, [7, 8])] (output_new oc None 0)"
  let ?f = "?new\<lparr>fl_out := ?o, fl_sent := fl_sent ?new @ [[7, 8]]\<rparr>"
  have "enqueue_data (fl_out ?new) [7, 8] = Some ?o"
    using assms by (simp add: flow_new_def, intro enqueue_short) (simp_all add: output_new_def)
  then have "flow_step oc ic None 0 ?new ?f"
    by (intro flow_step.send [where f = ?new]) (simp_all add: message_ok_def MULTI_DATA_INDICATOR_def)
  then have "flow_reach oc ic None ?f" using flow_reach.start flow_reach.step by blast
  moreover have "flow_packets oc None ?f = [(False, [7, 8])]"
    using assms by (simp add: flow_packets_def flow_new_def seal_def packets_of_def)
  ultimately show ?thesis by (intro exI [of _ ?f]) (simp add: flow_new_def)
qed

definition narrow_config :: output_config where
  "narrow_config = output_config_default\<lparr>max_queued_outgoing := 1\<rparr>"

lemma narrow_simps [simp]: "max_data_length narrow_config = 508" "max_queued_outgoing narrow_config = 1"
  by (simp_all add: narrow_config_def output_config_default_def)

lemma narrow_ok: "flow_config narrow_config input_config_default"
  by (simp add: flow_config_def input_config_default_def)

text \<open>The message has been received, and its acknowledgement is on the network.\<close>

lemma stall_demo:
  "\<exists>f. flow_reach narrow_config input_config_default None f \<and> fl_sent f = [[7, 8]] \<and>
     stalled narrow_config None (from_secs 2) (f\<lparr>fl_acks := {}\<rparr>)"
proof -
  let ?oc = narrow_config and ?ic = input_config_default and ?P = "[(False, [7, 8])] :: rpacket list"
  let ?pkt = "packet_wire ?P 0"
  obtain f1 where f1: "flow_reach ?oc ?ic None f1" "fl_sent f1 = [[7, 8]]"
      "fl_out f1 = append_packets ?P (output_new ?oc None 0)" "fl_in f1 = input_new ?ic None 0"
      "flow_packets ?oc None f1 = ?P" "fl_net f1 = {}"
    using flow_enqueued [of ?oc ?ic] by auto
  define o2 where "o2 = output_run_tick (fl_out f1) 1"
  define f3 where "f3 = f1\<lparr>fl_out := o2\<lparr>out_outgoing := []\<rparr>, fl_net := set (out_outgoing o2)\<rparr>"
  have "flow_step ?oc ?ic None 1 f1 (f1\<lparr>fl_out := o2\<rparr>)" unfolding o2_def by (rule flow_step.tick_out)
  moreover have "flow_step ?oc ?ic None 1 (f1\<lparr>fl_out := o2\<rparr>) f3"
    using flow_step.transmit [of "f1\<lparr>fl_out := o2\<rparr>"] by (simp add: f3_def f1(6) output_take_outgoing_def)
  ultimately have reach3: "flow_reach ?oc ?ic None f3" using f1(1) flow_reach.step by blast
  have ok: "output_ok (fl_out f1)" unfolding f1(3) by (intro output_ok_append output_ok_new)
  have out: "out_outgoing o2 = [?pkt]"
    using run_tick_effect [OF ok, of 1] unfolding o2_def f1(3)
    by (simp add: append_packets_def output_new_def oldest_timed_out_def
        window_of_def stash_entry_def packet_out_def packet_wire_def Let_def)
  have queue: "map fst (dispatch_queue o2) = [0]"
    using tick_queue [OF ok, of 1] by (simp add: o2_def f1(3) append_packets_def output_new_def stash_entry_def)
  have f3: "fl_in f3 = input_new ?ic None 0" "flow_packets ?oc None f3 = ?P" "fl_net f3 = {?pkt}"
    "fl_sent f3 = [[7, 8]]"
    by (simp_all add: f3_def f1 out)
  have n: "max_queued (input_new ?ic None 0) = 256" "window_start_sequence (input_new ?ic None 0) = 0"
    by (simp_all add: max_queued_def input_new_def input_config_default_def)
  have timely: "timely (fl_in f3) 0" by (simp add: f3 timely_def n)
  have seq: "true_sequence (input_new ?ic None 0) (wire_sequence 0) = 0"
    using true_incoming_current [of 0 256] by (simp add: true_sequence_def n)
  obtain in' where h: "handle_packet (fl_in f3) (or_op_code ?pkt = ReliableDataFragment) (or_payload ?pkt) 2 =
      Some (in', Inr ())" and le: "0 \<le> window_start_sequence in'" and has: "has_packet 1 in' 0"
    using flow_inv_packets_ok [OF flow_reach_inv [OF reach3 narrow_ok] narrow_ok, of 0 2] timely seq
    by (auto simp: f3 n)
  define f4 where "f4 = f3\<lparr>fl_in := in'\<rparr>"
  have "flow_step ?oc ?ic None 2 f3 f4"
    unfolding f4_def by (rule flow_step.deliver [OF _ _ _ timely h]) (simp_all add: f3)
  with reach3 have reach4: "flow_reach ?oc ?ic None f4" by (rule flow_reach.step)
  note inv4 = flow_reach_inv [OF reach4 narrow_ok]
  have w: "window_start_sequence in' = 1"
    using flow_inv_window [OF inv4] has le by (simp add: f4_def f3 has_packet_def)
  have ic: "in_config in' = ?ic" using flow_inv_config(2) [OF inv4] by (simp add: f4_def)
  obtain immediate ch1 where "preprocess (fl_in f3) (or_payload ?pkt) (or_op_code ?pkt = ReliableDataFragment) 2 =
      Some (immediate, ch1)" "told in' = told ch1" using told_handle [OF h] by blast
  with told_preprocess [of "fl_in f3" "wire_sequence 0" "[7, 8]"]
  have told: "told in' = ([], -1, 0)"
    by (simp add: f3 packet_wire_def seq n) (simp add: input_new_def input_config_default_def)
  let ?in = "send_ack_all 0 (from_secs 1) in'"
  have tick: "input_run_tick in' (from_secs 1) = ?in"
    using told by (simp add: input_run_tick_def w ic told_def input_config_default_def from_secs_def from_millis_def)
  define in6 where "in6 = ?in\<lparr>in_outgoing := []\<rparr>"
  have in6: "window_start_sequence in6 = 1" "in_outgoing in6 = []" "last_ack_all_sequence in6 = 0"
    "last_ack_all_time in6 = from_secs 1" "in_config in6 = ?ic" "max_queued in6 = 256"
    by (simp_all add: in6_def send_ack_all_def emit_def w ic max_queued_def input_config_default_def)
  define f6 where "f6 = f4\<lparr>fl_in := in6,
    fl_acks := fl_acks f4 \<union> (\<lambda>r. (r, fl_mark f4)) ` set (in_outgoing ?in)\<rparr>"
  have "flow_step ?oc ?ic None (from_secs 1) f4 (f4\<lparr>fl_in := ?in\<rparr>)"
    using flow_step.tick_in [of ?oc ?ic None "from_secs 1" f4] tick by (simp add: f4_def)
  moreover have "flow_step ?oc ?ic None (from_secs 1) (f4\<lparr>fl_in := ?in\<rparr>) f6"
    using flow_step.collect [of "f4\<lparr>fl_in := ?in\<rparr>" "in_outgoing ?in"]
    by (simp add: f6_def in6_def input_take_outgoing_def del: outgoing_ops)
  ultimately have "flow_reach ?oc ?ic None f6" using reach4 flow_reach.step by blast
  moreover have "fl_sent f6 = [[7, 8]]" by (simp add: f6_def f4_def f3)
  moreover have "stalled ?oc None (from_secs 2) (f6\<lparr>fl_acks := {}\<rparr>)"
  proof -
    obtain p where p: "dispatch_queue o2 = [(0, p)]" using queue by auto
    have "behind ?P in6 ?pkt" unfolding behind_def by (intro exI [of _ 0]) (simp add: in6)
    moreover have "fl_net f4 = {?pkt}" "flow_packets ?oc None f4 = ?P" by (simp_all add: f4_def f3)
    moreover have "fl_out f4 = o2\<lparr>out_outgoing := []\<rparr>" by (simp add: f4_def f3_def)
    ultimately show ?thesis
      by (simp add: stalled_def Let_def f6_def in6 p)
        (simp add: input_config_default_def from_secs_def from_millis_def)
  qed
  ultimately show ?thesis by blast
qed

lemma flow_inv_lost:
  assumes "flow_inv oc ic c f"
  shows "flow_inv oc ic c (f\<lparr>fl_acks := {}\<rparr>)" and "flow_inv oc ic c (f\<lparr>fl_net := {}, fl_acks := {}\<rparr>)"
proof -
  have "flow_link (f\<lparr>fl_net := {}, fl_acks := {}\<rparr>) = flow_link f\<lparr>lk_net := {}\<rparr>"
    by (simp add: flow_link_def)
  with assms show "flow_inv oc ic c (f\<lparr>fl_net := {}, fl_acks := {}\<rparr>)"
    by (simp add: flow_inv_parts link_inv_defs sent_packets_def flow_packets_def)
  show "flow_inv oc ic c (f\<lparr>fl_acks := {}\<rparr>)"
    using assms by (simp add: flow_inv_parts flow_link_def)
qed

section \<open>Properties\<close>

text \<open>C8: Lost acknowledgements can stall a channel for ever. When a full send window has been
  received and acknowledged, the acknowledgements are lost and the acknowledgement delay is over,
  then whatever happens from then on - ticks of either end, repetitions, further messages - the
  receiver never acknowledges again, every packet that leaves the sender is one the receiver has had,
  nothing leaves the send queue, and nothing more is handed over.\<close>

theorem lost_acknowledgement_stalls:
  assumes "flow_reach oc ic c f" and "flow_config oc ic"
    and "stalled oc c t (f\<lparr>fl_acks := {}\<rparr>)" and "flow_later oc ic c t (f\<lparr>fl_acks := {}\<rparr>) g"
  shows "fl_acks g = {} \<and> in_outgoing (fl_in g) = [] \<and>
    (\<forall>pkt\<in>fl_net g. behind (flow_packets oc c g) (fl_in g) pkt) \<and>
    window_start_sequence (fl_in g) = window_start_sequence (fl_in f) \<and>
    prefix (map fst (dispatch_queue (fl_out f))) (map fst (dispatch_queue (fl_out g))) \<and>
    fl_taken g @ app_data (fl_in g) = fl_taken f @ app_data (fl_in f)"
  using stalled_later [OF assms(4,2) flow_inv_lost(1) [OF flow_reach_inv [OF assms(1,2)]] assms(3)]
  by (simp add: stalled_def unmoved_def Let_def)

theorem lost_acknowledgement_stalls_witness:
  "\<exists>f. flow_reach narrow_config input_config_default None f \<and> fl_sent f = [[7, 8]] \<and>
     (\<forall>g. flow_later narrow_config input_config_default None (from_secs 2) (f\<lparr>fl_acks := {}\<rparr>) g \<longrightarrow>
       in_outgoing (fl_in g) = [] \<and>
       prefix (map fst (dispatch_queue (fl_out f))) (map fst (dispatch_queue (fl_out g))))"
  using stall_demo lost_acknowledgement_stalls [OF _ narrow_ok] by blast

text \<open>C9: A flow that acknowledges periodically can recover from any loss while it is wakeable. If the
  receiver does not acknowledge every packet singly (\<open>acknowledge_all_data\<close> is off) and the windows
  are small, then in every reachable state with fewer than \<open>2 ^ 61\<close> packets in which the receiver
  has something it has not acknowledged or the sender may still send something it has not had, and in
  which the sender has been told of what was received to within a send window, there is from every
  instant on a course of events in which everything sent so far is delivered and the send queue
  becomes empty - even when everything on the network is lost. (With \<open>acknowledge_all_data\<close> there is
  no periodic acknowledgement, and nothing like it is claimed.)\<close>

theorem flow_recovers:
  assumes "flow_reach oc ic c f" and "flow_config oc ic" and "small_windows oc ic"
    and "\<not> acknowledge_all_data ic" and "length (flow_packets oc c f) < 2 ^ 61"
    and "abreast oc f" and "wakeable oc f"
  shows "\<exists>g. flow_later oc ic c t (f\<lparr>fl_net := {}, fl_acks := {}\<rparr>) g \<and> fl_sent g = fl_sent f \<and>
    dispatch_queue (fl_out g) = [] \<and> fl_taken g = fl_sent f"
proof -
  let ?f = "f\<lparr>fl_net := {}, fl_acks := {}\<rparr>"
  let ?in = "(fl_in f)\<lparr>in_outgoing := []\<rparr>"
  let ?h = "?f\<lparr>fl_in := ?in, fl_acks := fl_acks ?f \<union> (\<lambda>r. (r, fl_mark ?f)) ` set (in_outgoing (fl_in f))\<rparr>"
  have inv: "flow_inv oc ic c ?f" by (rule flow_inv_lost(2) [OF flow_reach_inv [OF assms(1,2)]])
  have "flow_step oc ic c t ?f ?h" by (rule flow_step.collect) (simp add: input_take_outgoing_def)
  then have h: "flow_later oc ic c t ?f ?h" using later_refl later_step by blast
  have "flow_packets oc c ?h = flow_packets oc c f" by (simp add: flow_packets_def)
  then obtain k where k: "flow_later oc ic c t ?h k" "fl_sent k = fl_sent f" "dispatch_queue (fl_out k) = []"
    using wakeable_drains [OF assms(2-4) later_inv [OF h assms(2) inv], of t] assms(5-7)
      flow_told [OF assms(1,2)] by (auto simp: abreast_def wakeable_def)
  have later: "flow_later oc ic c t ?f k" by (rule later_trans [OF k(1) h])
  let ?g = "k\<lparr>fl_in := (fl_in k)\<lparr>app_data := []\<rparr>, fl_taken := fl_taken k @ app_data (fl_in k)\<rparr>"
  have "flow_step oc ic c t k ?g" by (rule flow_step.take) (simp add: take_app_data_def)
  with later have "flow_later oc ic c t ?f ?g" by (rule later_step) simp
  moreover have "fl_taken ?g = fl_sent f"
    using flow_inv_complete [OF later_inv [OF later assms(2) inv] assms(2) k(3)] k(2) by simp
  ultimately show ?thesis using k(2,3) by (intro exI [of _ ?g]) simp
qed

theorem flow_recovers_witness:
  "\<exists>f g. flow_reach output_config_default input_config_default None f \<and> fl_sent f = [[7, 8]] \<and>
     flow_later output_config_default input_config_default None 5 (f\<lparr>fl_net := {}, fl_acks := {}\<rparr>) g \<and>
     fl_taken g = [[7, 8]] \<and> dispatch_queue (fl_out g) = []"
proof -
  let ?oc = output_config_default and ?ic = input_config_default
  have cfg: "flow_config ?oc ?ic" "small_windows ?oc ?ic" "\<not> acknowledge_all_data ?ic"
    by (simp_all add: flow_config_def small_windows_def output_config_default_def input_config_default_def)
  obtain f where f: "flow_reach ?oc ?ic None f" "fl_sent f = [[7, 8]]"
    "fl_out f = append_packets [(False, [7, 8])] (output_new ?oc None 0)" "fl_in f = input_new ?ic None 0"
    "flow_packets ?oc None f = [(False, [7, 8])]"
    using flow_enqueued [of ?oc ?ic] by (auto simp: output_config_default_def)
  have "abreast ?oc f" "wakeable ?oc f"
    by (simp_all add: abreast_def wakeable_def f append_packets_def output_new_def input_new_def
        stash_entry_def output_config_default_def)
  then show ?thesis
    using flow_recovers [OF f(1) cfg, of 5] f(1,2,5) by (fastforce simp: f(2))
qed

end
