(* ===== verification/Soe_Multiplexer.thy ===== *)
theory Soe_Multiplexer
  imports Soe_Session "HOL-Library.AList"
begin

text \<open>
  The socket handler (\<open>src/socket.rs\<close>): many sessions over one socket, keyed by remote
  address. The \<open>HashMap\<close> of sessions is an association list with distinct keys; its
  iteration order, which the map does not fix, is the order of the list. The address type is a
  type variable, \<open>RemoteAddr::same_host\<close> a parameter \<open>same_host\<close>, the transport a pair of
  functions on a transport state. A panic is \<open>None\<close>.
\<close>

section \<open>State\<close>

record socket_config =
  default_session_params :: session_parameters
  app_params :: "rc4_key_state option"
  allow_port_remaps :: bool
  base_rng_seed :: u64

datatype 'a SocketEvent =
    SessionOpened 'a
  | DataReceived 'a bytes Channel
  | SessionClosed 'a DisconnectReason

record 'a multiplexer =
  mx_config :: socket_config
  mx_sessions :: "('a \<times> session) list"
  mx_outgoing :: "('a \<times> bytes) list"
  mx_events :: "'a SocketEvent list"
  mx_next_seed :: u64

definition mux_new :: "socket_config \<Rightarrow> 'a multiplexer" where
  "mux_new config = \<lparr>mx_config = config, mx_sessions = [], mx_outgoing = [], mx_events = [],
     mx_next_seed = base_rng_seed config\<rparr>"

definition session_count :: "'a multiplexer \<Rightarrow> nat" where
  "session_count m = length (mx_sessions m)"

definition mux_session :: "'a multiplexer \<Rightarrow> 'a \<Rightarrow> session option" where
  "mux_session m remote = map_of (mx_sessions m) remote"

definition mux_take_outgoing :: "'a multiplexer \<Rightarrow> ('a \<times> bytes) list \<times> 'a multiplexer" where
  "mux_take_outgoing m = (mx_outgoing m, m\<lparr>mx_outgoing := []\<rparr>)"

definition mux_take_events :: "'a multiplexer \<Rightarrow> 'a SocketEvent list \<times> 'a multiplexer" where
  "mux_take_events m = (mx_events m, m\<lparr>mx_events := []\<rparr>)"

definition set_session :: "'a \<Rightarrow> session \<Rightarrow> 'a multiplexer \<Rightarrow> 'a multiplexer" where
  "set_session remote s m = m\<lparr>mx_sessions := AList.update remote s (mx_sessions m)\<rparr>"

section \<open>Draining\<close>

text \<open>The events of a drained session: openings, then data, then closings.\<close>

definition drained_events :: "'a \<Rightarrow> SessionEvent list \<Rightarrow> received_data list \<Rightarrow> 'a SocketEvent list" where
  "drained_events remote session_events received =
     concat (map (\<lambda>e. case e of Opened \<Rightarrow> [SessionOpened remote] | Closed r \<Rightarrow> []) session_events) @
     map (\<lambda>d. DataReceived remote (rc_data d) (rc_channel d)) received @
     concat (map (\<lambda>e. case e of Opened \<Rightarrow> [] | Closed r \<Rightarrow> [SessionClosed remote r]) session_events)"

definition drain_into ::
    "'a \<Rightarrow> session \<Rightarrow> ('a \<times> bytes) list \<Rightarrow> 'a SocketEvent list \<Rightarrow>
     session \<times> ('a \<times> bytes) list \<times> 'a SocketEvent list" where
  "drain_into remote s outgoing events =
     (let (dgs, s) = take_outgoing s;
          outgoing = outgoing @ map (\<lambda>dg. (remote, dg)) dgs;
          (session_events, s) = take_events s;
          (received, s) = take_received s in
      (s, outgoing, events @ drained_events remote session_events received))"

definition drain_session :: "'a \<Rightarrow> 'a multiplexer \<Rightarrow> 'a multiplexer" where
  "drain_session remote m = (case map_of (mx_sessions m) remote of
      None \<Rightarrow> m
    | Some s \<Rightarrow>
        let (s, outgoing, events) = drain_into remote s (mx_outgoing m) (mx_events m) in
        (set_session remote s m)\<lparr>mx_outgoing := outgoing, mx_events := events\<rparr>)"

definition remove_if_terminated :: "'a \<Rightarrow> 'a multiplexer \<Rightarrow> 'a multiplexer" where
  "remove_if_terminated remote m = (case map_of (mx_sessions m) remote of
      None \<Rightarrow> m
    | Some s \<Rightarrow>
        if ss_state s = Terminated
        then m\<lparr>mx_sessions := AList.delete remote (mx_sessions m)\<rparr> else m)"

section \<open>Sessions\<close>

definition create_session ::
    "'a \<Rightarrow> SessionMode \<Rightarrow> instant \<Rightarrow> 'a multiplexer \<Rightarrow> 'a multiplexer" where
  "create_session remote mode now m =
     (let seed = mx_next_seed m; m = m\<lparr>mx_next_seed := mx_next_seed m + 1\<rparr>;
          s = session_new mode (default_session_params (mx_config m)) (app_params (mx_config m))
                seed now in
      set_session remote s m)"

text \<open>\<open>if let Some(session) = self.sessions.get_mut(remote)\<close> with a call that may panic.\<close>

definition with_session ::
    "'a \<Rightarrow> (session \<Rightarrow> session option) \<Rightarrow> 'a multiplexer \<Rightarrow> 'a multiplexer option" where
  "with_session remote f m = (case map_of (mx_sessions m) remote of
      None \<Rightarrow> Some m
    | Some s \<Rightarrow> do { s \<leftarrow> f s; Some (set_session remote s m) })"

definition mux_connect :: "'a multiplexer \<Rightarrow> 'a \<Rightarrow> instant \<Rightarrow> 'a multiplexer option" where
  "mux_connect m remote now = do {
     m \<leftarrow> with_session remote send_session_request (create_session remote Client now m);
     Some (drain_session remote m)
   }"

definition mux_enqueue_data_on ::
    "'a multiplexer \<Rightarrow> 'a \<Rightarrow> bytes \<Rightarrow> Channel \<Rightarrow> (bool \<times> 'a multiplexer) option" where
  "mux_enqueue_data_on m remote data channel = do {
     (queued, m) \<leftarrow> (case map_of (mx_sessions m) remote of
         Some s \<Rightarrow> do { (q, s) \<leftarrow> enqueue_data_on s data channel; Some (q, set_session remote s m) }
       | None \<Rightarrow> Some (False, m));
     Some (queued, drain_session remote m)
   }"

definition mux_enqueue_data :: "'a multiplexer \<Rightarrow> 'a \<Rightarrow> bytes \<Rightarrow> (bool \<times> 'a multiplexer) option" where
  "mux_enqueue_data m remote data = mux_enqueue_data_on m remote data (Reliable 0)"

definition mux_terminate ::
    "'a multiplexer \<Rightarrow> 'a \<Rightarrow> DisconnectReason \<Rightarrow> instant \<Rightarrow> 'a multiplexer option" where
  "mux_terminate m remote reason now = do {
     m \<leftarrow> with_session remote (\<lambda>s. terminate s reason True now) m;
     Some (remove_if_terminated remote (drain_session remote m))
   }"

definition handle_remap ::
    "('a \<Rightarrow> 'a \<Rightarrow> bool) \<Rightarrow> 'a multiplexer \<Rightarrow> 'a \<Rightarrow> bytes \<Rightarrow> 'a multiplexer" where
  "handle_remap same_host m sender datagram =
     (if \<not> allow_port_remaps (mx_config m) then m
      else case remap_connection_deserialize datagram True of
        Inl e \<Rightarrow> m
      | Inr remap \<Rightarrow>
          (case find (\<lambda>(key, s). ss_session_id s = rm_session_id remap \<and>
                crc_seed (ss_params s) = rm_crc_seed remap) (mx_sessions m) of
             None \<Rightarrow> m
           | Some (old_key, _) \<Rightarrow>
               if old_key = sender \<or> \<not> same_host old_key sender then m
               else case map_of (mx_sessions m) old_key of
                 None \<Rightarrow> m
               | Some s \<Rightarrow>
                   set_session sender s (m\<lparr>mx_sessions := AList.delete old_key (mx_sessions m)\<rparr>)))"

definition mux_process_incoming ::
    "(bytes \<Rightarrow> error + bytes) \<Rightarrow> ('a \<Rightarrow> 'a \<Rightarrow> bool) \<Rightarrow> 'a multiplexer \<Rightarrow> 'a \<Rightarrow> bytes \<Rightarrow> instant \<Rightarrow>
     'a multiplexer option" where
  "mux_process_incoming inflate same_host m remote datagram now =
     (let existing = map_of (mx_sessions m) remote \<noteq> None;
          deliver = (\<lambda>m. do {
            m \<leftarrow> with_session remote (\<lambda>s. process_incoming inflate s datagram now) m;
            Some (remove_if_terminated remote (drain_session remote m)) }) in
      if existing then deliver m
      else case read_op_code datagram of
        Some SessionRequest \<Rightarrow> deliver (create_session remote Server now m)
      | Some RemapConnection \<Rightarrow> Some (handle_remap same_host m remote datagram)
      | _ \<Rightarrow> Some m)"

text \<open>The \<open>retain\<close> pass of a tick: every session ticks and is drained, the terminated ones go.\<close>

primrec retain_sessions ::
    "instant \<Rightarrow> ('a \<times> session) list \<Rightarrow> ('a \<times> bytes) list \<Rightarrow> 'a SocketEvent list \<Rightarrow>
     (('a \<times> session) list \<times> ('a \<times> bytes) list \<times> 'a SocketEvent list) option" where
  "retain_sessions now [] outgoing events = Some ([], outgoing, events)"
| "retain_sessions now (e # rest) outgoing events = do {
     s \<leftarrow> session_run_tick (snd e) now;
     let (s, outgoing, events) = drain_into (fst e) s outgoing events;
     (kept, outgoing, events) \<leftarrow> retain_sessions now rest outgoing events;
     Some (if ss_state s \<noteq> Terminated then (fst e, s) # kept else kept, outgoing, events)
   }"

definition mux_run_tick :: "'a multiplexer \<Rightarrow> instant \<Rightarrow> 'a multiplexer option" where
  "mux_run_tick m now = do {
     (sessions, outgoing, events) \<leftarrow>
       retain_sessions now (mx_sessions m) (mx_outgoing m) (mx_events m);
     Some (m\<lparr>mx_sessions := sessions, mx_outgoing := outgoing, mx_events := events\<rparr>)
   }"

end
