(* ===== verification/Soe_Multiplexer_Run.thy ===== *)
theory Soe_Multiplexer_Run
  imports Soe_Multiplexer Soe_Session_Wire "HOL-Library.Multiset"
begin

text \<open>
  Runs of the multiplexer. Every operation on one remote settles its session: the session steps,
  is drained, and is dropped once terminated. From the lifecycle of sessions follows that of a
  remote, from their safety that of the whole socket, and the remap guard keeps a session at its
  host.
\<close>

section \<open>Settling a session\<close>

definition settle :: "'a \<Rightarrow> session \<Rightarrow> 'a multiplexer \<Rightarrow> 'a multiplexer" where
  "settle r s m = m\<lparr>
     mx_sessions := (if ss_state s = Terminated then AList.delete r (mx_sessions m)
       else AList.update r (drain s) (mx_sessions m)),
     mx_outgoing := mx_outgoing m @ map (\<lambda>dg. (r, dg)) (ss_outgoing s),
     mx_events := mx_events m @ drained_events r (ss_events s) (ss_received s)\<rparr>"

lemma drain_into_eq:
  "drain_into r s outgoing events = (drain s, outgoing @ map (\<lambda>dg. (r, dg)) (ss_outgoing s),
     events @ drained_events r (ss_events s) (ss_received s))"
  by (simp add: drain_into_def take_outgoing_def take_received_def take_events_def drain_def Let_def)

lemma map_of_update [simp]: "map_of (AList.update r s xs) = (map_of xs)(r \<mapsto> s)"
  by (rule update_conv')

lemma map_of_delete' [simp]: "map_of (AList.delete r xs) = (map_of xs)(r := None)"
  by (rule delete_conv')

lemma drain_state [simp]: "ss_state (drain s) = ss_state s"
  by (simp add: drain_def)

lemma settle_eq: "remove_if_terminated r (drain_session r (set_session r s m)) = settle r s m"
  by (simp add: remove_if_terminated_def drain_session_def set_session_def settle_def drain_into_eq
      delete_update_same)

lemma settle_live: "ss_state s \<noteq> Terminated \<Longrightarrow> drain_session r (set_session r s m) = settle r s m"
  by (simp add: drain_session_def set_session_def settle_def drain_into_eq)

lemma settle_idle:
  assumes "map_of (mx_sessions m) r = None"
  shows "drain_session r m = m" and "remove_if_terminated r m = m"
  using assms by (simp_all add: drain_session_def remove_if_terminated_def)

text \<open>The state an operation makes for a remote that has none yet.\<close>

definition new_session :: "'a multiplexer \<Rightarrow> SessionMode \<Rightarrow> instant \<Rightarrow> session" where
  "new_session m mode now = session_new mode (default_session_params (mx_config m))
     (app_params (mx_config m)) (mx_next_seed m) now"

abbreviation bump_seed :: "'a multiplexer \<Rightarrow> 'a multiplexer" where
  "bump_seed m \<equiv> m\<lparr>mx_next_seed := mx_next_seed m + 1\<rparr>"

lemma create_session_eq:
  "create_session r mode now m = set_session r (new_session m mode now) (bump_seed m)"
  by (simp add: create_session_def new_session_def Let_def)

lemma set_session_again [simp]: "set_session r s (set_session r s' m) = set_session r s m"
  by (simp add: set_session_def)

lemma set_session_lookup [simp]: "map_of (mx_sessions (set_session r s m)) = (map_of (mx_sessions m))(r \<mapsto> s)"
  by (simp add: set_session_def)

section \<open>Operations\<close>

datatype 'a mux_op =
    MuxConnect 'a instant
  | MuxEnqueue 'a bytes Channel
  | MuxTerminate 'a DisconnectReason instant
  | MuxDatagram 'a bytes instant
  | MuxTick instant
  | MuxTakeOutgoing
  | MuxTakeEvents

primrec mux_step ::
    "(bytes \<Rightarrow> error + bytes) \<Rightarrow> ('a \<Rightarrow> 'a \<Rightarrow> bool) \<Rightarrow> 'a multiplexer \<Rightarrow> 'a mux_op \<Rightarrow>
     'a multiplexer option" where
  "mux_step inflate same_host m (MuxConnect r now) = mux_connect m r now"
| "mux_step inflate same_host m (MuxEnqueue r data channel) =
     map_option snd (mux_enqueue_data_on m r data channel)"
| "mux_step inflate same_host m (MuxTerminate r reason now) = mux_terminate m r reason now"
| "mux_step inflate same_host m (MuxDatagram r dg now) =
     mux_process_incoming inflate same_host m r dg now"
| "mux_step inflate same_host m (MuxTick now) = mux_run_tick m now"
| "mux_step inflate same_host m MuxTakeOutgoing = Some (snd (mux_take_outgoing m))"
| "mux_step inflate same_host m MuxTakeEvents = Some (snd (mux_take_events m))"

text \<open>The four operations that touch a single remote, as a step of its session that is settled.\<close>

lemma connect_eq:
  "mux_connect m r now = do {
     s \<leftarrow> send_session_request (new_session m Client now);
     Some (drain_session r (set_session r s (bump_seed m)))
   }"
  by (simp add: mux_connect_def with_session_def create_session_eq split: bind_split)

lemma enqueue_eq_settle:
  "mux_enqueue_data_on m r data channel = (case map_of (mx_sessions m) r of
      None \<Rightarrow> Some (False, m)
    | Some s \<Rightarrow> do {
        (queued, s) \<leftarrow> enqueue_data_on s data channel;
        Some (queued, drain_session r (set_session r s m)) })"
  by (auto simp: mux_enqueue_data_on_def settle_idle split: option.split bind_split)

lemma terminate_eq_settle:
  "mux_terminate m r reason now = (case map_of (mx_sessions m) r of
      None \<Rightarrow> Some m
    | Some s \<Rightarrow> do { s \<leftarrow> terminate s reason True now; Some (settle r s m) })"
  by (auto simp: mux_terminate_def with_session_def settle_idle settle_eq split: option.split bind_split)

lemma process_eq_settle:
  "mux_process_incoming inflate same_host m r dg now = (case map_of (mx_sessions m) r of
      Some s \<Rightarrow> do { s \<leftarrow> process_incoming inflate s dg now; Some (settle r s m) }
    | None \<Rightarrow>
       (case read_op_code dg of
          Some SessionRequest \<Rightarrow> do {
            s \<leftarrow> process_incoming inflate (new_session m Server now) dg now;
            Some (settle r s (bump_seed m)) }
        | Some RemapConnection \<Rightarrow> Some (handle_remap same_host m r dg)
        | _ \<Rightarrow> Some m))"
  by (auto simp: mux_process_incoming_def with_session_def create_session_eq settle_eq Let_def
      split: option.split OpCode.split bind_split)

section \<open>The lifecycle of a remote\<close>

text \<open>What an application sees of a remote: whether it is open, and how events change that. An
  opening while open is the error.\<close>

primrec track :: "bool \<Rightarrow> SessionEvent list \<Rightarrow> bool option" where
  "track is_open [] = Some is_open"
| "track is_open (e # es) = (case e of
      Opened \<Rightarrow> if is_open then None else track True es
    | Closed r \<Rightarrow> track False es)"

lemma track_append: "track b (es @ fs) = Option.bind (track b es) (\<lambda>b. track b fs)"
  by (induction es arbitrary: b) (auto split: SessionEvent.split)

definition lifecycle_of :: "'a \<Rightarrow> 'a SocketEvent list \<Rightarrow> SessionEvent list" where
  "lifecycle_of r events = concat (map (\<lambda>e. case e of
      SessionOpened a \<Rightarrow> if a = r then [Opened] else []
    | DataReceived a d channel \<Rightarrow> []
    | SessionClosed a reason \<Rightarrow> if a = r then [Closed reason] else []) events)"

lemma lifecycle_of_append [simp]: "lifecycle_of r (es @ fs) = lifecycle_of r es @ lifecycle_of r fs"
  by (simp add: lifecycle_of_def)

definition surfaced :: "SessionEvent list \<Rightarrow> SessionEvent list" where
  "surfaced es = filter (\<lambda>e. e = Opened) es @ filter (\<lambda>e. e \<noteq> Opened) es"

lemma lifecycle_of_drained:
  "lifecycle_of r (drained_events a es received) = (if a = r then surfaced es else [])"
proof -
  have "lifecycle_of r (concat (map (\<lambda>e. case e of Opened \<Rightarrow> [SessionOpened a] | Closed x \<Rightarrow> []) es)) =
      (if a = r then filter (\<lambda>e. e = Opened) es else [])"
    by (induction es) (auto simp: lifecycle_of_def split: SessionEvent.split)
  moreover have "lifecycle_of r (concat (map (\<lambda>e. case e of Opened \<Rightarrow> [] | Closed x \<Rightarrow> [SessionClosed a x]) es)) =
      (if a = r then filter (\<lambda>e. e \<noteq> Opened) es else [])"
    by (induction es) (auto simp: lifecycle_of_def split: SessionEvent.split)
  moreover have "lifecycle_of r (map (\<lambda>d. DataReceived a (rc_data d) (rc_channel d)) received) = []"
    by (simp add: lifecycle_of_def)
  ultimately show ?thesis by (simp add: drained_events_def surfaced_def)
qed

text \<open>The session is open to the application once it has surfaced its opening.\<close>

definition is_open :: "session \<Rightarrow> bool" where
  "is_open s \<longleftrightarrow> ss_state s = Running \<and> \<not> open_session_on_next_packet s"

definition settled :: "session \<Rightarrow> bool" where
  "settled s \<longleftrightarrow> ss_state s \<noteq> Terminated \<and> ss_events s = [] \<and> ss_outgoing s = [] \<and>
     ss_received s = [] \<and> (ss_state s = Negotiating \<longrightarrow> \<not> open_session_on_next_packet s)"

text \<open>What a settled session surfaces from then on: its opening unless it has surfaced it (\<open>b\<close>),
  and at the end its closing.\<close>

definition life_tracked :: "bool \<Rightarrow> life \<Rightarrow> bool" where
  "life_tracked b l = (case l of (st, pending, es) \<Rightarrow>
     (st = Negotiating \<longrightarrow> \<not> pending \<and> \<not> b) \<and> (st = Running \<and> pending \<longrightarrow> \<not> b) \<and>
     (if st = Terminated then \<exists>r. es = [Closed r] \<or> \<not> b \<and> es = [Opened, Closed r]
      else es = (if st = Running \<and> \<not> pending \<and> \<not> b then [Opened] else [])))"

lemma life_tracked_step: "life_step l l' \<Longrightarrow> life_tracked b l \<Longrightarrow> life_tracked b l'"
proof (induction rule: life_step.induct)
  case (opened st es)
  then show ?case by (cases st) (auto simp: life_tracked_def)
next
  case (close st f es r)
  then show ?case by (cases st) (auto simp: life_tracked_def split: if_splits)
qed (auto simp: life_tracked_def)

lemma lives_tracked: "settled s \<Longrightarrow> lives s s' \<Longrightarrow> life_tracked (is_open s) (life_of s')"
proof -
  assume "settled s" and steps: "lives s s'"
  then have "life_tracked (is_open s) (life_of s)"
    by (cases "ss_state s") (auto simp: settled_def life_tracked_def life_of_def is_open_def)
  with steps show ?thesis
    unfolding lives_def by (induction rule: rtranclp_induct) (auto intro: life_tracked_step)
qed

lemma lives_surfaced:
  assumes "settled s" and "lives s s'"
  shows "track (is_open s) (surfaced (ss_events s')) = Some (is_open s')"
    and "ss_state s' \<noteq> Terminated \<Longrightarrow> settled (drain s')"
  using lives_tracked [OF assms]
  by (cases "ss_state s'";
      auto simp: life_tracked_def life_of_def is_open_def surfaced_def settled_def drain_def
        split: if_splits)+

lemma is_open_drain [simp]: "is_open (drain s) = is_open s"
  by (simp add: is_open_def drain_def)

text \<open>The invariant of a run: keys are distinct, every session is settled, and what has been
  surfaced for a remote, in the history \<open>h\<close> and the pending events, tracks whether its session
  is open.\<close>

definition open_in :: "('a \<times> session) list \<Rightarrow> 'a \<Rightarrow> bool" where
  "open_in xs r = (case map_of xs r of None \<Rightarrow> False | Some s \<Rightarrow> is_open s)"

abbreviation remote_open :: "'a multiplexer \<Rightarrow> 'a \<Rightarrow> bool" where
  "remote_open m r \<equiv> open_in (mx_sessions m) r"

definition all_sessions :: "(session \<Rightarrow> bool) \<Rightarrow> 'a multiplexer \<Rightarrow> bool" where
  "all_sessions good m \<longleftrightarrow> distinct (map fst (mx_sessions m)) \<and>
     (\<forall>e\<in>set (mx_sessions m). good (snd e))"

lemma all_sessionsD: "all_sessions good m \<Longrightarrow> map_of (mx_sessions m) r = Some s \<Longrightarrow> good s"
  by (auto simp: all_sessions_def dest!: map_of_SomeD)

lemma set_update: "set (AList.update r s xs) \<subseteq> insert (r, s) (set xs)"
  by (induction xs) auto

lemma set_delete: "set (AList.delete r xs) \<subseteq> set xs"
  by (auto simp: AList.delete_eq)

definition tracked :: "'a SocketEvent list \<Rightarrow> 'a multiplexer \<Rightarrow> bool" where
  "tracked h m \<longleftrightarrow> (\<forall>r. track False (lifecycle_of r (h @ mx_events m)) = Some (remote_open m r))"

definition mux_ok :: "'a SocketEvent list \<Rightarrow> 'a multiplexer \<Rightarrow> bool" where
  "mux_ok h m \<longleftrightarrow> all_sessions settled m \<and> tracked h m"

lemma all_sessions_settle:
  "all_sessions good m \<Longrightarrow> (ss_state s \<noteq> Terminated \<Longrightarrow> good (drain s)) \<Longrightarrow>
   all_sessions good (settle r s m)"
  using set_update [of r "drain s" "mx_sessions m"] set_delete [of r "mx_sessions m"]
  by (auto simp: all_sessions_def settle_def distinct_update distinct_delete split: if_splits)

lemma tracked_settle:
  assumes "tracked h m" and "track (remote_open m r) (surfaced (ss_events s)) = Some (is_open s)"
  shows "tracked h (settle r s m)"
proof -
  have "is_open s = (ss_state s \<noteq> Terminated \<and> is_open s)" by (auto simp: is_open_def)
  then have open_after: "remote_open (settle r s m) a = (if a = r then is_open s else remote_open m a)" for a
    by (auto simp: open_in_def settle_def)
  show ?thesis
    unfolding tracked_def open_after using assms
    by (auto simp: tracked_def settle_def lifecycle_of_drained track_append simp flip: append_assoc)
qed

lemma settle_ok:
  assumes "mux_ok h m" and "settled s" and "is_open s = remote_open m r" and "lives s s'"
  shows "mux_ok h (settle r s' m)"
  using assms lives_surfaced [OF assms(2,4)]
  by (auto simp: mux_ok_def intro: all_sessions_settle tracked_settle)

lemma settled_new: "settled (new_session m mode now)" "\<not> is_open (new_session m mode now)"
  by (simp_all add: settled_def is_open_def new_session_def session_new_def)

lemma mux_ok_bump [simp]: "mux_ok h (bump_seed m) = mux_ok h m"
  by (simp add: mux_ok_def all_sessions_def tracked_def open_in_def)

lemma remote_open_bump [simp]: "remote_open (bump_seed m) r = remote_open m r"
  by (simp add: open_in_def)

text \<open>A tick settles every session in turn.\<close>

lemma retain_drained:
  assumes "retain_sessions now xs outgoing events = Some (kept, outgoing', events')"
    and "distinct (map fst xs)" and "\<forall>e\<in>set xs. settled (snd e)"
  shows "fst ` set kept \<subseteq> fst ` set xs \<and> distinct (map fst kept) \<and> (\<forall>e\<in>set kept. settled (snd e)) \<and>
    (\<exists>new. events' = events @ new \<and> (\<forall>r.
      (r \<notin> fst ` set xs \<longrightarrow> lifecycle_of r new = []) \<and>
      track (open_in xs r) (lifecycle_of r new) = Some (open_in kept r)))"
  using assms
proof (induction xs arbitrary: outgoing events kept)
  case Nil
  then show ?case by (simp add: lifecycle_of_def)
next
  case (Cons e rest)
  obtain k s where e: "e = (k, s)" by (cases e)
  let ?d = "\<lambda>s'. drained_events k (ss_events s') (ss_received s')"
  from Cons.prems(1) obtain s' kept' where s': "session_run_tick s now = Some s'"
    and rest: "retain_sessions now rest (outgoing @ map (\<lambda>dg. (k, dg)) (ss_outgoing s'))
      (events @ ?d s') = Some (kept', outgoing', events')"
    and kept: "kept = (if ss_state s' \<noteq> Terminated then (k, drain s') # kept' else kept')"
    by (auto simp: e bind_eq_Some_iff drain_into_eq split_beta)
  have settled: "settled s" using Cons.prems(3) by (simp add: e)
  have lives: "lives s s'" using step_lives [of s "OpTick now" "\<lambda>_. Inl Zlib" s'] s'
    by (simp add: life.admitted_def)
  note one = lives_surfaced [OF settled lives]
  have d: "distinct (map fst rest)" "\<forall>e\<in>set rest. settled (snd e)" "k \<notin> fst ` set rest"
    using Cons.prems(2,3) by (auto simp: e)
  note IH = Cons.IH [OF rest d(1,2)]
  then obtain new where new: "events' = (events @ ?d s') @ new"
    and none: "\<And>r. r \<notin> fst ` set rest \<Longrightarrow> lifecycle_of r new = []"
    and track: "\<And>r. track (open_in rest r) (lifecycle_of r new) = Some (open_in kept' r)"
    by blast
  have out: "map_of rest k = None" "map_of kept' k = None"
    using d(3) IH by (auto simp: map_of_eq_None_iff)
  have closed: "is_open s' = (ss_state s' \<noteq> Terminated \<and> is_open s')" by (auto simp: is_open_def)
  have track': "track (open_in (e # rest) r) (lifecycle_of r (?d s' @ new)) = Some (open_in kept r)" for r
    using one(1) track [of r] none [OF d(3)] out closed
    by (cases "r = k") (auto simp: e kept open_in_def lifecycle_of_drained track_append split: if_splits)
  show ?case
    using IH d kept one(2) new track' none
    by (auto simp: e lifecycle_of_drained intro!: exI [of _ "?d s' @ new"])
qed

lemma tick_ok:
  assumes "mux_ok h m" and "mux_run_tick m now = Some m'"
  shows "mux_ok h m'"
proof -
  obtain kept outgoing events where r:
    "retain_sessions now (mx_sessions m) (mx_outgoing m) (mx_events m) = Some (kept, outgoing, events)"
    and m': "m' = m\<lparr>mx_sessions := kept, mx_outgoing := outgoing, mx_events := events\<rparr>"
    using assms(2) by (auto simp: mux_run_tick_def bind_eq_Some_iff)
  from assms(1) have "distinct (map fst (mx_sessions m))" "\<forall>e\<in>set (mx_sessions m). settled (snd e)"
    by (simp_all add: mux_ok_def all_sessions_def)
  note tick = retain_drained [OF r this]
  then obtain new where "events = mx_events m @ new"
    and "\<And>r. track (remote_open m r) (lifecycle_of r new) = Some (open_in kept r)" by blast
  then have "track False (lifecycle_of r (h @ mx_events m) @ lifecycle_of r new) = Some (open_in kept r)"
      and "events = mx_events m @ new" for r
    using assms(1) track_append [of False "lifecycle_of r (h @ mx_events m)"]
    by (simp_all add: mux_ok_def tracked_def del: lifecycle_of_append)
  then have "tracked h m'" by (simp add: m' tracked_def)
  with tick show ?thesis by (simp add: m' mux_ok_def all_sessions_def)
qed

lemma rehash_sessions:
  assumes "all_sessions good m" and xs: "mset xs = mset (mx_sessions m)"
  shows "all_sessions good (m\<lparr>mx_sessions := xs\<rparr>)" and "map_of xs = map_of (mx_sessions m)"
proof -
  have "mset (map fst xs) = mset (map fst (mx_sessions m))" using xs by (simp add: mset_map)
  then have distinct: "distinct (map fst xs)"
    using assms(1) by (metis all_sessions_def mset_eq_imp_distinct_iff)
  moreover have "set xs = set (mx_sessions m)" using xs by (rule mset_eq_setD)
  ultimately show "all_sessions good (m\<lparr>mx_sessions := xs\<rparr>)" and "map_of xs = map_of (mx_sessions m)"
    using assms(1) map_of_inject_set [of xs "mx_sessions m"] by (simp_all add: all_sessions_def)
qed

lemma rehash_ok: "mux_ok h m \<Longrightarrow> mset xs = mset (mx_sessions m) \<Longrightarrow> mux_ok h (m\<lparr>mx_sessions := xs\<rparr>)"
  using rehash_sessions [of settled m xs] by (simp add: mux_ok_def tracked_def open_in_def)

lemma take_ok:
  "mux_ok h m \<Longrightarrow> mux_ok h (snd (mux_take_outgoing m))"
  "mux_ok h m \<Longrightarrow> mux_ok (h @ mx_events m) (snd (mux_take_events m))"
  by (simp_all add: mux_ok_def mux_take_outgoing_def mux_take_events_def all_sessions_def tracked_def)

lemma enqueue_keeps_state:
  "enqueue_data_on s data channel = Some (queued, s') \<Longrightarrow> ss_state s' = ss_state s"
  by (auto simp: enqueue_data_on_def enqueue_reliable_def Let_def bind_eq_Some_iff push_defs
      split: Channel.splits if_splits)

lemma request_keeps_state: "send_session_request s = Some s' \<Longrightarrow> ss_state s' = ss_state s"
  by (auto simp: send_session_request_def Let_def split_beta bind_eq_Some_iff push_defs split: if_splits)

lemma session_lives:
  "session_step inflate s e = Some s' \<Longrightarrow> e \<noteq> OpDrain \<Longrightarrow> lives s s'"
  by (rule step_lives) (simp_all add: life.admitted_def)

lemma existing_settle:
  assumes "mux_ok h m" and "map_of (mx_sessions m) r = Some s" and "lives s s'"
  shows "mux_ok h (settle r s' m)"
  using assms all_sessionsD [of settled m r s]
  by (intro settle_ok [of h m s]) (simp_all add: mux_ok_def open_in_def)

lemma new_settle:
  assumes "mux_ok h m" and "map_of (mx_sessions m) r = None" and "lives (new_session m mode now) s'"
  shows "mux_ok h (settle r s' (bump_seed m))"
  using assms settled_new [of m mode now]
  by (intro settle_ok [of h "bump_seed m" "new_session m mode now"]) (simp_all add: open_in_def)

text \<open>Each operation keeps the invariant and the configuration.\<close>

definition keeps :: "'a SocketEvent list \<Rightarrow> 'a multiplexer \<Rightarrow> 'a multiplexer \<Rightarrow> bool" where
  "keeps h m m' \<longleftrightarrow> mux_ok h m' \<and> mx_config m' = mx_config m"

lemma keeps_refl: "mux_ok h m \<Longrightarrow> keeps h m m"
  by (simp add: keeps_def)

lemma existing_keeps:
  assumes "mux_ok h m" and "map_of (mx_sessions m) r = Some s" and "session_step inflate s e = Some s'"
    and "e \<noteq> OpDrain"
  shows "keeps h m (settle r s' m)"
  using existing_settle [OF assms(1,2) session_lives [OF assms(3,4)]] by (simp add: keeps_def settle_def)

lemma new_keeps:
  assumes "mux_ok h m" and "map_of (mx_sessions m) r = None"
    and "session_step inflate (new_session m mode now) e = Some s'" and "e \<noteq> OpDrain"
  shows "keeps h m (settle r s' (bump_seed m))"
  using new_settle [OF assms(1,2) session_lives [OF assms(3,4)]] by (simp add: keeps_def settle_def)

lemma connect_keeps:
  assumes "mux_ok h m" and "mux_connect m r now = Some m'" and "map_of (mx_sessions m) r = None"
  shows "keeps h m m'"
proof -
  obtain s where s: "send_session_request (new_session m Client now) = Some s"
    and "m' = drain_session r (set_session r s (bump_seed m))"
    using assms(2) by (auto simp: connect_eq bind_eq_Some_iff)
  moreover have "ss_state s \<noteq> Terminated"
    using request_keeps_state [OF s] by (simp add: new_session_def session_new_def)
  ultimately show ?thesis
    using new_keeps [OF assms(1,3), of "\<lambda>_. Inl Zlib" Client now OpConnect s] by (simp add: settle_live)
qed

lemma enqueue_keeps:
  assumes "mux_ok h m" and "mux_enqueue_data_on m r data channel = Some (q, m')"
  shows "keeps h m m'"
proof (cases "map_of (mx_sessions m) r")
  case (Some s)
  then obtain s' where s': "enqueue_data_on s data channel = Some (q, s')"
    and m': "m' = drain_session r (set_session r s' m)"
    using assms(2) by (auto simp: enqueue_eq_settle bind_eq_Some_iff)
  have "settled s" using assms(1) all_sessionsD [OF _ Some, of settled] by (simp add: mux_ok_def)
  then have "m' = settle r s' m"
    using m' enqueue_keeps_state [OF s'] by (simp add: settle_live settled_def)
  then show ?thesis
    using existing_keeps [OF assms(1) Some, of "\<lambda>_. Inl Zlib" "OpEnqueue data channel"] s' by simp
qed (use assms in \<open>auto simp: enqueue_eq_settle keeps_refl\<close>)

lemma terminate_keeps:
  assumes "mux_ok h m" and "mux_terminate m r reason now = Some m'"
  shows "keeps h m m'"
proof (cases "map_of (mx_sessions m) r")
  case (Some s)
  with existing_keeps [OF assms(1) Some, of "\<lambda>_. Inl Zlib" "OpTerminate reason True now"] assms(2)
  show ?thesis by (auto simp: terminate_eq_settle bind_eq_Some_iff)
qed (use assms in \<open>auto simp: terminate_eq_settle keeps_refl\<close>)

lemma process_keeps:
  assumes "mux_ok h m" and "mux_process_incoming inflate same_host m r dg now = Some m'"
    and "\<not> allow_port_remaps (mx_config m)"
  shows "keeps h m m'"
proof (cases "map_of (mx_sessions m) r")
  case (Some s)
  with existing_keeps [OF assms(1) Some, of inflate "OpDatagram dg now"] assms(2)
  show ?thesis by (auto simp: process_eq_settle bind_eq_Some_iff)
next
  case None
  with new_keeps [OF assms(1) None, of inflate Server now "OpDatagram dg now"] assms
  show ?thesis
    by (auto simp: process_eq_settle bind_eq_Some_iff handle_remap_def keeps_refl
        split: option.splits OpCode.splits)
qed

lemma tick_keeps: "mux_ok h m \<Longrightarrow> mux_run_tick m now = Some m' \<Longrightarrow> keeps h m m'"
  using tick_ok [of h m now m'] by (auto simp: keeps_def mux_run_tick_def bind_eq_Some_iff)

lemma take_keeps:
  "mux_ok h m \<Longrightarrow> keeps h m (snd (mux_take_outgoing m))"
  "mux_ok h m \<Longrightarrow> keeps (h @ mx_events m) m (snd (mux_take_events m))"
  using take_ok [of h m] by (simp_all add: keeps_def) (simp_all add: mux_take_outgoing_def mux_take_events_def)

lemmas op_keeps = connect_keeps enqueue_keeps terminate_keeps process_keeps tick_keeps

lemma step_keeps:
  assumes "mux_ok h m" and "mux_step inflate same_host m e = Some m'"
    and "\<not> allow_port_remaps (mx_config m)"
    and "\<forall>r now. e = MuxConnect r now \<longrightarrow> map_of (mx_sessions m) r = None"
  shows "keeps (if e = MuxTakeEvents then h @ mx_events m else h) m m'"
  using assms take_keeps [OF assms(1)] by (cases e) (auto intro: op_keeps)

section \<open>Reachable multiplexers\<close>

text \<open>The multiplexers a caller can reach, with the events surfaced so far: operations, in any
  order, that do not panic, and the map of sessions changing its iteration order at any time. A
  caller connects only to remotes without a session.\<close>

inductive mux_reach ::
    "(bytes \<Rightarrow> error + bytes) \<Rightarrow> ('a \<Rightarrow> 'a \<Rightarrow> bool) \<Rightarrow> socket_config \<Rightarrow>
     'a SocketEvent list \<Rightarrow> 'a multiplexer \<Rightarrow> bool"
  for inflate same_host config where
  start: "mux_reach inflate same_host config [] (mux_new config)"
| operate: "mux_reach inflate same_host config h m \<Longrightarrow> mux_step inflate same_host m e = Some m' \<Longrightarrow>
    \<forall>r now. e = MuxConnect r now \<longrightarrow> mux_session m r = None \<Longrightarrow>
    mux_reach inflate same_host config (if e = MuxTakeEvents then h @ mx_events m else h) m'"
| rehash: "mux_reach inflate same_host config h m \<Longrightarrow> mset xs = mset (mx_sessions m) \<Longrightarrow>
    mux_reach inflate same_host config h (m\<lparr>mx_sessions := xs\<rparr>)"

lemma mux_reach_ok:
  assumes "mux_reach inflate same_host config h m" and "\<not> allow_port_remaps config"
  shows "mux_ok h m \<and> mx_config m = config"
  using assms
proof (induction rule: mux_reach.induct)
  case start
  then show ?case by (simp add: mux_ok_def all_sessions_def tracked_def mux_new_def open_in_def lifecycle_of_def)
next
  case (operate h m e m')
  then show ?case using step_keeps [of h m inflate same_host e m'] by (simp add: keeps_def mux_session_def)
next
  case (rehash h m xs)
  then show ?case by (simp add: rehash_ok)
qed

section \<open>Properties\<close>

text \<open>C5: In every reachable state of a socket without port remaps, whatever an application does that
  connects only to remotes without a session, and whatever arrives from whom, the keys of the session
  map are distinct, no terminated session is kept and nothing stays queued in a session; and for every
  remote no two openings are surfaced without a closing between them, the remote being open to the
  application (its last opening not followed by a closing) exactly when the map holds a running session
  for it that has seen its first packet. A session whose negotiation fails is closed without having
  been opened.\<close>

theorem remote_lifecycle:
  assumes "mux_reach inflate same_host config h m" and "\<not> allow_port_remaps config"
  shows "distinct (map fst (mx_sessions m)) \<and>
    (\<forall>r s. mux_session m r = Some s \<longrightarrow> ss_state s \<noteq> Terminated \<and> ss_outgoing s = [] \<and>
      ss_received s = [] \<and> ss_events s = []) \<and>
    track False (lifecycle_of r (h @ mx_events m)) =
      Some (\<exists>s. mux_session m r = Some s \<and> ss_state s = Running \<and> \<not> open_session_on_next_packet s)"
proof -
  have ok: "all_sessions settled m" "tracked h m"
    using mux_reach_ok [OF assms] by (simp_all add: mux_ok_def)
  have "settled s" if "mux_session m r = Some s" for r s
    using all_sessionsD [OF ok(1)] that by (simp add: mux_session_def)
  moreover have "remote_open m r =
      (\<exists>s. mux_session m r = Some s \<and> ss_state s = Running \<and> \<not> open_session_on_next_packet s)"
    by (simp add: open_in_def mux_session_def is_open_def split: option.split)
  ultimately show ?thesis
    using ok by (auto simp: all_sessions_def tracked_def settled_def)
qed

definition demo_config :: "bool \<Rightarrow> socket_config" where
  "demo_config remaps = \<lparr>default_session_params = session_parameters_default, app_params = None,
     allow_port_remaps = remaps, base_rng_seed = 3\<rparr>"

lemma demo_connect:
  "\<exists>m. mux_connect (mux_new (demo_config False)) (4001 :: nat) 0 = Some m \<and>
     mux_session m 4001 \<noteq> None"
  by (simp add: connect_eq client_requests new_session_def session_new_def mux_new_def
      drain_session_def mux_session_def)
    (simp add: set_session_def drain_into_eq)

theorem remote_lifecycle_witness:
  "\<exists>h m. mux_reach (\<lambda>_. Inl Zlib) (=) (demo_config False) h m \<and>
     mux_session m (4001 :: nat) \<noteq> None \<and>
     track False (lifecycle_of 4001 (h @ mx_events m)) = Some (\<exists>s. mux_session m 4001 = Some s \<and>
       ss_state s = Running \<and> \<not> open_session_on_next_packet s)"
proof -
  let ?m0 = "mux_new (demo_config False) :: nat multiplexer"
  obtain m where m: "mux_step (\<lambda>_. Inl Zlib) (=) ?m0 (MuxConnect 4001 0) = Some m"
      "mux_session m 4001 \<noteq> None"
    using demo_connect by auto
  have reach: "mux_reach (\<lambda>_. Inl Zlib) (=) (demo_config False) [] m"
    using mux_reach.operate [OF mux_reach.start m(1)] by (simp add: mux_session_def mux_new_def)
  have "\<not> allow_port_remaps (demo_config False)" by (simp add: demo_config_def)
  from remote_lifecycle [OF reach this, of 4001] reach m(2) show ?thesis by blast
qed

section \<open>Isolation and remaps\<close>

lemma settle_other: "k \<noteq> r \<Longrightarrow> mux_session (settle r s m) k = mux_session m k"
  by (simp add: mux_session_def settle_def)

text \<open>C11: A datagram from one address touches no session of another, with one exception: if remaps
  are allowed and the address has no session, a RemapConnection that names the session id and the
  CRC key of a session of the same host moves that session, unchanged, to the new address.\<close>

theorem datagram_isolation:
  assumes "distinct (map fst (mx_sessions m))"
    and "mux_process_incoming inflate same_host m r dg now = Some m'" and "k \<noteq> r"
  shows "mux_session m' k = mux_session m k \<or>
    (allow_port_remaps (mx_config m) \<and> same_host k r \<and> mux_session m r = None \<and>
     (\<exists>s remap. mux_session m k = Some s \<and> mux_session m' k = None \<and> mux_session m' r = Some s \<and>
       remap_connection_deserialize dg True = Inr remap \<and>
       ss_session_id s = rm_session_id remap \<and> crc_seed (ss_params s) = rm_crc_seed remap))"
proof (cases "mux_session m r")
  case (Some s)
  with assms(2,3) show ?thesis
    by (auto simp: process_eq_settle bind_eq_Some_iff settle_other mux_session_def [of m r])
next
  case None
  note proc = assms(2) [unfolded process_eq_settle]
  show ?thesis
  proof (cases "read_op_code dg = Some RemapConnection \<and> m' \<noteq> m")
    case False
    with None proc assms(3) show ?thesis
      by (auto simp: bind_eq_Some_iff settle_other mux_session_def [of m r]
          split: option.splits OpCode.splits)
        (simp_all add: mux_session_def)
  next
    case True
    then have m': "m' = handle_remap same_host m r dg" and changed: "m' \<noteq> m"
      using None proc by (simp_all add: mux_session_def)
    then obtain remap where allowed: "allow_port_remaps (mx_config m)"
      and remap: "remap_connection_deserialize dg True = Inr remap"
      by (auto simp: handle_remap_def split: if_splits sum.splits)
    let ?match = "\<lambda>(key, s). ss_session_id s = rm_session_id remap \<and> crc_seed (ss_params s) = rm_crc_seed remap"
    obtain old s where found: "find ?match (mx_sessions m) = Some (old, s)"
      using m' changed allowed remap by (auto simp: handle_remap_def split: option.splits)
    then have "(old, s) \<in> set (mx_sessions m)" and match: "?match (old, s)"
      by (auto simp: find_Some_iff in_set_conv_nth)
    then have s: "map_of (mx_sessions m) old = Some s" using assms(1) by simp
    have host: "old \<noteq> r" "same_host old r"
      and "m' = set_session r s (m\<lparr>mx_sessions := AList.delete old (mx_sessions m)\<rparr>)"
      using m' changed allowed remap found s by (auto simp: handle_remap_def split: if_splits)
    then show ?thesis
      using allowed remap s match None assms(3)
      by (cases "k = old") (auto simp: mux_session_def)
  qed
qed

theorem datagram_isolation_witness:
  "\<exists>m'. mux_process_incoming (\<lambda>_. Inl Zlib) (\<lambda>a b. a div 10 = b div 10)
      ((mux_new (demo_config True))\<lparr>mx_sessions := [(11 :: nat, running Server)]\<rparr>) 12
      (remap_connection_bytes \<lparr>rm_session_id = 0, rm_crc_seed = 0\<rparr>) 1 = Some m' \<and>
    mux_session m' 11 = None \<and> mux_session m' 12 = Some (running Server)"
proof -
  let ?m = "(mux_new (demo_config True))\<lparr>mx_sessions := [(11 :: nat, running Server)]\<rparr>"
  let ?remap = "\<lparr>rm_session_id = 0, rm_crc_seed = 0\<rparr>"
  let ?h = "\<lambda>a b :: nat. a div 10 = b div 10"
  have "read_op_code (remap_connection_bytes ?remap) = Some RemapConnection"
    by (simp add: layout_defs op_from_u16_def)
  then obtain m' where m': "mux_process_incoming (\<lambda>_. Inl Zlib) ?h ?m 12
      (remap_connection_bytes ?remap) 1 = Some m'"
    and moved: "m' = handle_remap ?h ?m 12 (remap_connection_bytes ?remap)"
    by (simp add: process_eq_settle)
  have "distinct (map fst (mx_sessions ?m))" by simp
  from datagram_isolation [OF this m', of 11] have
    "mux_session m' 11 = Some (running Server) \<or>
     mux_session m' 11 = None \<and> mux_session m' 12 = Some (running Server)"
    by (auto simp: mux_session_def)
  moreover have "mux_session m' 11 = None"
    using remap.deser_bytes [of ?remap "[]"]
    by (simp add: moved handle_remap_def mux_new_def demo_config_def mux_session_def session_new_def
        session_parameters_default_def)
  ultimately show ?thesis using m' by auto
qed

section \<open>Safety\<close>

text \<open>The configuration leaves room and every session is well formed.\<close>

definition mux_safe :: "'a multiplexer \<Rightarrow> bool" where
  "mux_safe m \<longleftrightarrow> room_ok (default_session_params (mx_config m)) \<and> all_sessions safe m"

definition crc_lengths_ok :: "'a mux_op \<Rightarrow> bool" where
  "crc_lengths_ok e \<longleftrightarrow> (\<forall>r dg now resp. e = MuxDatagram r dg now \<longrightarrow>
     session_response_deserialize (drop 2 dg) False = Inr resp \<longrightarrow> unat (sp_crc_length resp) \<le> 4)"

lemma new_session_safe: "mux_safe m \<Longrightarrow> safe (new_session m mode now)"
  by (simp add: mux_safe_def new_session_def safe_new)

lemma settle_safe: "mux_safe m \<Longrightarrow> safe s \<Longrightarrow> mux_safe (settle r s m)"
  by (auto simp: mux_safe_def intro: all_sessions_settle) (simp add: settle_def)

lemma mux_safe_bump [simp]: "mux_safe (bump_seed m) = mux_safe m"
  by (simp add: mux_safe_def all_sessions_def)

lemma mux_safeD: "mux_safe m \<Longrightarrow> map_of (mx_sessions m) r = Some s \<Longrightarrow> safe s"
  by (auto simp: mux_safe_def dest: all_sessionsD)

lemma set_session_safe: "mux_safe m \<Longrightarrow> safe s \<Longrightarrow> mux_safe (set_session r s m)"
  using set_update [of r s "mx_sessions m"]
  by (auto simp: set_session_def mux_safe_def all_sessions_def distinct_update)

lemma mux_safe_queues [simp]:
  "mux_safe (m\<lparr>mx_outgoing := o', mx_events := es\<rparr>) = mux_safe m"
  by (simp add: mux_safe_def all_sessions_def)

lemma drain_session_safe: "mux_safe m \<Longrightarrow> mux_safe (drain_session r m)"
  using mux_safeD [of m r]
  by (auto simp: drain_session_def drain_into_eq set_session_safe split: option.split)

lemma session_total:
  assumes "safe s" and "\<forall>dg now. e = OpDatagram dg now \<longrightarrow>
    (\<forall>resp. session_response_deserialize (drop 2 dg) False = Inr resp \<longrightarrow> unat (sp_crc_length resp) \<le> 4)"
  shows "\<exists>s'. session_step inflate s e = Some s' \<and> safe s'"
  using assms by (intro step_safe) (auto simp: safe.admitted_def crc_admitted_def)

lemma retain_total:
  assumes "\<forall>e\<in>set xs. safe (snd e)" and "distinct (map fst xs)"
  shows "\<exists>kept o' ev. retain_sessions now xs outgoing events = Some (kept, o', ev) \<and>
    (\<forall>e\<in>set kept. safe (snd e)) \<and> distinct (map fst kept) \<and> fst ` set kept \<subseteq> fst ` set xs"
  using assms
proof (induction xs arbitrary: outgoing events)
  case (Cons e rest)
  obtain s' where s': "session_run_tick (snd e) now = Some s'" "safe s'"
    using session_total [of "snd e" "OpTick now" "\<lambda>_. Inl Zlib"] Cons.prems(1) by auto
  have "\<forall>e\<in>set rest. safe (snd e)" "distinct (map fst rest)" using Cons.prems by simp_all
  from Cons.IH [OF this] obtain kept o' ev where "retain_sessions now rest (outgoing @ map (\<lambda>dg. (fst e, dg)) (ss_outgoing s'))
      (events @ drained_events (fst e) (ss_events s') (ss_received s')) = Some (kept, o', ev)"
    "\<forall>e\<in>set kept. safe (snd e)" "distinct (map fst kept)" "fst ` set kept \<subseteq> fst ` set rest"
    by blast
  with s' Cons.prems(2) show ?case by (auto simp: drain_into_eq)
qed simp

lemma handle_remap_safe: "mux_safe m \<Longrightarrow> mux_safe (handle_remap same_host m r dg)"
proof -
  assume safe: "mux_safe m"
  then have "mux_safe (m\<lparr>mx_sessions := AList.delete k (mx_sessions m)\<rparr>)" for k
    using set_delete [of k "mx_sessions m"]
    by (auto simp: mux_safe_def all_sessions_def distinct_delete)
  with safe show ?thesis
    using mux_safeD [OF safe]
    by (auto simp: handle_remap_def intro: set_session_safe split: sum.split option.split)
qed

lemma mux_step_total:
  assumes safe: "mux_safe m" and crc: "crc_lengths_ok e"
  shows "\<exists>m'. mux_step inflate same_host m e = Some m' \<and> mux_safe m'"
proof (cases e)
  case (MuxConnect r now)
  with session_total [OF new_session_safe [OF safe], of OpConnect "\<lambda>_. Inl Zlib" Client now] safe
  show ?thesis by (auto simp: connect_eq intro!: drain_session_safe set_session_safe)
next
  case (MuxEnqueue r data channel)
  with safe show ?thesis
    using session_total [OF mux_safeD [OF safe], of r _ "OpEnqueue data channel" "\<lambda>_. Inl Zlib"]
    by (fastforce simp: enqueue_eq_settle intro: drain_session_safe set_session_safe split: option.split)
next
  case (MuxTerminate r reason now)
  with safe show ?thesis
    using session_total [OF mux_safeD [OF safe], of r _ "OpTerminate reason True now" "\<lambda>_. Inl Zlib"]
    by (fastforce simp: terminate_eq_settle intro: settle_safe split: option.split)
next
  case (MuxDatagram r dg now)
  have step: "\<exists>s'. process_incoming inflate s dg now = Some s' \<and> safe s'" if "safe s" for s
    using session_total [OF that, of "OpDatagram dg now" inflate] crc MuxDatagram
    by (simp add: crc_lengths_ok_def)
  with MuxDatagram safe show ?thesis
    using step [OF new_session_safe [OF safe, of Server now]] step [OF mux_safeD [OF safe, of r]]
    by (fastforce simp: process_eq_settle intro: settle_safe handle_remap_safe
        split: option.split OpCode.split)
next
  case (MuxTick now)
  with safe retain_total [of "mx_sessions m" now "mx_outgoing m" "mx_events m"] show ?thesis
    by (fastforce simp: mux_run_tick_def mux_safe_def all_sessions_def)
next
  case MuxTakeOutgoing
  with safe show ?thesis by (simp add: mux_take_outgoing_def mux_safe_def all_sessions_def)
next
  case MuxTakeEvents
  with safe show ?thesis by (simp add: mux_take_events_def mux_safe_def all_sessions_def)
qed

primrec mux_run ::
    "(bytes \<Rightarrow> error + bytes) \<Rightarrow> ('a \<Rightarrow> 'a \<Rightarrow> bool) \<Rightarrow> 'a multiplexer \<Rightarrow> 'a mux_op list \<Rightarrow>
     'a multiplexer option" where
  "mux_run inflate same_host m [] = Some m"
| "mux_run inflate same_host m (e # es) = do {
     m \<leftarrow> mux_step inflate same_host m e; mux_run inflate same_host m es }"

lemma mux_run_total:
  "mux_safe m \<Longrightarrow> \<forall>e\<in>set es. crc_lengths_ok e \<Longrightarrow>
   \<exists>m'. mux_run inflate same_host m es = Some m' \<and> mux_safe m'"
proof (induction es arbitrary: m)
  case (Cons e es)
  have "crc_lengths_ok e" using Cons.prems(2) by simp
  from mux_step_total [OF Cons.prems(1) this, of inflate same_host]
  obtain m1 where "mux_step inflate same_host m e = Some m1" and "mux_safe m1" by blast
  with Cons.IH [of m1] Cons.prems(2) show ?case by simp
qed simp

lemma mux_safe_new: "room_ok (default_session_params config) \<Longrightarrow> mux_safe (mux_new config)"
  by (simp add: mux_safe_def mux_new_def all_sessions_def)

text \<open>C18: A socket whose default parameters leave room for a packet returns from every sequence of
  calls, datagrams and ticks in which no datagram is a SessionResponse with a check value longer than
  four bytes: whatever else the application calls and whoever sends whatever else, remaps and
  reconnects included. (Such a response does panic it: \<open>validate_panics_iff\<close>.)\<close>

theorem socket_never_panics:
  assumes "unat (crc_length (default_session_params config)) \<le> 4"
    and "13 \<le> unat (udp_length (default_session_params config))"
    and "0 < max_queued_incoming_reliable (default_session_params config)"
    and "\<forall>e\<in>set ops. crc_lengths_ok e"
  shows "\<exists>m. mux_run inflate same_host (mux_new config) ops = Some m \<and>
    (\<forall>r s. mux_session m r = Some s \<longrightarrow> safe s)"
  using mux_run_total [OF mux_safe_new assms(4)] assms(1-3) mux_safeD
  by (fastforce simp: room_ok_def mux_session_def)

theorem socket_never_panics_witness:
  "\<exists>m. mux_run (\<lambda>_. Inl Zlib) (=) (mux_new (demo_config True))
      [MuxConnect (1 :: nat) 0, MuxEnqueue 2 [7] Unreliable, MuxTick 5] = Some m \<and>
    (\<forall>r s. mux_session m r = Some s \<longrightarrow> safe s)"
  by (rule socket_never_panics)
    (simp_all add: demo_config_def session_parameters_default_def CRC_LENGTH_def DEFAULT_UDP_LENGTH_def
      crc_lengths_ok_def)

end
