(* ===== verification/Soe_Hosts.thy ===== *)
theory Soe_Hosts
  imports Soe_Pair_Correct Soe_Multiplexer_Run
begin

text \<open>
  Two sockets on a network. Each has sessions with any number of remotes, and a session with the
  other; the other remotes may send anything. Whatever happens, the two sessions are a pair
  (\<open>Soe_Pair\<close>), and what the applications see of each other follows.
\<close>

section \<open>What a multiplexer does for one remote\<close>

definition for_remote :: "'a \<Rightarrow> ('a \<times> bytes) list \<Rightarrow> bytes list" where
  "for_remote p dgs = map snd (filter (\<lambda>d. fst d = p) dgs)"

definition data_from :: "'a \<Rightarrow> 'a SocketEvent list \<Rightarrow> received_data list" where
  "data_from p events = concat (map (\<lambda>e. case e of
      DataReceived r d channel \<Rightarrow> if r = p then [\<lparr>rc_data = d, rc_channel = channel\<rparr>] else []
    | _ \<Rightarrow> []) events)"

lemma for_remote_simps [simp]:
  "for_remote p [] = []" "for_remote p (xs @ ys) = for_remote p xs @ for_remote p ys"
  "for_remote p (map (\<lambda>dg. (r, dg)) dgs) = (if r = p then dgs else [])"
  by (simp_all add: for_remote_def filter_map comp_def)

lemma data_from_simps [simp]:
  "data_from p [] = []" "data_from p (xs @ ys) = data_from p xs @ data_from p ys"
  by (simp_all add: data_from_def)

lemma data_from_drained [simp]:
  "data_from p (drained_events r es received) = (if r = p then received else [])"
proof -
  have "data_from p (concat (map (\<lambda>e. case e of Opened \<Rightarrow> [SessionOpened r] | Closed x \<Rightarrow> []) es)) = []"
    by (induction es) (auto simp: data_from_def split: SessionEvent.split)
  moreover have "data_from p (concat (map (\<lambda>e. case e of Opened \<Rightarrow> [] | Closed x \<Rightarrow> [SessionClosed r x]) es)) = []"
    by (induction es) (auto simp: data_from_def split: SessionEvent.split)
  moreover have "data_from p (map (\<lambda>d. DataReceived r (rc_data d) (rc_channel d)) received) =
      (if r = p then received else [])"
    by (induction received) (simp_all add: data_from_def)
  ultimately show ?thesis by (simp add: drained_events_def)
qed

text \<open>The operation of the session with \<open>p\<close> that an operation of the multiplexer is.\<close>

definition op_for :: "'a \<Rightarrow> 'a mux_op \<Rightarrow> session_op option" where
  "op_for p e = (case e of
      MuxEnqueue r data channel \<Rightarrow> if r = p then Some (OpEnqueue data channel) else None
    | MuxTerminate r reason now \<Rightarrow> if r = p then Some (OpTerminate reason True now) else None
    | MuxDatagram r dg now \<Rightarrow> if r = p then Some (OpDatagram dg now) else None
    | MuxTick now \<Rightarrow> Some (OpTick now)
    | _ \<Rightarrow> None)"

text \<open>The multiplexer changes; its session with \<open>p\<close> steps to \<open>x\<close> and is drained, or is not touched.\<close>

definition evolves :: "'a \<Rightarrow> session option \<Rightarrow> 'a multiplexer \<Rightarrow> 'a multiplexer \<Rightarrow> bool" where
  "evolves p x m m' \<longleftrightarrow> (\<exists>out ev. mx_outgoing m' = mx_outgoing m @ out \<and> mx_events m' = mx_events m @ ev \<and>
     (case x of
        None \<Rightarrow> map_of (mx_sessions m') p = map_of (mx_sessions m) p \<and>
          for_remote p out = [] \<and> data_from p ev = []
      | Some s \<Rightarrow> map_of (mx_sessions m') p = (if ss_state s = Terminated then None else Some (drain s)) \<and>
          for_remote p out = ss_outgoing s \<and> data_from p ev = ss_received s))"

lemma evolves_refl: "evolves p None m m"
  by (simp add: evolves_def)

lemma evolves_settle:
  "evolves p (if r = p then Some s else None) m (Soe_Multiplexer_Run.settle r s m)"
  by (simp add: evolves_def Soe_Multiplexer_Run.settle_def)

lemma evolves_bump: "evolves p x (bump_seed m) m' = evolves p x m m'"
  by (cases x) (simp_all add: evolves_def)

lemma evolves_retain:
  assumes "retain_sessions now xs outgoing events = Some (stay, outgoing', events')"
    and "distinct (map fst xs)"
  shows "\<exists>out ev. outgoing' = outgoing @ out \<and> events' = events @ ev \<and>
    (case map_of xs p of
       None \<Rightarrow> map_of stay p = None \<and> for_remote p out = [] \<and> data_from p ev = []
     | Some s \<Rightarrow> \<exists>s'. session_run_tick s now = Some s' \<and>
         map_of stay p = (if ss_state s' = Terminated then None else Some (drain s')) \<and>
         for_remote p out = ss_outgoing s' \<and> data_from p ev = ss_received s')"
  using assms
proof (induction xs arbitrary: outgoing events stay)
  case Nil
  then show ?case by simp
next
  case (Cons e rest)
  obtain k s where e: "e = (k, s)" by (cases e)
  from Cons.prems(1) obtain s' stay' where s': "session_run_tick s now = Some s'"
    and rest: "retain_sessions now rest (outgoing @ map (\<lambda>dg. (k, dg)) (ss_outgoing s'))
      (events @ drained_events k (ss_events s') (ss_received s')) = Some (stay', outgoing', events')"
    and stay: "stay = (if ss_state s' \<noteq> Terminated then (k, drain s') # stay' else stay')"
    by (auto simp: e bind_eq_Some_iff drain_into_eq split_beta)
  have d: "distinct (map fst rest)" "k \<notin> fst ` set rest" using Cons.prems(2) by (auto simp: e)
  then have none: "map_of rest k = None" by (simp add: map_of_eq_None_iff)
  from Cons.IH [OF rest d(1)] obtain out ev where
    new: "outgoing' = (outgoing @ map (\<lambda>dg. (k, dg)) (ss_outgoing s')) @ out"
      "events' = (events @ drained_events k (ss_events s') (ss_received s')) @ ev"
    and IH: "case map_of rest p of
       None \<Rightarrow> map_of stay' p = None \<and> for_remote p out = [] \<and> data_from p ev = []
     | Some s \<Rightarrow> \<exists>s'. session_run_tick s now = Some s' \<and>
         map_of stay' p = (if ss_state s' = Terminated then None else Some (drain s')) \<and>
         for_remote p out = ss_outgoing s' \<and> data_from p ev = ss_received s'" by blast
  show ?case
  proof (cases "k = p")
    case True
    with none IH s' show ?thesis
      by (intro exI [of _ "map (\<lambda>dg. (k, dg)) (ss_outgoing s') @ out"]
          exI [of _ "drained_events k (ss_events s') (ss_received s') @ ev"])
        (auto simp: new e stay)
  next
    case False
    with IH show ?thesis
      by (intro exI [of _ "map (\<lambda>dg. (k, dg)) (ss_outgoing s') @ out"]
          exI [of _ "drained_events k (ss_events s') (ss_received s') @ ev"])
        (cases "map_of rest p"; auto simp: new e stay)
  qed
qed

text \<open>A remap moves the session it names, and touches no other.\<close>

definition names_session :: "'a multiplexer \<Rightarrow> bytes \<Rightarrow> session \<Rightarrow> bool" where
  "names_session m dg s \<longleftrightarrow> allow_port_remaps (mx_config m) \<and> (\<exists>remap.
     remap_connection_deserialize dg True = Inr remap \<and>
     ss_session_id s = rm_session_id remap \<and> crc_seed (ss_params s) = rm_crc_seed remap)"

lemma handle_remap_cases:
  assumes "distinct (map fst (mx_sessions m))"
  shows "handle_remap same_host m r dg = m \<or> (\<exists>k s. map_of (mx_sessions m) k = Some s \<and> k \<noteq> r \<and>
    same_host k r \<and> names_session m dg s \<and>
    handle_remap same_host m r dg = set_session r s (m\<lparr>mx_sessions := AList.delete k (mx_sessions m)\<rparr>))"
proof (cases "handle_remap same_host m r dg = m")
  case False
  then obtain remap where allowed: "allow_port_remaps (mx_config m)"
    and remap: "remap_connection_deserialize dg True = Inr remap"
    by (auto simp: handle_remap_def split: if_splits sum.splits)
  let ?match = "\<lambda>(key, s). ss_session_id s = rm_session_id remap \<and> crc_seed (ss_params s) = rm_crc_seed remap"
  obtain k s where found: "find ?match (mx_sessions m) = Some (k, s)"
    using False allowed remap by (auto simp: handle_remap_def split: option.splits)
  then have "(k, s) \<in> set (mx_sessions m)" and match: "?match (k, s)"
    by (auto simp: find_Some_iff in_set_conv_nth)
  then have s: "map_of (mx_sessions m) k = Some s" using assms by simp
  with False allowed remap found match show ?thesis
    by (intro disjI2 exI [of _ k] exI [of _ s])
      (auto simp: handle_remap_def names_session_def split: if_splits)
qed simp

lemma evolves_remap:
  assumes "distinct (map fst (mx_sessions m))" and "r \<noteq> p"
    and "\<And>s. map_of (mx_sessions m) p = Some s \<Longrightarrow> \<not> names_session m dg s"
  shows "evolves p None m (handle_remap same_host m r dg)"
  using handle_remap_cases [OF assms(1), of same_host r dg] assms(2,3) evolves_refl [of p m]
  by (auto simp: evolves_def set_session_def)

text \<open>Every operation keeps the sessions settled, remaps and connects to remotes with a session
  included.\<close>

lemma settle_settled:
  assumes "all_sessions settled m" and "settled s" and "lives s s'"
  shows "all_sessions settled (Soe_Multiplexer_Run.settle r s' m)"
  using assms(1) lives_surfaced(2) [OF assms(2,3)] by (intro all_sessions_settle)

lemma all_sessions_bump [simp]: "all_sessions good (bump_seed m) = all_sessions good m"
  by (simp add: all_sessions_def)

lemma connect_settle:
  assumes "mux_connect m r now = Some m'"
  shows "\<exists>s. send_session_request (new_session m Client now) = Some s \<and>
    m' = Soe_Multiplexer_Run.settle r s (bump_seed m)"
proof -
  obtain s where s: "send_session_request (new_session m Client now) = Some s"
    and m': "m' = drain_session r (set_session r s (bump_seed m))"
    using assms by (auto simp: connect_eq bind_eq_Some_iff)
  have "ss_state s \<noteq> Terminated"
    using request_keeps_state [OF s] by (simp add: new_session_def session_new_def)
  with s m' show ?thesis by (simp add: settle_live)
qed

lemma remap_settled:
  "all_sessions settled m \<Longrightarrow> all_sessions settled (handle_remap same_host m r dg)"
proof -
  assume ok: "all_sessions settled m"
  then have distinct: "distinct (map fst (mx_sessions m))" by (simp add: all_sessions_def)
  have "all_sessions settled (set_session r s (m\<lparr>mx_sessions := AList.delete k (mx_sessions m)\<rparr>))"
    if "map_of (mx_sessions m) k = Some s" for k s
  proof -
    have sub: "set (AList.update r s (AList.delete k (mx_sessions m))) \<subseteq> insert (r, s) (set (mx_sessions m))"
      using set_update [of r s "AList.delete k (mx_sessions m)"] set_delete [of k "mx_sessions m"] by blast
    show ?thesis
      using ok all_sessionsD [OF ok that]
      by (auto simp: all_sessions_def set_session_def distinct_update distinct_delete dest!: subsetD [OF sub])
  qed
  with ok handle_remap_cases [OF distinct, of same_host r dg] show ?thesis by auto
qed

lemma enqueue_settled_eq:
  assumes "all_sessions settled m" and "map_of (mx_sessions m) r = Some s"
    and "enqueue_data_on s data channel = Some (q, s')"
  shows "drain_session r (set_session r s' m) = Soe_Multiplexer_Run.settle r s' m"
  using all_sessionsD [OF assms(1,2)] enqueue_keeps_state [OF assms(3)]
  by (simp add: settle_live settled_def)

lemma step_settled:
  assumes ok: "all_sessions settled m" and step: "mux_step inflate same_host m e = Some m'"
  shows "all_sessions settled m' \<and> mx_config m' = mx_config m"
proof -
  have existing: "all_sessions settled (Soe_Multiplexer_Run.settle r s' m)"
    if "map_of (mx_sessions m) r = Some s" "session_step inflate s o' = Some s'" "o' \<noteq> OpDrain" for r s s' o'
    using settle_settled [OF ok all_sessionsD [OF ok that(1)] session_lives [OF that(2,3)]] .
  have created: "all_sessions settled (Soe_Multiplexer_Run.settle r s' (bump_seed m))"
    if "session_step inflate (new_session m mode now) o' = Some s'" "o' \<noteq> OpDrain" for r s' mode now o'
    using settle_settled [OF _ settled_new(1) session_lives [OF that], of "bump_seed m"] ok by simp
  show ?thesis
  proof (cases e)
    case (MuxConnect r now)
    with step connect_settle obtain s where s: "send_session_request (new_session m Client now) = Some s"
      and m': "m' = Soe_Multiplexer_Run.settle r s (bump_seed m)" by fastforce
    show ?thesis
      using created [of Client now OpConnect s r] s m' by (simp add: Soe_Multiplexer_Run.settle_def)
  next
    case (MuxEnqueue r data channel)
    show ?thesis
    proof (cases "map_of (mx_sessions m) r")
      case (Some s)
      with step MuxEnqueue obtain q s' where s': "enqueue_data_on s data channel = Some (q, s')"
        and m': "m' = drain_session r (set_session r s' m)"
        by (auto simp: enqueue_eq_settle bind_eq_Some_iff)
      then show ?thesis
        using existing [OF Some, of "OpEnqueue data channel" s'] enqueue_settled_eq [OF ok Some s']
        by (simp add: Soe_Multiplexer_Run.settle_def)
    qed (use step MuxEnqueue ok in \<open>auto simp: enqueue_eq_settle\<close>)
  next
    case (MuxTerminate r reason now)
    show ?thesis
    proof (cases "map_of (mx_sessions m) r")
      case (Some s)
      with step MuxTerminate existing [OF Some, of "OpTerminate reason True now"] show ?thesis
        by (auto simp: terminate_eq_settle bind_eq_Some_iff) (simp add: Soe_Multiplexer_Run.settle_def)
    qed (use step MuxTerminate ok in \<open>auto simp: terminate_eq_settle\<close>)
  next
    case (MuxDatagram r dg now)
    show ?thesis
    proof (cases "map_of (mx_sessions m) r")
      case (Some s)
      with step MuxDatagram existing [OF Some, of "OpDatagram dg now"] show ?thesis
        by (auto simp: process_eq_settle bind_eq_Some_iff) (simp add: Soe_Multiplexer_Run.settle_def)
    next
      case None
      have "mx_config (handle_remap same_host m r dg) = mx_config m"
        by (auto simp: handle_remap_def set_session_def split: sum.split option.split)
      with None step MuxDatagram created [of Server now "OpDatagram dg now"] ok remap_settled [OF ok]
      show ?thesis
        by (auto simp: process_eq_settle bind_eq_Some_iff split: option.splits OpCode.splits)
          (simp add: Soe_Multiplexer_Run.settle_def)
    qed
  next
    case (MuxTick now)
    with step obtain xs out ev where
      r: "retain_sessions now (mx_sessions m) (mx_outgoing m) (mx_events m) = Some (xs, out, ev)"
      and m': "m' = m\<lparr>mx_sessions := xs, mx_outgoing := out, mx_events := ev\<rparr>"
      by (auto simp: mux_run_tick_def bind_eq_Some_iff)
    from ok have "distinct (map fst (mx_sessions m))" "\<forall>e\<in>set (mx_sessions m). settled (snd e)"
      by (simp_all add: all_sessions_def)
    from retain_drained [OF r this] show ?thesis by (simp add: m' all_sessions_def)
  qed (use step ok in \<open>auto simp: mux_take_outgoing_def mux_take_events_def all_sessions_def\<close>)
qed

lemma reach_settled:
  "mux_reach inflate same_host config h m \<Longrightarrow> all_sessions settled m \<and> mx_config m = config"
proof (induction rule: mux_reach.induct)
  case start
  then show ?case by (simp add: all_sessions_def mux_new_def)
next
  case (operate h m e m')
  then show ?case using step_settled by metis
next
  case (rehash h m xs)
  then show ?case using rehash_sessions(1) [of settled m xs] by simp
qed

lemma step_evolves:
  assumes ok: "all_sessions settled m" and step: "mux_step inflate same_host m e = Some m'"
    and other: "e \<noteq> MuxTakeOutgoing" "e \<noteq> MuxTakeEvents" "\<And>now. e \<noteq> MuxConnect p now"
    and known: "\<And>dg now. e = MuxDatagram p dg now \<Longrightarrow> map_of (mx_sessions m) p \<noteq> None \<or>
      read_op_code dg \<noteq> Some SessionRequest \<and>
      (allow_port_remaps (mx_config m) \<longrightarrow> read_op_code dg \<noteq> Some RemapConnection)"
    and unmoved: "\<And>r dg now s. e = MuxDatagram r dg now \<Longrightarrow> map_of (mx_sessions m) r = None \<Longrightarrow>
      map_of (mx_sessions m) p = Some s \<Longrightarrow> \<not> names_session m dg s"
  shows "\<exists>x. evolves p x m m' \<and> (case map_of (mx_sessions m) p of
      None \<Rightarrow> x = None
    | Some s \<Rightarrow> (case op_for p e of
          None \<Rightarrow> x = None
        | Some o' \<Rightarrow> \<exists>s'. session_step inflate s o' = Some s' \<and> x = Some s'))"
proof (cases e)
  case (MuxConnect r now)
  then obtain s where m': "m' = Soe_Multiplexer_Run.settle r s (bump_seed m)"
    using step connect_settle [of m r now m'] by auto
  have "r \<noteq> p" using other(3) MuxConnect by blast
  then have "evolves p None m m'"
    using m' evolves_settle [of p r s "bump_seed m"] by (simp add: evolves_bump)
  then show ?thesis
    using MuxConnect by (intro exI [of _ None]) (simp add: op_for_def split: option.split)
next
  case (MuxEnqueue r data channel)
  show ?thesis
  proof (cases "map_of (mx_sessions m) r")
    case None
    with step MuxEnqueue have "m' = m" by (auto simp: enqueue_eq_settle)
    with None MuxEnqueue show ?thesis
      by (intro exI [of _ None]) (auto simp: evolves_refl op_for_def split: option.split)
  next
    case (Some s)
    then obtain q s' where s': "enqueue_data_on s data channel = Some (q, s')"
      and m': "m' = Soe_Multiplexer_Run.settle r s' m"
      using step MuxEnqueue enqueue_settled_eq [OF ok Some]
      by (auto simp: enqueue_eq_settle bind_eq_Some_iff)
    with evolves_settle [of p r s' m] MuxEnqueue Some s' show ?thesis
      by (intro exI [of _ "if r = p then Some s' else None"]) (auto simp: op_for_def split: option.split)
  qed
next
  case (MuxTerminate r reason now)
  show ?thesis
  proof (cases "map_of (mx_sessions m) r")
    case None
    with step MuxTerminate have "m' = m" by (auto simp: terminate_eq_settle)
    with None MuxTerminate show ?thesis
      by (intro exI [of _ None]) (auto simp: evolves_refl op_for_def split: option.split)
  next
    case (Some s)
    then obtain s' where s': "terminate s reason True now = Some s'"
      and m': "m' = Soe_Multiplexer_Run.settle r s' m"
      using step MuxTerminate by (auto simp: terminate_eq_settle bind_eq_Some_iff)
    with evolves_settle [of p r s' m] MuxTerminate Some show ?thesis
      by (intro exI [of _ "if r = p then Some s' else None"]) (auto simp: op_for_def split: option.split)
  qed
next
  case (MuxDatagram r dg now)
  show ?thesis
  proof (cases "map_of (mx_sessions m) r")
    case None
    have distinct: "distinct (map fst (mx_sessions m))" using ok by (simp add: all_sessions_def)
    have "evolves p None m m'"
    proof (cases "read_op_code dg = Some RemapConnection \<and> allow_port_remaps (mx_config m)")
      case True
      then have "m' = handle_remap same_host m r dg"
        using step MuxDatagram None by (simp add: process_eq_settle)
      moreover have "r \<noteq> p" using known None MuxDatagram True by blast
      ultimately show ?thesis
        using evolves_remap [OF distinct, of r p dg same_host] unmoved [OF MuxDatagram None] by blast
    next
      case False
      then have "m' = m \<or> (\<exists>s'. m' = Soe_Multiplexer_Run.settle r s' (bump_seed m)) \<and>
          read_op_code dg = Some SessionRequest"
        using step MuxDatagram None
        by (auto simp: process_eq_settle bind_eq_Some_iff handle_remap_def split: option.splits OpCode.splits)
      moreover have "r \<noteq> p \<or> read_op_code dg \<noteq> Some SessionRequest"
        using known None MuxDatagram by blast
      ultimately show ?thesis
        using evolves_refl [of p m] evolves_settle [of p r _ "bump_seed m"] by (auto simp: evolves_bump)
    qed
    with MuxDatagram None show ?thesis
      by (intro exI [of _ None]) (auto simp: op_for_def split: option.split)
  next
    case (Some s)
    then obtain s' where s': "process_incoming inflate s dg now = Some s'"
      and m': "m' = Soe_Multiplexer_Run.settle r s' m"
      using step MuxDatagram by (auto simp: process_eq_settle bind_eq_Some_iff)
    with evolves_settle [of p r s' m] MuxDatagram Some show ?thesis
      by (intro exI [of _ "if r = p then Some s' else None"]) (auto simp: op_for_def split: option.split)
  qed
next
  case (MuxTick now)
  then obtain xs out ev where r: "retain_sessions now (mx_sessions m) (mx_outgoing m) (mx_events m) = Some (xs, out, ev)"
    and m': "m' = m\<lparr>mx_sessions := xs, mx_outgoing := out, mx_events := ev\<rparr>"
    using step by (auto simp: mux_run_tick_def bind_eq_Some_iff)
  have "distinct (map fst (mx_sessions m))" using ok by (simp add: all_sessions_def)
  note new = evolves_retain [OF r this, of p]
  show ?thesis
  proof (cases "map_of (mx_sessions m) p")
    case None
    with new show ?thesis by (intro exI [of _ None]) (auto simp: evolves_def m')
  next
    case (Some s)
    with new obtain s' where "session_run_tick s now = Some s'" by auto
    with new Some MuxTick show ?thesis
      by (intro exI [of _ "Some s'"]) (simp add: evolves_def m' op_for_def)
  qed
qed (use other in simp_all)

section \<open>Two hosts\<close>

text \<open>
  A socket, the events its application has taken, its session with the peer, as it was when it last
  existed, the datagrams it has produced for the peer, each with the window starts of the receive
  channels when the operation that produced it began, and the data the application has enqueued for
  the peer on each reliable channel.
\<close>

record 'a host =
  ho_mux :: "'a multiplexer"
  ho_past :: "'a SocketEvent list"
  ho_session :: session
  ho_net :: "(bytes \<times> (nat \<Rightarrow> int)) set"
  ho_data :: "nat \<Rightarrow> bytes list"

definition received_from :: "'a \<Rightarrow> 'a host \<Rightarrow> received_data list" where
  "received_from p h = data_from p (ho_past h @ mx_events (ho_mux h))"

text \<open>The host as an endpoint of its session with \<open>p\<close>.\<close>

definition view :: "'a \<Rightarrow> 'a host \<Rightarrow> endpoint" where
  "view p h = \<lparr>ep_session = ho_session h, ep_net = ho_net h, ep_sent = ho_data h,
     ep_got = received_from p h\<rparr>"

definition connected :: "'a \<Rightarrow> 'a host \<Rightarrow> bool" where
  "connected p h \<longleftrightarrow> mux_session (ho_mux h) p \<noteq> None"

text \<open>
  What may happen at a host whose peer has the address \<open>p\<close>. The application does not connect to the
  peer again, and what it enqueues for the peer is a message (unencrypted data that starts with the
  bytes 00 19 is not); from the address of the peer comes, while the session exists, what the peer has
  produced, on time, and once it has ended neither a request for a new session nor a remap; and no other
  address presents the session id and the CRC key of the session in a remap. Everything else may
  happen: any calls for other remotes, any datagram from other addresses, remaps of other sessions.
\<close>

definition admitted :: "'a \<Rightarrow> 'a \<Rightarrow> 'a host \<Rightarrow> 'a host \<Rightarrow> 'a mux_op \<Rightarrow> bool" where
  "admitted own p peer h e = (case e of
      MuxConnect r now \<Rightarrow> r \<noteq> p
    | MuxEnqueue r data channel \<Rightarrow> r = p \<and> connected p h \<longrightarrow>
        reliable_target (ho_session h) data channel = None \<or> message_ok (ss_cipher (ho_session h)) data
    | MuxDatagram r dg now \<Rightarrow>
        (if r = p
         then (if connected p h then \<exists>m. (dg, m) \<in> ho_net peer \<and> on_time (view own peer) (view p h) dg m
           else read_op_code dg \<noteq> Some SessionRequest \<and> read_op_code dg \<noteq> Some RemapConnection)
         else mux_session (ho_mux h) r = None \<and> connected p h \<longrightarrow>
           \<not> names_session (ho_mux h) dg (ho_session h))
    | _ \<Rightarrow> True)"

text \<open>The datagrams for \<open>p\<close> an operation adds to those waiting.\<close>

definition produced :: "'a \<Rightarrow> 'a multiplexer \<Rightarrow> 'a multiplexer \<Rightarrow> bytes list" where
  "produced p m m' = for_remote p (drop (length (mx_outgoing m)) (mx_outgoing m'))"

definition session_after ::
    "(bytes \<Rightarrow> error + bytes) \<Rightarrow> 'a \<Rightarrow> 'a host \<Rightarrow> 'a mux_op \<Rightarrow> session" where
  "session_after inflate p h e = (case op_for p e of
      None \<Rightarrow> ho_session h
    | Some o' \<Rightarrow> if connected p h
        then (case session_step inflate (ho_session h) o' of None \<Rightarrow> ho_session h | Some s \<Rightarrow> drain s)
        else ho_session h)"

definition host_after ::
    "(bytes \<Rightarrow> error + bytes) \<Rightarrow> 'a \<Rightarrow> 'a host \<Rightarrow> 'a mux_op \<Rightarrow> 'a multiplexer \<Rightarrow> 'a host" where
  "host_after inflate p h e m' =
     \<lparr>ho_mux = m',
      ho_past = (if e = MuxTakeEvents then ho_past h @ mx_events (ho_mux h) else ho_past h),
      ho_session = session_after inflate p h e,
      ho_net = ho_net h \<union> (\<lambda>dg. (dg, window_marks (ho_session h))) ` set (produced p (ho_mux h) m'),
      ho_data = (case e of
          MuxEnqueue r data channel \<Rightarrow>
            if r = p \<and> connected p h then sent_after (ho_session h) data channel (ho_data h) else ho_data h
        | _ \<Rightarrow> ho_data h)\<rparr>"

inductive host_step ::
    "(bytes \<Rightarrow> error + bytes) \<Rightarrow> ('a \<Rightarrow> 'a \<Rightarrow> bool) \<Rightarrow> 'a \<Rightarrow> 'a \<Rightarrow> 'a host \<Rightarrow> 'a host \<Rightarrow> 'a host \<Rightarrow> bool"
  for inflate same_host own p peer where
  operates: "admitted own p peer h e \<Longrightarrow> mux_step inflate same_host (ho_mux h) e = Some m' \<Longrightarrow>
    host_step inflate same_host own p peer h (host_after inflate p h e m')"
| rehashes: "mset xs = mset (mx_sessions (ho_mux h)) \<Longrightarrow>
    host_step inflate same_host own p peer h (h\<lparr>ho_mux := (ho_mux h)\<lparr>mx_sessions := xs\<rparr>\<rparr>)"

text \<open>A host at the start: a reachable socket, its events taken, with a session for the peer.\<close>

definition starts ::
    "(bytes \<Rightarrow> error + bytes) \<Rightarrow> ('a \<Rightarrow> 'a \<Rightarrow> bool) \<Rightarrow> 'a \<Rightarrow> session \<Rightarrow> 'a host \<Rightarrow> bool" where
  "starts inflate same_host p s h \<longleftrightarrow>
     (\<exists>config past. mux_reach inflate same_host config past (ho_mux h)) \<and>
     mux_session (ho_mux h) p = Some s \<and> mx_events (ho_mux h) = [] \<and> ho_past h = [] \<and>
     ho_session h = s \<and> ho_net h = {} \<and> ho_data h = (\<lambda>_. [])"

inductive hosts_reach ::
    "(bytes \<Rightarrow> error + bytes) \<Rightarrow> ('a \<Rightarrow> 'a \<Rightarrow> bool) \<Rightarrow> 'a \<Rightarrow> 'a \<Rightarrow> session \<Rightarrow> session \<Rightarrow>
     'a host \<Rightarrow> 'a host \<Rightarrow> bool"
  for inflate same_host a b s r where
  start: "starts inflate same_host b s A \<Longrightarrow> starts inflate same_host a r B \<Longrightarrow> negotiated s r \<Longrightarrow>
    hosts_reach inflate same_host a b s r A B"
| left: "hosts_reach inflate same_host a b s r A B \<Longrightarrow> host_step inflate same_host a b B A A' \<Longrightarrow>
    hosts_reach inflate same_host a b s r A' B"
| right: "hosts_reach inflate same_host a b s r A B \<Longrightarrow> host_step inflate same_host b a A B B' \<Longrightarrow>
    hosts_reach inflate same_host a b s r A B'"

section \<open>The invariant of a host\<close>

definition host_ok :: "'a \<Rightarrow> 'a host \<Rightarrow> bool" where
  "host_ok p h \<longleftrightarrow> all_sessions settled (ho_mux h) \<and>
     (\<forall>s. mux_session (ho_mux h) p = Some s \<longrightarrow> ho_session h = s)"

lemma host_ok_settled: "host_ok p h \<Longrightarrow> mux_session (ho_mux h) p = Some s \<Longrightarrow> settled s"
  using all_sessionsD [of settled "ho_mux h" p s] by (simp add: host_ok_def mux_session_def)

lemma drain_settled: "settled s \<Longrightarrow> drain s = s"
  by (simp add: settled_def drain_def)

lemma host_ok_lookup:
  "host_ok p h \<Longrightarrow> map_of (mx_sessions (ho_mux h)) p = Some s \<Longrightarrow> ho_session h = s"
  by (simp add: host_ok_def mux_session_def)

lemma connected_iff: "connected p h = (map_of (mx_sessions (ho_mux h)) p \<noteq> None)"
  by (simp add: connected_def mux_session_def)

text \<open>What follows for the host when its multiplexer evolves.\<close>

lemma host_after_untouched:
  assumes "evolves p None (ho_mux h) m'" and "session_after inflate p h e = ho_session h"
    and "e \<noteq> MuxTakeEvents"
    and "\<And>data channel. e = MuxEnqueue p data channel \<Longrightarrow> \<not> connected p h"
  shows "view p (host_after inflate p h e m') = view p h"
    and "mux_session m' p = mux_session (ho_mux h) p"
  using assms
  by (auto simp: evolves_def view_def host_after_def produced_def received_from_def mux_session_def
      split: mux_op.split)

lemma host_after_stepped:
  assumes "evolves p (Some s) (ho_mux h) m'" and "session_after inflate p h e = drain s"
    and "e \<noteq> MuxTakeEvents"
  shows "view p (host_after inflate p h e m') =
      Soe_Pair.settle (view p h) s (ho_data (host_after inflate p h e m'))"
    and "mux_session m' p = (if ss_state s = Terminated then None else Some (drain s))"
  using assms
  by (auto simp: evolves_def view_def host_after_def produced_def received_from_def mux_session_def
      Soe_Pair.settle_def)

lemma host_takes:
  assumes "mux_step inflate same_host (ho_mux h) e = Some m'"
    and "e = MuxTakeOutgoing \<or> e = MuxTakeEvents"
  shows "view p (host_after inflate p h e m') = view p h"
    and "mux_session m' p = mux_session (ho_mux h) p"
    and "session_after inflate p h e = ho_session h"
  using assms
  by (auto simp: view_def host_after_def produced_def received_from_def mux_session_def
      session_after_def op_for_def mux_take_outgoing_def mux_take_events_def)

text \<open>An operation of the session with the peer is a step of the endpoint.\<close>

lemma host_endpoint_step:
  assumes "admitted own p peer h e" and "connected p h" and "op_for p e = Some o'"
    and "session_step inflate (ho_session h) o' = Some s"
  shows "endpoint_step inflate (view own peer) (view p h)
    (Soe_Pair.settle (view p h) s (ho_data (host_after inflate p h e m')))"
proof (cases e)
  case (MuxEnqueue r data channel)
  with assms obtain q where "r = p" and
    "enqueue_data_on (ep_session (view p h)) data channel = Some (q, s)"
    by (auto simp: op_for_def view_def split: if_splits)
  from endpoint_step.enqueue [OF this(2)] this(1) assms(1,2) MuxEnqueue show ?thesis
    by (simp add: admitted_def host_after_def view_def)
next
  case (MuxTerminate r reason now)
  with assms have "terminate (ep_session (view p h)) reason True now = Some s"
    by (auto simp: op_for_def view_def split: if_splits)
  from endpoint_step.close [OF this] MuxTerminate show ?thesis
    by (simp add: host_after_def view_def)
next
  case (MuxDatagram r dg now)
  with assms obtain m where "(dg, m) \<in> ep_net (view own peer)"
    and "on_time (view own peer) (view p h) dg m"
    and "process_incoming inflate (ep_session (view p h)) dg now = Some s"
    by (auto simp: op_for_def admitted_def view_def split: if_splits)
  from endpoint_step.datagram [OF this] MuxDatagram show ?thesis
    by (simp add: host_after_def view_def)
next
  case (MuxTick now)
  with assms have "session_run_tick (ep_session (view p h)) now = Some s"
    by (auto simp: op_for_def view_def)
  from endpoint_step.tick [OF this] MuxTick show ?thesis
    by (simp add: host_after_def view_def)
qed (use assms in \<open>simp_all add: op_for_def\<close>)

lemma host_operates_keeps:
  assumes "host_ok p h" and "mux_step inflate same_host (ho_mux h) e = Some m'"
    and "\<And>s. mux_session m' p = Some s \<Longrightarrow> session_after inflate p h e = s"
  shows "host_ok p (host_after inflate p h e m')"
  using assms(1,3) step_settled [OF _ assms(2)] by (auto simp: host_ok_def host_after_def)

lemma host_operates:
  assumes ok: "host_ok p h" and admitted: "admitted own p peer h e"
    and step: "mux_step inflate same_host (ho_mux h) e = Some m'"
  shows "host_ok p (host_after inflate p h e m') \<and>
    (view p (host_after inflate p h e m') = view p h \<or>
     endpoint_step inflate (view own peer) (view p h) (view p (host_after inflate p h e m')))"
proof (cases "e = MuxTakeOutgoing \<or> e = MuxTakeEvents")
  case True
  have "host_ok p (host_after inflate p h e m')"
    using host_takes(2,3) [OF step True] ok
    by (intro host_operates_keeps [OF ok step]) (auto simp: host_ok_def)
  with host_takes(1) [OF step True] show ?thesis by blast
next
  case False
  let ?m = "ho_mux h"
  have settled: "all_sessions settled ?m" using ok by (simp add: host_ok_def)
  have "\<exists>x. evolves p x ?m m' \<and> (case map_of (mx_sessions ?m) p of
      None \<Rightarrow> x = None
    | Some s \<Rightarrow> (case op_for p e of
          None \<Rightarrow> x = None
        | Some o' \<Rightarrow> \<exists>s'. session_step inflate s o' = Some s' \<and> x = Some s'))"
  proof (rule step_evolves [OF settled step])
    show "\<not> names_session ?m dg s"
      if "e = MuxDatagram r dg now" "map_of (mx_sessions ?m) r = None" "map_of (mx_sessions ?m) p = Some s"
      for r dg now s
      using admitted that host_ok_lookup [OF ok that(3)]
      by (auto simp: admitted_def connected_iff mux_session_def split: if_splits)
  qed (use False admitted in \<open>auto simp: admitted_def connected_iff mux_session_def split: if_splits\<close>)
  then obtain x where evolves: "evolves p x ?m m'" and x: "case map_of (mx_sessions ?m) p of
      None \<Rightarrow> x = None
    | Some s \<Rightarrow> (case op_for p e of
          None \<Rightarrow> x = None
        | Some o' \<Rightarrow> \<exists>s'. session_step inflate s o' = Some s' \<and> x = Some s')" by blast
  show ?thesis
  proof (cases x)
    case None
    have idle: "session_after inflate p h e = ho_session h \<and>
        (\<forall>data channel. e = MuxEnqueue p data channel \<longrightarrow> \<not> connected p h)"
      using x None by (auto simp: session_after_def connected_iff op_for_def split: option.splits)
    note same = host_after_untouched [of p h m' inflate e]
    have "view p (host_after inflate p h e m') = view p h" "mux_session m' p = mux_session ?m p"
      using same evolves None idle False by blast+
    moreover from this(2) have "host_ok p (host_after inflate p h e m')"
      using idle ok by (intro host_operates_keeps [OF ok step]) (auto simp: host_ok_def)
    ultimately show ?thesis by blast
  next
    case (Some s')
    then obtain s o' where s: "map_of (mx_sessions ?m) p = Some s" and o': "op_for p e = Some o'"
      and s': "session_step inflate s o' = Some s'"
      using x by (auto split: option.splits)
    have own: "ho_session h = s" and connected: "connected p h"
      using host_ok_lookup [OF ok s] s by (simp_all add: connected_iff)
    have after: "session_after inflate p h e = drain s'"
      using o' s' own connected by (simp add: session_after_def)
    note stepped = host_after_stepped [OF evolves [unfolded Some] after]
    have "host_ok p (host_after inflate p h e m')"
      using stepped(2) False after
      by (intro host_operates_keeps [OF ok step]) (auto split: if_splits)
    moreover have "endpoint_step inflate (view own peer) (view p h) (view p (host_after inflate p h e m'))"
      using host_endpoint_step [OF admitted connected o', of inflate s' m'] s' own stepped(1) False
      by simp
    ultimately show ?thesis by blast
  qed
qed

section \<open>The runs of two hosts are runs of a pair\<close>

lemma host_rehashes:
  assumes "host_ok p h" and "mset xs = mset (mx_sessions (ho_mux h))"
  shows "host_ok p (h\<lparr>ho_mux := (ho_mux h)\<lparr>mx_sessions := xs\<rparr>\<rparr>)"
    and "view p (h\<lparr>ho_mux := (ho_mux h)\<lparr>mx_sessions := xs\<rparr>\<rparr>) = view p h"
proof -
  have ok: "all_sessions settled (ho_mux h)" using assms(1) by (simp add: host_ok_def)
  with rehash_sessions [OF ok assms(2)] assms(1)
  show "host_ok p (h\<lparr>ho_mux := (ho_mux h)\<lparr>mx_sessions := xs\<rparr>\<rparr>)"
    by (simp add: host_ok_def mux_session_def)
qed (simp add: view_def received_from_def)

lemma host_step_sound:
  assumes "host_step inflate same_host own p peer h h'" and "host_ok p h"
  shows "host_ok p h' \<and>
    (view p h' = view p h \<or> endpoint_step inflate (view own peer) (view p h) (view p h'))"
  using assms
proof (induction rule: host_step.induct)
  case (operates h e m')
  from host_operates [OF operates(3,1,2)] show ?case .
next
  case (rehashes xs h)
  show ?case by (intro conjI disjI1) (rule host_rehashes [OF rehashes(2,1)])+
qed

lemma starts_ok:
  assumes "starts inflate same_host p s h"
  shows "host_ok p h" and "view p h = fresh_endpoint s"
proof -
  obtain config past where "mux_reach inflate same_host config past (ho_mux h)"
    using assms by (auto simp: starts_def)
  with reach_settled [OF this] assms show ok: "host_ok p h" by (auto simp: starts_def host_ok_def)
  have "settled s" using host_ok_settled [OF ok] assms by (simp add: starts_def)
  with assms show "view p h = fresh_endpoint s"
    by (simp add: starts_def view_def fresh_endpoint_def drain_settled received_from_def)
qed

lemma hosts_pair:
  assumes "hosts_reach inflate same_host a b s r A B"
  shows "pair_reach inflate s r (view b A, view a B) \<and> host_ok b A \<and> host_ok a B"
  using assms
proof (induction rule: hosts_reach.induct)
  case (start A B)
  then show ?case using starts_ok pair_reach.start [OF start(3)] by metis
next
  case (left A B A')
  then show ?case
    using host_step_sound [OF left(2)] pair_reach.step [OF _ pair_step.left] by metis
next
  case (right A B B')
  then show ?case
    using host_step_sound [OF right(2)] pair_reach.step [OF _ pair_step.right] by metis
qed

section \<open>Two sockets negotiate\<close>

text \<open>A host at the start.\<close>

definition first_host :: "'a multiplexer \<Rightarrow> session \<Rightarrow> 'a host" where
  "first_host m s = \<lparr>ho_mux = m, ho_past = [], ho_session = s, ho_net = {}, ho_data = (\<lambda>_. [])\<rparr>"

lemma starts_first:
  assumes "mux_reach inflate same_host config h m"
    and "mux_session m p = Some s" and "mx_events m = []"
  shows "starts inflate same_host p s (first_host m s)"
  using assms unfolding starts_def first_host_def by auto

lemma no_channels_drain [simp]:
  "no_channels (drain s) = no_channels s" "no_channels (s\<lparr>last_received := t\<rparr>) = no_channels s"
  by (simp_all add: no_channels_def drain_def)

lemma drain_fields [simp]:
  "ss_params (drain s) = ss_params s" "ss_cipher (drain s) = ss_cipher s" "ss_events (drain s) = []"
  by (simp_all add: drain_def)

lemma mux_negotiation:
  fixes ca cb :: socket_config and a b :: 'a and t0 t2 :: instant
  defines "pc \<equiv> default_session_params ca" and "ps \<equiv> default_session_params cb"
  assumes protocol: "application_protocol ps = application_protocol pc"
    and "0 \<notin> set (application_protocol pc)" and "valid_utf8 (application_protocol pc)"
  shows "\<exists>m1 m2 m3 s r req resp.
    mux_connect (mux_new ca) b t0 = Some m1 \<and> mx_outgoing m1 = [(b, req)] \<and>
    mux_process_incoming inflate same_host (mux_new cb) a req t2 = Some m2 \<and>
    mx_outgoing m2 = [(a, resp)] \<and> mx_events m2 = [] \<and>
    mux_process_incoming inflate same_host m1 b resp t3 = Some m3 \<and> mx_events m3 = [SessionOpened b] \<and>
    mux_session m3 b = Some s \<and> mux_session m2 a = Some r \<and>
    ss_state s = Running \<and> ss_state r = Running \<and> same_wire (ss_params s) (ss_params r) \<and>
    no_channels s \<and> no_channels r \<and> ss_cipher s = app_params ca \<and> ss_cipher r = app_params cb \<and>
    kept_params pc (ss_params s) \<and> kept_params ps (ss_params r)"
proof -
  define c where "c = new_session (mux_new ca :: 'a multiplexer) Client t0"
  define q where "q = request_of c"
  define c1 where "c1 = push_outgoing (session_request_bytes q)
    (c\<lparr>ss_rng := snd (next_u32 (ss_rng c)), ss_session_id := fst (next_u32 (ss_rng c))\<rparr>)"
  define d where "d = (new_session (mux_new cb :: 'a multiplexer) Server t2)\<lparr>last_received := t2\<rparr>"
  define resp where "resp = response_of d (sr_session_id q)"
  define c2 where "c2 = established ((drain c1)\<lparr>last_received := t3\<rparr>) resp"
  let ?ma = "mux_new ca :: 'a multiplexer" and ?mb = "mux_new cb :: 'a multiplexer"
  let ?m1 = "Soe_Multiplexer_Run.settle b c1 (bump_seed ?ma)"
  let ?m2 = "Soe_Multiplexer_Run.settle a (accepted d q) (bump_seed ?mb)"
  let ?m3 = "Soe_Multiplexer_Run.settle b c2 ?m1"
  note new = new_session_def session_new_def mux_new_def
  have c: "ss_state c = Negotiating" "ss_mode c = Client" "ss_params c = pc" "no_channels c"
      "ss_cipher c = app_params ca" "ss_events c = []" "ss_outgoing c = []" "ss_received c = []"
      "\<not> open_session_on_next_packet c"
    by (simp_all add: c_def pc_def new no_channels_def)
  have d: "ss_params d = ps" "no_channels d" "ss_cipher d = app_params cb" "ss_events d = []"
      "ss_outgoing d = []" "ss_received d = []"
    by (simp_all add: d_def ps_def new no_channels_def)
  have q: "session_request_ok q" "sr_soe_protocol_version q = SOE_PROTOCOL_VERSION"
      "sr_application_protocol q = application_protocol pc" "sr_udp_length q = udp_length pc"
    using assms(4,5) by (simp_all add: q_def request_of_def session_request_ok_def c)
  have resp: "sp_soe_protocol_version resp = SOE_PROTOCOL_VERSION" "sp_udp_length resp = udp_length ps"
      "sp_crc_length resp = CRC_LENGTH" "sp_is_compression_enabled resp = is_compression_enabled ps"
      "sp_crc_seed resp = fst (next_u32 (ss_rng d))"
    by (simp_all add: resp_def response_of_def d)
  have c1: "ss_state c1 = Negotiating" "ss_mode c1 = Client" "ss_params c1 = pc" "no_channels c1"
      "ss_cipher c1 = app_params ca" "ss_events c1 = []" "ss_received c1 = []"
      "ss_outgoing c1 = [session_request_bytes q]" "\<not> open_session_on_next_packet c1"
    using c by (simp_all add: c1_def push_outgoing_def no_channels_def)
  have connects: "mux_connect ?ma b t0 = Some ?m1"
    using client_requests [OF c(1,2)] c1(1)
    by (simp add: connect_eq settle_live flip: c_def q_def c1_def)
  have op: "read_op_code (session_request_bytes q) = Some SessionRequest"
    by (simp add: layout_defs op_from_u16_def)
  have "process_incoming inflate (new_session ?mb Server t2) (session_request_bytes q) t2 =
      Some (accepted d q)"
    unfolding d_def using q protocol by (intro server_step) (simp_all add: new no_channels_def ps_def)
  then have accepts: "mux_process_incoming inflate same_host ?mb a (session_request_bytes q) t2 = Some ?m2"
    using op by (simp add: process_eq_settle) (simp add: mux_new_def)
  have found: "map_of (mx_sessions ?m1) b = Some (drain c1)"
    by (simp add: Soe_Multiplexer_Run.settle_def c1)
  have "process_incoming inflate (drain c1) (session_response_bytes resp) t3 = Some c2"
    unfolding c2_def using c1 by (intro client_step resp(1)) (simp_all add: drain_def no_channels_def)
  then have opens: "mux_process_incoming inflate same_host ?m1 b (session_response_bytes resp) t3 = Some ?m3"
    using found by (simp add: process_eq_settle)
  have c2: "ss_state c2 = Running" "no_channels c2" "ss_cipher c2 = app_params ca" "ss_events c2 = [Opened]"
      "ss_params c2 = pc\<lparr>remote_udp_length := sp_udp_length resp,
        crc_length := sp_crc_length resp, crc_seed := sp_crc_seed resp,
        is_compression_enabled := sp_is_compression_enabled resp\<rparr>"
    using c1 by (simp_all add: c2_def)
  have received: "ss_received (accepted d q) = []" "ss_received c2 = []"
    using d by (simp_all add: c2_def accepted_def established_def push_outgoing_def push_event_def drain_def)
  have sessions: "mux_session ?m3 b = Some (drain c2)" "mux_session ?m2 a = Some (drain (accepted d q))"
    using c2(1) by (simp_all add: mux_session_def Soe_Multiplexer_Run.settle_def)
  have queues: "mx_outgoing ?m1 = [(b, session_request_bytes q)]"
      "mx_outgoing ?m2 = [(a, session_response_bytes resp)]" "mx_events ?m2 = []"
      "mx_events ?m3 = [SessionOpened b]"
    using c1 c2 d received
    by (simp_all add: Soe_Multiplexer_Run.settle_def mux_new_def drained_events_def resp_def)
  have agree: "ss_state (drain c2) = Running" "ss_state (drain (accepted d q)) = Running"
      "same_wire (ss_params (drain c2)) (ss_params (drain (accepted d q)))"
      "no_channels (drain c2)" "no_channels (drain (accepted d q))"
      "ss_cipher (drain c2) = app_params ca" "ss_cipher (drain (accepted d q)) = app_params cb"
      "kept_params pc (ss_params (drain c2))" "kept_params ps (ss_params (drain (accepted d q)))"
    using c2 d q(4) resp by (simp_all add: same_wire_def kept_params_def CRC_LENGTH_def)
  show ?thesis
    using connects accepts opens sessions queues agree by metis
qed

text \<open>What two sockets need to negotiate.\<close>

definition compatible :: "socket_config \<Rightarrow> socket_config \<Rightarrow> bool" where
  "compatible ca cb \<longleftrightarrow>
     application_protocol (default_session_params cb) = application_protocol (default_session_params ca) \<and>
     0 \<notin> set (application_protocol (default_session_params ca)) \<and>
     valid_utf8 (application_protocol (default_session_params ca)) \<and>
     app_params ca = app_params cb \<and>
     (\<forall>p\<in>{default_session_params ca, default_session_params cb}. 13 \<le> unat (udp_length p) \<and>
        0 < max_queued_incoming_reliable p \<and> unat (max_queued_outgoing_reliable p) \<le> 32767)"

lemma hosts_start:
  assumes "compatible ca cb"
  shows "\<exists>m1 m2 m3 req resp s r.
    mux_connect (mux_new ca) b t0 = Some m1 \<and> mx_outgoing m1 = [(b, req)] \<and>
    mux_process_incoming inflate same_host (mux_new cb) a req t2 = Some m2 \<and>
    mx_outgoing m2 = [(a, resp)] \<and>
    mux_process_incoming inflate same_host m1 b resp t3 = Some m3 \<and>
    mx_events m3 = [SessionOpened b] \<and> mux_session m3 b = Some s \<and> ss_state s = Running \<and>
    ss_cipher s = app_params ca \<and>
    hosts_reach inflate same_host a b s r
      (first_host (snd (mux_take_events m3)) s) (first_host m2 r)"
proof -
  obtain m1 m2 m3 s r req resp where
    m1: "mux_connect (mux_new ca) b t0 = Some m1" "mx_outgoing m1 = [(b, req)]" and
    m2: "mux_process_incoming inflate same_host (mux_new cb) a req t2 = Some m2"
      "mx_outgoing m2 = [(a, resp)]" "mx_events m2 = []" and
    m3: "mux_process_incoming inflate same_host m1 b resp t3 = Some m3" "mx_events m3 = [SessionOpened b]" and
    sessions: "mux_session m3 b = Some s" "mux_session m2 a = Some r" and
    run: "ss_state s = Running" "ss_state r = Running" "same_wire (ss_params s) (ss_params r)"
      "no_channels s" "no_channels r" "ss_cipher s = app_params ca" "ss_cipher r = app_params cb" and
    params: "kept_params (default_session_params ca) (ss_params s)"
      "kept_params (default_session_params cb) (ss_params r)"
    using mux_negotiation [of cb ca b t0 inflate same_host a t2 t3] assms
    by (auto simp: compatible_def)
  have empty: "mux_session (mux_new c) x = None" for c and x :: 'a
    by (simp add: mux_session_def mux_new_def)
  note go = mux_reach.operate [of inflate same_host]
  have "mux_reach inflate same_host ca [] m1"
    using go [OF mux_reach.start, of _ "MuxConnect b t0"] m1(1) empty by simp
  then have "mux_reach inflate same_host ca [] m3"
    using go [of ca "[]" m1 "MuxDatagram b resp t3"] m3(1) by simp
  then have left: "mux_reach inflate same_host ca (mx_events m3) (snd (mux_take_events m3))"
    using go [of ca "[]" m3 MuxTakeEvents] by simp
  have right: "mux_reach inflate same_host cb [] m2"
    using go [OF mux_reach.start, of _ "MuxDatagram a req t2"] m2(1) by simp
  have "pair_params (ss_params s)" "pair_params (ss_params r)"
    using params assms
    by (simp_all add: compatible_def kept_params_def pair_params_def room_ok_def CRC_LENGTH_def)
  then have "negotiated s r"
    using run assms by (simp add: negotiated_def compatible_def)
  then have "hosts_reach inflate same_host a b s r
      (first_host (snd (mux_take_events m3)) s) (first_host m2 r)"
    using sessions m2(3) starts_first [OF left] starts_first [OF right]
    by (intro hosts_reach.start) (simp_all add: mux_take_events_def mux_session_def)
  with m1 m2 m3 run(1,6) sessions(1) show ?thesis by blast
qed

text \<open>A client that has enqueued a message on channel 0.\<close>

lemma reliable_enqueue_accepts:
  assumes "past s" and "ss_state s = Running" and "data \<noteq> []"
  shows "\<exists>q s'. enqueue_data_on s data (Reliable 0) = Some (q, s')"
  using step_past [OF assms(1), of "\<lambda>_. Inl Zlib" "OpEnqueue data (Reliable 0)"] by auto

lemma hosts_message:
  assumes "hosts_reach inflate same_host a b s r A B" and "connected b A"
    and "ss_state (ho_session A) = Running" and "message_ok (ss_cipher (ho_session A)) data"
    and "data \<noteq> []"
  obtains A' where "hosts_reach inflate same_host a b s r A' B" and
    "ho_data A' = (ho_data A)(0 := ho_data A 0 @ [data])" and "connected b A'"
proof -
  have pair: "pair_reach inflate s r (view b A, view a B)" and ok: "host_ok b A"
    using hosts_pair [OF assms(1)] by simp_all
  then have "past (ho_session A)" using pair_reach_past [OF pair] by (simp add: view_def)
  then obtain q s' where s': "enqueue_data_on (ho_session A) data (Reliable 0) = Some (q, s')"
    using reliable_enqueue_accepts assms(3,5) by blast
  have "map_of (mx_sessions (ho_mux A)) b = Some (ho_session A)"
    using assms(2) host_ok_lookup [OF ok] by (auto simp: connected_iff)
  then obtain m' where m': "mux_step inflate same_host (ho_mux A) (MuxEnqueue b data (Reliable 0)) = Some m'"
    using s' by (simp add: enqueue_eq_settle)
  then have still: "map_of (mx_sessions m') b = Some (drain s')"
    using s' \<open>map_of (mx_sessions (ho_mux A)) b = Some (ho_session A)\<close>
    by (auto simp: enqueue_eq_settle drain_session_def drain_into_eq split: option.splits)
  have "admitted a b B A (MuxEnqueue b data (Reliable 0))" using assms(4) by (simp add: admitted_def)
  from hosts_reach.left [OF assms(1) host_step.operates [OF this m']] show ?thesis
    by (rule that) (use assms(2,3,5) still in \<open>simp_all add: host_after_def sent_after_def
      reliable_target_def RELIABLE_CHANNEL_COUNT_def connected_iff\<close>)
qed

section \<open>Properties\<close>

text \<open>C16: Two sockets negotiate: when one connects to the other and its request and the answer
  arrive, the application of the first sees the session open, and the two hosts can begin. The two are
  of one application protocol and cipher, and their parameters leave room for packets and windows.\<close>

theorem sockets_negotiate:
  assumes "compatible ca cb"
  shows "\<exists>m1 m2 m3 req resp s r.
    mux_connect (mux_new ca) b t0 = Some m1 \<and> mx_outgoing m1 = [(b, req)] \<and>
    mux_process_incoming inflate same_host (mux_new cb) a req t2 = Some m2 \<and>
    mx_outgoing m2 = [(a, resp)] \<and>
    mux_process_incoming inflate same_host m1 b resp t3 = Some m3 \<and>
    mx_events m3 = [SessionOpened b] \<and> ss_state s = Running \<and>
    hosts_reach inflate same_host a b s r
      (first_host (snd (mux_take_events m3)) s) (first_host m2 r)"
  using hosts_start [OF assms, of b t0 inflate same_host a t2 t3] by blast

lemma demo_compatible: "compatible (demo_config x) (demo_config y)"
  by (simp add: compatible_def Soe_Multiplexer_Run.demo_config_def session_parameters_default_def
      DEFAULT_UDP_LENGTH_def valid_utf8.simps [of "[]"])

theorem sockets_negotiate_witness:
  "\<exists>m1 m2 m3 req resp s r.
    mux_connect (mux_new (demo_config False)) (2 :: nat) 0 = Some m1 \<and> mx_outgoing m1 = [(2, req)] \<and>
    mux_process_incoming (\<lambda>_. Inl Zlib) (=) (mux_new (demo_config False)) 1 req 1 = Some m2 \<and>
    mx_outgoing m2 = [(1, resp)] \<and>
    mux_process_incoming (\<lambda>_. Inl Zlib) (=) m1 2 resp 2 = Some m3 \<and>
    mx_events m3 = [SessionOpened 2] \<and> ss_state s = Running \<and>
    hosts_reach (\<lambda>_. Inl Zlib) (=) 1 2 s r
      (first_host (snd (mux_take_events m3)) s) (first_host m2 r)"
  by (rule sockets_negotiate [OF demo_compatible])

text \<open>The run of the witnesses: the two have negotiated and the first has enqueued a message.\<close>

lemma demo_hosts:
  obtains s r A B where "hosts_reach (\<lambda>_. Inl Zlib) (=) (1 :: nat) 2 s r A B"
    and "ho_data A 0 = [[7, 8]]" and "connected 2 A"
proof -
  obtain m2 m3 :: "nat multiplexer" and s r where run: "hosts_reach (\<lambda>_. Inl Zlib) (=) 1 2 s r
      (first_host (snd (mux_take_events m3)) s) (first_host m2 r)"
    and s: "mux_session m3 2 = Some s" "ss_state s = Running" "ss_cipher s = None"
    using hosts_start [OF demo_compatible [of False False], of "2 :: nat" 0 "\<lambda>_. Inl Zlib" "(=)" 1 0 0]
    by (auto simp: Soe_Multiplexer_Run.demo_config_def simp del: One_nat_def)
  let ?A = "first_host (snd (mux_take_events m3)) s"
  have "connected 2 ?A" "ss_state (ho_session ?A) = Running" "message_ok (ss_cipher (ho_session ?A)) [7, 8]"
    using s by (simp_all add: connected_def first_host_def mux_take_events_def mux_session_def message_ok_def)
  from hosts_message [OF run this] obtain A' where
    "hosts_reach (\<lambda>_. Inl Zlib) (=) 1 2 s r A' (first_host m2 r)" "connected 2 A'"
    "ho_data A' = (ho_data ?A)(0 := ho_data ?A 0 @ [[7, 8]])" by blast
  then show ?thesis by (intro that [of s r A' "first_host m2 r"]) (simp_all add: first_host_def)
qed

text \<open>C4: Two sockets have sessions with each other, and any others with other remotes. Whatever their
  applications call for other remotes and whatever other addresses send, the two sessions run as a
  pair: each as the socket holds it while it exists, with what the application has enqueued for the
  peer and with the data from the peer in the events it has taken or can take. The run is one
  (\<open>admitted\<close>) in which neither application connects to the peer again, what they enqueue for each other
  are messages (\<open>message_ok\<close>, as above), the datagrams of the peer are those it has produced, none of them
  late (\<open>on_time\<close>), no request for a new session or remap comes from the peer once the
  session has ended, and no other address names the session in a remap.\<close>

theorem sockets_refine_pair:
  assumes "hosts_reach inflate same_host a b s r A B"
  shows "pair_reach inflate s r (view b A, view a B) \<and>
    mux_session (ho_mux A) b \<in> {None, Some (ep_session (view b A))} \<and>
    mux_session (ho_mux B) a \<in> {None, Some (ep_session (view a B))} \<and>
    ep_sent (view b A) = ho_data A \<and> ep_sent (view a B) = ho_data B \<and>
    ep_got (view b A) = data_from b (ho_past A @ mx_events (ho_mux A)) \<and>
    ep_got (view a B) = data_from a (ho_past B @ mx_events (ho_mux B))"
proof -
  have "mux_session (ho_mux h) p \<in> {None, Some (ho_session h)}" if "host_ok p h" for p :: 'a and h
    using that by (cases "mux_session (ho_mux h) p") (auto simp: host_ok_def)
  with hosts_pair [OF assms] this [of b A] this [of a B] show ?thesis by (simp add: view_def received_from_def)
qed

theorem sockets_refine_pair_witness:
  "\<exists>s r A B. ho_data A 0 = [[7, 8]] \<and>
    pair_reach (\<lambda>_. Inl Zlib) s r (view (2 :: nat) A, view (1 :: nat) B) \<and>
    mux_session (ho_mux A) 2 = Some (ep_session (view 2 A))"
proof -
  obtain s r A B where run: "hosts_reach (\<lambda>_. Inl Zlib) (=) (1 :: nat) 2 s r A B"
    and data: "ho_data A 0 = [[7, 8]]" "connected 2 A" by (rule demo_hosts)
  note refined = sockets_refine_pair [OF run]
  then have "mux_session (ho_mux A) 2 = Some (ep_session (view 2 A))"
    using data(2) by (auto simp: connected_def)
  with refined data(1) show ?thesis by blast
qed

text \<open>C3: In such a run what the application of a socket sees of its peer's data on a reliable channel,
  in the events it has taken or can take, is a prefix of what the peer's application has enqueued on the
  channel, in order and without duplicates; and it is all of it once the peer's socket has an empty
  send queue. The runs are those of \<open>admitted\<close>: no new session between the two (by a connect or a
  request), no remap of their session, messages only (shorter than \<open>2 ^ 32 - 1\<close> bytes, and without a
  cipher not starting with the bytes 00 19), and from the peer's address only what the peer has sent, at
  any time, any number of times or never, but not late (\<open>on_time\<close>: a data packet by a block of 65536
  sequences, an acknowledgement by a send window); with other remotes anything.\<close>

theorem sockets_deliver_in_order:
  assumes "hosts_reach inflate same_host a b s r A B" and "ch < RELIABLE_CHANNEL_COUNT"
  shows "prefix (on_channel ch (received_from a B)) (ho_data A ch) \<and>
    prefix (on_channel ch (received_from b A)) (ho_data B ch) \<and>
    (\<forall>t. mux_session (ho_mux A) b = Some t \<and> dispatch_queue (send_channel t ch) = [] \<longrightarrow>
      on_channel ch (received_from a B) = ho_data A ch)"
proof -
  have pair: "pair_reach inflate s r (view b A, view a B)" and ok: "host_ok b A"
    using hosts_pair [OF assms(1)] by simp_all
  have flow: "prefix (on_channel ch (ep_got y)) (ep_sent x ch) \<and>
      (dispatch_queue (send_channel (ep_session x) ch) = [] \<longrightarrow> on_channel ch (ep_got y) = ep_sent x ch)"
    if "pair_reach inflate s r (x, y)" for s r x y
    using pair_flow [OF that assms(2)] flow_prefix flow_complete by (metis append_Nil2)
  have "ho_session A = t" if "mux_session (ho_mux A) b = Some t" for t
    using ok that by (simp add: host_ok_def)
  with flow [OF pair] flow [OF pair_reach_sym [OF pair]] show ?thesis by (auto simp: view_def)
qed

theorem sockets_deliver_in_order_witness:
  "\<exists>s r A B. hosts_reach (\<lambda>_. Inl Zlib) (=) (1 :: nat) 2 s r A B \<and> ho_data A 0 = [[7, 8]] \<and>
    prefix (on_channel 0 (received_from 1 B)) [[7, 8]]"
proof -
  obtain s r A B where run: "hosts_reach (\<lambda>_. Inl Zlib) (=) (1 :: nat) 2 s r A B"
    and data: "ho_data A 0 = [[7, 8]]" by (rule demo_hosts)
  from sockets_deliver_in_order [OF run, of 0] run data show ?thesis
    by (auto simp: RELIABLE_CHANNEL_COUNT_def)
qed

end
