(* ===== verification/Soe_Drivers.thy ===== *)
theory Soe_Drivers
  imports Soe_Multiplexer
begin

text \<open>
  The drivers of a multiplexer: \<open>SoeMultiplexer::drive\<close> over a transport
  (\<open>src/socket.rs\<close>), the blocking socket (\<open>src/sync_rt.rs\<close>), and the Tokio socket with the
  two actor loops (\<open>src/tokio_rt.rs\<close>). The operating system and the runtime are parameters: a
  receive function that fills the buffer and returns a length and a sender, a send function, both
  on a state of the world, the readings of the clock, and, for \<open>select!\<close>, which branch
  completes. An unbounded channel is a list; the receiver of events is dropped after it has
  accepted \<open>capacity\<close> of them. A panic is \<open>None\<close>.
\<close>

section \<open>I/O\<close>

datatype ErrorKind = WouldBlock | TimedOut | OtherError nat

definition RECV_BUFFER_SIZE :: nat where "RECV_BUFFER_SIZE = 2048"

text \<open>\<open>recv_from\<close>: the outcome, the buffer and the world after it.\<close>

type_synonym ('a, 'w) recv = "'w \<Rightarrow> bytes \<Rightarrow> (ErrorKind + nat \<times> 'a) \<times> bytes \<times> 'w"
type_synonym ('a, 'w) try_recv = "'w \<Rightarrow> bytes \<Rightarrow> (ErrorKind + (nat \<times> 'a) option) \<times> bytes \<times> 'w"
type_synonym ('a, 'w) send = "'w \<Rightarrow> bytes \<Rightarrow> 'a \<Rightarrow> (ErrorKind + nat) \<times> 'w"

text \<open>\<open>impl UdpTransport for std::net::UdpSocket\<close>.\<close>

definition udp_try_recv :: "('a, 'w) recv \<Rightarrow> ('a, 'w) try_recv" where
  "udp_try_recv recv_from w buf = (case recv_from w buf of (r, buf, w) \<Rightarrow>
     (case r of
        Inr (len, sender) \<Rightarrow> (Inr (Some (len, sender)), buf, w)
      | Inl WouldBlock \<Rightarrow> (Inr None, buf, w)
      | Inl e \<Rightarrow> (Inl e, buf, w)))"

text \<open>The send loop of a driver that stops at the first error.\<close>

primrec send_all :: "('a, 'w) send \<Rightarrow> 'w \<Rightarrow> ('a \<times> bytes) list \<Rightarrow> (ErrorKind + unit) \<times> 'w" where
  "send_all send w [] = (Inr (), w)"
| "send_all send w (d # ds) = (case send w (snd d) (fst d) of (r, w) \<Rightarrow>
     (case r of Inl e \<Rightarrow> (Inl e, w) | Inr n \<Rightarrow> send_all send w ds))"

text \<open>The send loop of a driver that ignores errors.\<close>

primrec send_each :: "('a, 'w) send \<Rightarrow> 'w \<Rightarrow> ('a \<times> bytes) list \<Rightarrow> 'w" where
  "send_each send w [] = w"
| "send_each send w (d # ds) = send_each send (snd (send w (snd d) (fst d))) ds"

section \<open>Driving over a transport\<close>

text \<open>The receive loop may run for ever: the outer \<open>None\<close> is not returning, the inner a panic.\<close>

partial_function (option) recv_loop ::
    "(bytes \<Rightarrow> error + bytes) \<Rightarrow> ('a \<Rightarrow> 'a \<Rightarrow> bool) \<Rightarrow> ('a, 'w) try_recv \<Rightarrow> instant \<Rightarrow>
     'a multiplexer \<Rightarrow> 'w \<Rightarrow> bytes \<Rightarrow> ((ErrorKind + unit) \<times> 'a multiplexer \<times> 'w) option option"
where
  "recv_loop inflate same_host try_recv now m w buf =
     (case try_recv w buf of (r, buf, w) \<Rightarrow>
        (case r of
           Inl e \<Rightarrow> Some (Some (Inl e, m, w))
         | Inr None \<Rightarrow> Some (Some (Inr (), m, w))
         | Inr (Some (len, sender)) \<Rightarrow>
             (case Option.bind (slice_to buf len)
                 (\<lambda>dg. mux_process_incoming inflate same_host m sender dg now) of
                None \<Rightarrow> Some None
              | Some m \<Rightarrow> recv_loop inflate same_host try_recv now m w buf)))"

declare recv_loop.simps [code]

definition mux_drive ::
    "(bytes \<Rightarrow> error + bytes) \<Rightarrow> ('a \<Rightarrow> 'a \<Rightarrow> bool) \<Rightarrow> ('a, 'w) try_recv \<Rightarrow> ('a, 'w) send \<Rightarrow>
     'a multiplexer \<Rightarrow> 'w \<Rightarrow> instant \<Rightarrow>
     ((ErrorKind + unit) \<times> 'a multiplexer \<times> 'w) option option" where
  "mux_drive inflate same_host try_recv send m w now =
     Option.bind (recv_loop inflate same_host try_recv now m w (replicate 2048 0)) (\<lambda>r. case r of
        None \<Rightarrow> Some None
      | Some (Inl e, m, w) \<Rightarrow> Some (Some (Inl e, m, w))
      | Some (Inr _, m, w) \<Rightarrow> Some (do {
          m \<leftarrow> mux_run_tick m now;
          let (dgs, m) = mux_take_outgoing m;
          let (r, w) = send_all send w dgs;
          Some (r, m, w)
        }))"

section \<open>The blocking socket\<close>

text \<open>One cycle: the clock is read twice, \<open>t1\<close> for the datagram and \<open>t2\<close> for the tick.\<close>

definition sync_step ::
    "(bytes \<Rightarrow> error + bytes) \<Rightarrow> ('a \<Rightarrow> 'a \<Rightarrow> bool) \<Rightarrow> ('a, 'w) recv \<Rightarrow> ('a, 'w) send \<Rightarrow>
     'a multiplexer \<Rightarrow> bytes \<Rightarrow> 'w \<Rightarrow> instant \<Rightarrow> instant \<Rightarrow>
     ((ErrorKind + 'a SocketEvent list) \<times> 'a multiplexer \<times> bytes \<times> 'w) option" where
  "sync_step inflate same_host recv_from send m buf w t1 t2 =
     (case recv_from w buf of (r, buf, w) \<Rightarrow>
        let housekeeping = (\<lambda>m. do {
              m \<leftarrow> mux_run_tick m t2;
              let (dgs, m) = mux_take_outgoing m;
              let (r, w) = send_all send w dgs;
              (case r of
                 Inl e \<Rightarrow> Some (Inl e, m, buf, w)
               | Inr _ \<Rightarrow> let (events, m) = mux_take_events m in Some (Inr events, m, buf, w))
            }) in
        (case r of
           Inr (len, sender) \<Rightarrow> do {
             dg \<leftarrow> slice_to buf len;
             m \<leftarrow> mux_process_incoming inflate same_host m sender dg t1;
             housekeeping m
           }
         | Inl e \<Rightarrow>
             if e = WouldBlock \<or> e = TimedOut then housekeeping m else Some (Inl e, m, buf, w)))"

section \<open>The Tokio socket\<close>

text \<open>\<open>tokio::time::interval\<close>, which panics if the period is zero.\<close>

definition interval :: "duration \<Rightarrow> duration option" where
  "interval period = (if period = 0 then None else Some period)"

text \<open>The branch of \<open>select!\<close> that completes: the receive, with its outcome, or the tick.\<close>

datatype 'a branch = Received "ErrorKind + bytes \<times> 'a" | Tick

definition tokio_step ::
    "(bytes \<Rightarrow> error + bytes) \<Rightarrow> ('a \<Rightarrow> 'a \<Rightarrow> bool) \<Rightarrow> ('a, 'w) send \<Rightarrow> 'a multiplexer \<Rightarrow> 'w \<Rightarrow>
     'a branch \<Rightarrow> instant \<Rightarrow> instant \<Rightarrow>
     ((ErrorKind + 'a SocketEvent list) \<times> 'a multiplexer \<times> 'w) option" where
  "tokio_step inflate same_host send m w b t1 t2 =
     (let housekeeping = (\<lambda>m. do {
            m \<leftarrow> mux_run_tick m t2;
            let (dgs, m) = mux_take_outgoing m;
            let (r, w) = send_all send w dgs;
            (case r of
               Inl e \<Rightarrow> Some (Inl e, m, w)
             | Inr _ \<Rightarrow> let (events, m) = mux_take_events m in Some (Inr events, m, w))
          }) in
      (case b of
         Received (Inl e) \<Rightarrow> Some (Inl e, m, w)
       | Received (Inr (dg, sender)) \<Rightarrow> do {
           m \<leftarrow> mux_process_incoming inflate same_host m sender dg t1; housekeeping m }
       | Tick \<Rightarrow> housekeeping m))"

section \<open>The actor loops\<close>

text \<open>What one wake of \<open>select!\<close> makes the loop do: go round again at once, leave, or flush the
  multiplexer it leads to.\<close>

datatype 'm turn = Again | Leave | Flush 'm

text \<open>Forwarding events to the application until its receiver is dropped.\<close>

primrec forward :: "nat \<Rightarrow> 'e list \<Rightarrow> 'e list \<Rightarrow> 'e list \<times> bool" where
  "forward capacity delivered [] = (delivered, True)"
| "forward capacity delivered (e # es) =
     (if length delivered < capacity then forward capacity (delivered @ [e]) es
      else (delivered, False))"

datatype 'a Command =
    Connect 'a
  | EnqueueData 'a bytes Channel
  | Terminate 'a DisconnectReason

text \<open>The branch that completes; a command is \<open>None\<close> when every handle has been dropped.\<close>

datatype ('a, 'c) wake =
    WakeReceived "ErrorKind + bytes \<times> 'a"
  | WakeTick
  | WakeCommand "'c option"

primrec run_command :: "'a Command \<Rightarrow> 'a multiplexer \<Rightarrow> instant \<Rightarrow> 'a multiplexer option" where
  "run_command (Connect remote) m now = mux_connect m remote now"
| "run_command (EnqueueData remote data channel) m now =
     map_option snd (mux_enqueue_data_on m remote data channel)"
| "run_command (Terminate remote reason) m now = mux_terminate m remote reason now"

definition server_wake ::
    "(bytes \<Rightarrow> error + bytes) \<Rightarrow> ('a \<Rightarrow> 'a \<Rightarrow> bool) \<Rightarrow> 'a multiplexer \<Rightarrow> ('a, 'a Command) wake \<Rightarrow>
     instant \<Rightarrow> 'a multiplexer turn option" where
  "server_wake inflate same_host m wk now = (case wk of
      WakeReceived (Inl e) \<Rightarrow> Some Again
    | WakeReceived (Inr (dg, sender)) \<Rightarrow>
        map_option Flush (mux_process_incoming inflate same_host m sender dg now)
    | WakeTick \<Rightarrow> map_option Flush (mux_run_tick m now)
    | WakeCommand (Some c) \<Rightarrow> map_option Flush (run_command c m now)
    | WakeCommand None \<Rightarrow> Some Leave)"

text \<open>A pass of the loop, on the multiplexer, the world and the events delivered so far; the flag
  says whether the loop goes on.\<close>

definition server_pass ::
    "(bytes \<Rightarrow> error + bytes) \<Rightarrow> ('a \<Rightarrow> 'a \<Rightarrow> bool) \<Rightarrow> ('a, 'w) send \<Rightarrow> nat \<Rightarrow>
     'a multiplexer \<times> 'w \<times> 'a SocketEvent list \<Rightarrow> ('a, 'a Command) wake \<Rightarrow> instant \<Rightarrow>
     (('a multiplexer \<times> 'w \<times> 'a SocketEvent list) \<times> bool) option" where
  "server_pass inflate same_host send capacity s wk now = (case s of (m, w, delivered) \<Rightarrow> do {
     step \<leftarrow> server_wake inflate same_host m wk now;
     (case step of
        Again \<Rightarrow> Some (s, True)
      | Leave \<Rightarrow> Some (s, False)
      | Flush m \<Rightarrow>
          let (dgs, m) = mux_take_outgoing m; w = send_each send w dgs;
              (events, m) = mux_take_events m;
              (delivered, listening) = forward capacity delivered events in
          Some ((m, w, delivered), listening))
   })"

text \<open>A pass whose task is aborted. It is only suspended where it awaits: at \<open>select!\<close>, before it
  begins, and in each \<open>send_to\<close>. If it is aborted while it awaits the one after the first \<open>sends\<close>,
  the rest is not sent and no event is forwarded.\<close>

definition server_cut ::
    "(bytes \<Rightarrow> error + bytes) \<Rightarrow> ('a \<Rightarrow> 'a \<Rightarrow> bool) \<Rightarrow> ('a, 'w) send \<Rightarrow> nat \<Rightarrow> nat \<Rightarrow>
     'a multiplexer \<times> 'w \<times> 'a SocketEvent list \<Rightarrow> ('a, 'a Command) wake \<Rightarrow> instant \<Rightarrow>
     ('a multiplexer \<times> 'w \<times> 'a SocketEvent list) option" where
  "server_cut inflate same_host send capacity sends s wk now = (case s of (m, w, delivered) \<Rightarrow> do {
     step \<leftarrow> server_wake inflate same_host m wk now;
     (case step of
        Flush m \<Rightarrow>
          if sends < length (mx_outgoing m)
          then let (dgs, m) = mux_take_outgoing m in
            Some (m, send_each send w (take sends dgs), delivered)
          else map_option fst (server_pass inflate same_host send capacity s wk now)
      | _ \<Rightarrow> Some s)
   })"

text \<open>The loop over a schedule of wakes, each with the time it happens; it ends with the schedule
  at the latest.\<close>

primrec pass_loop ::
    "('s \<Rightarrow> 'k \<Rightarrow> instant \<Rightarrow> ('s \<times> bool) option) \<Rightarrow> 's \<Rightarrow> ('k \<times> instant) list \<Rightarrow> 's option" where
  "pass_loop pass s [] = Some s"
| "pass_loop pass s (wk # wks) = do {
     (s, again) \<leftarrow> pass s (fst wk) (snd wk);
     if again then pass_loop pass s wks else Some s
   }"

definition drive_loop ::
    "(bytes \<Rightarrow> error + bytes) \<Rightarrow> ('a \<Rightarrow> 'a \<Rightarrow> bool) \<Rightarrow> ('a, 'w) send \<Rightarrow> nat \<Rightarrow>
     socket_config \<Rightarrow> duration \<Rightarrow> 'w \<Rightarrow> (('a, 'a Command) wake \<times> instant) list \<Rightarrow>
     ('a multiplexer \<times> 'w \<times> 'a SocketEvent list) option" where
  "drive_loop inflate same_host send capacity config tick_period w wks = do {
     _ \<leftarrow> interval tick_period;
     pass_loop (server_pass inflate same_host send capacity) (mux_new config, w, []) wks
   }"

text \<open>The client: one session to one server, whose address its events drop.\<close>

datatype ClientCommand = ClientEnqueueData bytes Channel | ClientTerminate DisconnectReason

datatype ClientEvent =
    Connected
  | ClientDataReceived bytes Channel
  | Disconnected DisconnectReason

primrec client_event :: "'a SocketEvent \<Rightarrow> ClientEvent" where
  "client_event (SessionOpened remote) = Connected"
| "client_event (DataReceived remote data channel) = ClientDataReceived data channel"
| "client_event (SessionClosed remote reason) = Disconnected reason"

definition client_wake ::
    "(bytes \<Rightarrow> error + bytes) \<Rightarrow> ('a \<Rightarrow> 'a \<Rightarrow> bool) \<Rightarrow> 'a \<Rightarrow> 'a multiplexer \<Rightarrow>
     ('a, ClientCommand) wake \<Rightarrow> instant \<Rightarrow> 'a multiplexer turn option" where
  "client_wake inflate same_host server m wk now = (case wk of
      WakeReceived (Inl e) \<Rightarrow> Some Again
    | WakeReceived (Inr (dg, _)) \<Rightarrow>
        map_option Flush (mux_process_incoming inflate same_host m server dg now)
    | WakeTick \<Rightarrow> map_option Flush (mux_run_tick m now)
    | WakeCommand (Some (ClientEnqueueData data channel)) \<Rightarrow>
        map_option (\<lambda>r. Flush (snd r)) (mux_enqueue_data_on m server data channel)
    | WakeCommand (Some (ClientTerminate reason)) \<Rightarrow>
        map_option Flush (mux_terminate m server reason now)
    | WakeCommand None \<Rightarrow> Some Leave)"

definition client_pass ::
    "(bytes \<Rightarrow> error + bytes) \<Rightarrow> ('a \<Rightarrow> 'a \<Rightarrow> bool) \<Rightarrow> ('a, 'w) send \<Rightarrow> nat \<Rightarrow> 'a \<Rightarrow>
     'a multiplexer \<times> 'w \<times> ClientEvent list \<Rightarrow> ('a, ClientCommand) wake \<Rightarrow> instant \<Rightarrow>
     (('a multiplexer \<times> 'w \<times> ClientEvent list) \<times> bool) option" where
  "client_pass inflate same_host send capacity server s wk now = (case s of (m, w, delivered) \<Rightarrow> do {
     step \<leftarrow> client_wake inflate same_host server m wk now;
     (case step of
        Again \<Rightarrow> Some (s, True)
      | Leave \<Rightarrow> Some (s, False)
      | Flush m \<Rightarrow>
          let (dgs, m) = mux_take_outgoing m; w = send_each send w (map (\<lambda>d. (server, snd d)) dgs);
              (events, m) = mux_take_events m;
              (delivered, listening) = forward capacity delivered (map client_event events) in
          Some ((m, w, delivered), listening))
   })"

definition client_cut ::
    "(bytes \<Rightarrow> error + bytes) \<Rightarrow> ('a \<Rightarrow> 'a \<Rightarrow> bool) \<Rightarrow> ('a, 'w) send \<Rightarrow> nat \<Rightarrow> 'a \<Rightarrow> nat \<Rightarrow>
     'a multiplexer \<times> 'w \<times> ClientEvent list \<Rightarrow> ('a, ClientCommand) wake \<Rightarrow> instant \<Rightarrow>
     ('a multiplexer \<times> 'w \<times> ClientEvent list) option" where
  "client_cut inflate same_host send capacity server sends s wk now = (case s of (m, w, delivered) \<Rightarrow> do {
     step \<leftarrow> client_wake inflate same_host server m wk now;
     (case step of
        Flush m \<Rightarrow>
          if sends < length (mx_outgoing m)
          then let (dgs, m) = mux_take_outgoing m in
            Some (m, send_each send w (take sends (map (\<lambda>d. (server, snd d)) dgs)), delivered)
          else map_option fst (client_pass inflate same_host send capacity server s wk now)
      | _ \<Rightarrow> Some s)
   })"

text \<open>The request leaves before the loop begins.\<close>

definition client_start ::
    "('a, 'w) send \<Rightarrow> 'a \<Rightarrow> socket_config \<Rightarrow> 'w \<Rightarrow> instant \<Rightarrow>
     ('a multiplexer \<times> 'w \<times> ClientEvent list) option" where
  "client_start send server config w now = do {
     m \<leftarrow> mux_connect (mux_new config) server now;
     let (dgs, m) = mux_take_outgoing m;
     Some (m, send_each send w (map (\<lambda>d. (server, snd d)) dgs), [])
   }"

definition client_drive_loop ::
    "(bytes \<Rightarrow> error + bytes) \<Rightarrow> ('a \<Rightarrow> 'a \<Rightarrow> bool) \<Rightarrow> ('a, 'w) send \<Rightarrow> nat \<Rightarrow> 'a \<Rightarrow>
     socket_config \<Rightarrow> duration \<Rightarrow> 'w \<Rightarrow> instant \<Rightarrow> (('a, ClientCommand) wake \<times> instant) list \<Rightarrow>
     ('a multiplexer \<times> 'w \<times> ClientEvent list) option" where
  "client_drive_loop inflate same_host send capacity server config tick_period w now wks = do {
     _ \<leftarrow> interval tick_period;
     s \<leftarrow> client_start send server config w now;
     pass_loop (client_pass inflate same_host send capacity server) s wks
   }"

end
