(* ===== verification/Soe_Drivers_Run.thy ===== *)
theory Soe_Drivers_Run
  imports Soe_Drivers Soe_Multiplexer_Run
begin

text \<open>
  The drivers at work: driving a transport that runs dry is a batch of operations of the
  multiplexer, the first event of a client need not be \<open>Connected\<close>, and a pass of an actor loop is
  one operation whose datagrams are sent and whose events are forwarded.
\<close>

section \<open>Driving\<close>

text \<open>Every datagram the transport hands over leaves it with fewer to come, and fits the buffer.\<close>

definition runs_dry :: "('w \<Rightarrow> nat) \<Rightarrow> ('a, 'w) try_recv \<Rightarrow> bool" where
  "runs_dry pending try_recv \<longleftrightarrow> (\<forall>w buf len sender buf' w'.
     try_recv w buf = (Inr (Some (len, sender)), buf', w') \<longrightarrow>
     pending w' < pending w \<and> len \<le> length buf')"

text \<open>The datagrams a transport hands over until it is dry or fails, and how it ends.\<close>

inductive hands_over ::
    "('a, 'w) try_recv \<Rightarrow> 'w \<Rightarrow> bytes \<Rightarrow> ('a \<times> bytes) list \<Rightarrow> ErrorKind + unit \<Rightarrow> 'w \<Rightarrow> bool"
  for try_recv where
  dry: "try_recv w buf = (Inr None, buf', w') \<Longrightarrow> hands_over try_recv w buf [] (Inr ()) w'"
| failed: "try_recv w buf = (Inl e, buf', w') \<Longrightarrow> hands_over try_recv w buf [] (Inl e) w'"
| handed: "try_recv w buf = (Inr (Some (len, sender)), buf', w1) \<Longrightarrow> len \<le> length buf' \<Longrightarrow>
    hands_over try_recv w1 buf' ds r w' \<Longrightarrow>
    hands_over try_recv w buf ((sender, take len buf') # ds) r w'"

lemma hands_over_exists:
  assumes "runs_dry pending try_recv"
  shows "\<exists>ds r w'. hands_over try_recv w buf ds r w'"
proof (induction "pending w" arbitrary: w buf rule: less_induct)
  case less
  obtain r buf' w' where recv: "try_recv w buf = (r, buf', w')" by (cases "try_recv w buf")
  show ?case
  proof (cases r)
    case (Inl e)
    with recv show ?thesis by (intro exI) (rule hands_over.failed, simp)
  next
    case (Inr got)
    show ?thesis
    proof (cases got)
      case None
      with recv Inr show ?thesis by (intro exI) (rule hands_over.dry, simp)
    next
      case (Some origin)
      obtain len sender where origin: "origin = (len, sender)" by (cases origin)
      with recv assms Inr Some have fewer: "pending w' < pending w" "len \<le> length buf'"
        by (auto simp: runs_dry_def)
      from less.hyps [OF fewer(1)] obtain ds r' w2 where "hands_over try_recv w' buf' ds r' w2" by blast
      from hands_over.handed [OF _ fewer(2) this, of w buf sender] recv Inr Some origin show ?thesis
        by (intro exI) simp
    qed
  qed
qed

lemma hands_over_unique:
  "hands_over try_recv w buf ds r w' \<Longrightarrow> hands_over try_recv w buf ds2 r2 w2 \<Longrightarrow>
   ds2 = ds \<and> r2 = r \<and> w2 = w'"
proof (induction arbitrary: ds2 r2 w2 rule: hands_over.induct)
  case (handed w buf len sender buf' w1 ds r w')
  from handed(5) handed(1,4) show ?case by (cases rule: hands_over.cases) auto
qed (erule hands_over.cases; simp)+

definition datagram_ops :: "instant \<Rightarrow> ('a \<times> bytes) list \<Rightarrow> 'a mux_op list" where
  "datagram_ops now ds = map (\<lambda>d. MuxDatagram (fst d) (snd d) now) ds"

lemma recv_loop_batch:
  assumes "hands_over try_recv w buf ds r w'"
  shows "recv_loop inflate same_host try_recv now m w buf =
    Some (map_option (\<lambda>m. (r, m, w')) (mux_run inflate same_host m (datagram_ops now ds)))"
  using assms
proof (induction arbitrary: m rule: hands_over.induct)
  case (handed w buf len sender buf' w1 ds r w')
  show ?case
    by (subst recv_loop.simps)
      (simp add: handed datagram_ops_def split: option.split bind_split)
qed (subst recv_loop.simps; simp add: datagram_ops_def)+

lemma mux_run_append:
  "mux_run inflate same_host m (xs @ ys) =
     Option.bind (mux_run inflate same_host m xs) (\<lambda>m. mux_run inflate same_host m ys)"
  by (induction xs arbitrary: m) (simp_all split: bind_split)

lemma mux_drive_batch:
  assumes "hands_over try_recv w (replicate 2048 0) ds r w'"
  shows "mux_drive inflate same_host try_recv send m w now = Some (case r of
      Inl e \<Rightarrow> map_option (\<lambda>m. (Inl e, m, w')) (mux_run inflate same_host m (datagram_ops now ds))
    | Inr _ \<Rightarrow> map_option (\<lambda>m. (fst (send_all send w' (mx_outgoing m)), m\<lparr>mx_outgoing := []\<rparr>,
          snd (send_all send w' (mx_outgoing m))))
        (mux_run inflate same_host m (datagram_ops now ds @ [MuxTick now])))"
  unfolding mux_drive_def recv_loop_batch [OF assms] mux_run_append
  by (cases "mux_run inflate same_host m (datagram_ops now ds)")
    (auto simp: mux_take_outgoing_def Let_def split_beta split: sum.split bind_split)

text \<open>C38: Driving a multiplexer over a transport that runs dry returns: it is the batch of the
  datagrams the transport hands over, in that order, then one tick, and then everything waiting is
  sent in order until a send fails; if receiving fails, the datagrams before are processed and there
  is neither a tick nor a send. It does not panic, in a state whose sessions are well formed, unless a
  SessionResponse with a check value longer than four bytes is among the datagrams.\<close>

theorem drive_is_batch:
  assumes "runs_dry pending try_recv" and "mux_safe m"
  shows "\<exists>ds r w'. hands_over try_recv w (replicate 2048 0) ds r w' \<and>
    ((\<forall>e\<in>set (datagram_ops now ds). crc_lengths_ok e) \<longrightarrow> (\<exists>m'.
      mux_run inflate same_host m (datagram_ops now ds @ (if r = Inr () then [MuxTick now] else [])) =
        Some m' \<and>
      mux_drive inflate same_host try_recv send m w now = Some (Some (case r of
          Inl e \<Rightarrow> (Inl e, m', w')
        | Inr _ \<Rightarrow> (fst (send_all send w' (mx_outgoing m')), m'\<lparr>mx_outgoing := []\<rparr>,
            snd (send_all send w' (mx_outgoing m')))))))"
proof -
  obtain ds r w' where over: "hands_over try_recv w (replicate 2048 0) ds r w'"
    using hands_over_exists [OF assms(1)] by blast
  let ?ops = "datagram_ops now ds @ (if r = Inr () then [MuxTick now] else [])"
  have "\<exists>m'. mux_run inflate same_host m ?ops = Some m'"
    if "\<forall>e\<in>set (datagram_ops now ds). crc_lengths_ok e"
  proof -
    have "\<forall>e\<in>set ?ops. crc_lengths_ok e" using that by (auto simp: crc_lengths_ok_def)
    from mux_run_total [OF assms(2) this] show ?thesis by blast
  qed
  then show ?thesis
    using over mux_drive_batch [OF over, of inflate same_host send m now]
    by (intro exI [of _ ds] exI [of _ r] exI [of _ w']) (cases r; auto)
qed

text \<open>A world of queued datagrams, one per sender's address.\<close>

definition queue_recv :: "('a, ('a \<times> bytes) list) try_recv" where
  "queue_recv w buf = (case w of
      [] \<Rightarrow> (Inr None, buf, [])
    | (a, d) # ds \<Rightarrow> (Inr (Some (min (length d) (length buf), a)),
        take (length buf) d @ drop (length d) buf, ds))"

abbreviation queue_send :: "(nat, (nat \<times> bytes) list) send" where
  "queue_send \<equiv> \<lambda>w d a. (Inr (length d), w)"

lemma queue_demo:
  "hands_over queue_recv [(1 :: nat, [0, 5]), (2, [7])] (replicate 2048 0) [(1, [0, 5]), (2, [7])] (Inr ()) []"
proof -
  have two: "hands_over queue_recv [(2 :: nat, [7])] buf [(2, [7])] (Inr ()) []" if "0 < length buf" for buf
    using hands_over.handed [of queue_recv "[(2 :: nat, [7])]" buf "min 1 (length buf)" 2
        "take (length buf) [7] @ drop 1 buf" "[]" "[]" "Inr ()" "[]"] that
      hands_over.dry [of queue_recv "[]" "take (length buf) [7] @ drop 1 buf" "take (length buf) [7] @ drop 1 buf" "[]"]
    by (cases buf) (simp_all add: queue_recv_def)
  show ?thesis
    using hands_over.handed [of queue_recv "[(1 :: nat, [0, 5]), (2, [7])]" "replicate 2048 0" 2 1
        "[0, 5] @ replicate 2046 0" "[(2, [7])]" "[(2, [7])]" "Inr ()" "[]"]
      two [of "[0, 5] @ replicate 2046 0"]
    by (simp add: queue_recv_def)
qed

theorem drive_is_batch_witness:
  "\<exists>m'. mux_run (\<lambda>_. Inl Zlib) (=) (mux_new (demo_config True))
      [MuxDatagram (1 :: nat) [0, 5] 3, MuxDatagram 2 [7] 3, MuxTick 3] = Some m' \<and>
    mux_drive (\<lambda>_. Inl Zlib) (=) queue_recv queue_send
      (mux_new (demo_config True)) [(1, [0, 5]), (2, [7])] 3 =
      Some (Some (fst (send_all queue_send [] (mx_outgoing m')), m'\<lparr>mx_outgoing := []\<rparr>,
        snd (send_all queue_send [] (mx_outgoing m'))))"
proof -
  have dry: "runs_dry length (queue_recv :: (nat, _) try_recv)"
    by (auto simp: runs_dry_def queue_recv_def split: list.splits)
  have safe: "mux_safe (mux_new (demo_config True) :: nat multiplexer)"
    by (simp add: mux_safe_new room_ok_def demo_config_def session_parameters_default_def
        CRC_LENGTH_def DEFAULT_UDP_LENGTH_def)
  have short: "crc_lengths_ok (MuxDatagram (1 :: nat) [0, 5] 3)" "crc_lengths_ok (MuxDatagram (2 :: nat) [7] 3)"
    by (simp_all add: crc_lengths_ok_def deserialize_defs read_u32_def reader_ensure_def reader_new_def
        reader_remaining_def)
  note batch = drive_is_batch [OF dry safe, of "[(1, [0, 5]), (2, [7])]" 3 "\<lambda>_. Inl Zlib" "(=)"
      queue_send]
  then obtain ds r w' where over: "hands_over queue_recv [(1 :: nat, [0, 5]), (2, [7])] (replicate 2048 0) ds r w'"
    and drive: "(\<forall>e\<in>set (datagram_ops 3 ds). crc_lengths_ok e) \<longrightarrow> (\<exists>m'.
      mux_run (\<lambda>_. Inl Zlib) (=) (mux_new (demo_config True))
        (datagram_ops 3 ds @ (if r = Inr () then [MuxTick 3] else [])) = Some m' \<and>
      mux_drive (\<lambda>_. Inl Zlib) (=) queue_recv queue_send
        (mux_new (demo_config True)) [(1, [0, 5]), (2, [7])] 3 = Some (Some (case r of
          Inl e \<Rightarrow> (Inl e, m', w')
        | Inr _ \<Rightarrow> (fst (send_all queue_send w' (mx_outgoing m')),
            m'\<lparr>mx_outgoing := []\<rparr>, snd (send_all queue_send w' (mx_outgoing m'))))))"
    by blast
  have "ds = [(1, [0, 5]), (2, [7])] \<and> r = Inr () \<and> w' = []" by (rule hands_over_unique [OF queue_demo over])
  with drive short show ?thesis by (simp add: datagram_ops_def del: One_nat_def)
qed

section \<open>The first event of a client\<close>

text \<open>A client whose server does not know it: an UnknownSender packet ends the negotiation.\<close>

lemma unknown_sender_ends:
  assumes "ss_state s = Negotiating" and "no_channels s" and "\<not> open_session_on_next_packet s"
  shows "\<exists>s'. process_incoming inflate s [0, 0x1D] now = Some s' \<and> ss_state s' = Terminated \<and>
    ss_events s' = ss_events s @ [Closed UnreachableConnection] \<and> ss_received s' = ss_received s"
proof -
  let ?s = "s\<lparr>last_received := now\<rparr>"
  have "validated s [0, 0x1D] = Some (Valid, Some UnknownSender)"
    by (rule validate_contextless) (simp_all add: of_be16_def op_from_u16_def size_defs)
  moreover have none: "no_channels ?s" "no_channels (tick_outputs now ?s)" "tick_outputs now ?s = ?s"
    using assms(2) by (simp_all add: no_channels_def tick_outputs_def RELIABLE_CHANNEL_COUNT_def)
  moreover have "no_channels (push_event e (?s\<lparr>termination_reason := r, ss_state := st, terminated_by_remote := b\<rparr>))"
    for e r st b
    using assms(2) by (simp add: no_channels_def push_event_def)
  ultimately show ?thesis
    using process_valid [of s "[0, 0x1D]" UnknownSender inflate now] assms(1,3)
    by (simp add: refreshed_plain handle_contextless_def terminate_inner_eq disconnect_notice_def
        flush_no_channels) (simp add: push_event_def)
qed

text \<open>C39: The first event of a client need not be \<open>Connected\<close>: if its server answers the request with
  an UnknownSender packet, the first event forwarded to the application is \<open>Disconnected\<close>, whatever the
  configuration.\<close>

theorem client_first_event:
  fixes server :: 'a
  assumes "0 < capacity" and "0 < tick_period"
  shows "\<exists>m w'. client_drive_loop inflate same_host send capacity server config tick_period w now
    [(WakeReceived (Inr ([0, 0x1D], server)), t)] = Some (m, w', [Disconnected UnreachableConnection])"
proof -
  let ?n = "new_session (mux_new config :: 'a multiplexer) Client now"
  let ?s = "drain (push_outgoing (session_request_bytes (request_of ?n))
    (?n\<lparr>ss_rng := snd (next_u32 (ss_rng ?n)), ss_session_id := fst (next_u32 (ss_rng ?n))\<rparr>))"
  have n: "ss_state ?n = Negotiating" "ss_mode ?n = Client"
    by (simp_all add: new_session_def session_new_def)
  have s: "ss_state ?s = Negotiating" "no_channels ?s" "\<not> open_session_on_next_packet ?s"
      "ss_events ?s = []" "ss_received ?s = []"
    by (simp_all add: new_session_def session_new_def drain_def push_outgoing_def no_channels_def)
  obtain m dgs where connect: "mux_connect (mux_new config) server now = Some m"
    and sessions: "map_of (mx_sessions m) server = Some ?s" and events: "mx_events m = []"
    using client_requests [OF n] n
    by (simp add: connect_eq drain_session_def drain_into_eq set_session_def mux_new_def)
      (simp add: drained_events_def new_session_def session_new_def push_outgoing_def)
  obtain s' where s': "process_incoming inflate ?s [0, 0x1D] t = Some s'" "ss_state s' = Terminated"
      "ss_events s' = [Closed UnreachableConnection]" "ss_received s' = []"
    using unknown_sender_ends [OF s(1-3), of inflate t] s(4,5) by auto
  show ?thesis
    using assms s' sessions events
    by (simp add: client_drive_loop_def interval_def client_start_def client_pass_def connect mux_take_outgoing_def client_wake_def
        process_eq_settle settle_def mux_take_events_def drained_events_def)
qed

theorem client_first_event_witness:
  "\<exists>m w'. client_drive_loop (\<lambda>_. Inl Zlib) (=) (\<lambda>w d a. (Inr (length d), w @ [a])) 9 (4001 :: nat)
    (demo_config True) 5 [] 0 [(WakeReceived (Inr ([0, 0x1D], 4001)), 1)] =
    Some (m, w', [Disconnected UnreachableConnection])"
  by (rule client_first_event) simp_all

section \<open>Passes as operations\<close>

text \<open>A run of the multiplexer whose datagrams and events are taken out after each operation, with all
  that was taken.\<close>

primrec collect ::
    "(bytes \<Rightarrow> error + bytes) \<Rightarrow> ('a \<Rightarrow> 'a \<Rightarrow> bool) \<Rightarrow> 'a multiplexer \<Rightarrow> 'a mux_op list \<Rightarrow>
     ('a multiplexer \<times> ('a \<times> bytes) list \<times> 'a SocketEvent list) option" where
  "collect inflate same_host m [] = Some (m, [], [])"
| "collect inflate same_host m (e # es) = do {
     m \<leftarrow> mux_step inflate same_host m e;
     (m', dgs, evs) \<leftarrow> collect inflate same_host (m\<lparr>mx_outgoing := [], mx_events := []\<rparr>) es;
     Some (m', mx_outgoing m @ dgs, mx_events m @ evs)
   }"

lemma collect_append:
  "collect inflate same_host m (xs @ ys) = do {
     (m, dgs, evs) \<leftarrow> collect inflate same_host m xs;
     (m', dgs', evs') \<leftarrow> collect inflate same_host m ys;
     Some (m', dgs @ dgs', evs @ evs')
   }"
  by (induction xs arbitrary: m) (auto simp: split_beta split: bind_split)

text \<open>What the passes of the two loops have in common: \<open>to\<close> addresses a datagram, \<open>ev\<close> forwards an
  event.\<close>

definition loop_pass ::
    "('a multiplexer \<Rightarrow> ('a, 'c) wake \<Rightarrow> instant \<Rightarrow> 'a multiplexer turn option) \<Rightarrow>
     ('a \<times> bytes \<Rightarrow> 'a \<times> bytes) \<Rightarrow> ('a SocketEvent \<Rightarrow> 'e) \<Rightarrow> ('a, 'w) send \<Rightarrow> nat \<Rightarrow>
     'a multiplexer \<times> 'w \<times> 'e list \<Rightarrow> ('a, 'c) wake \<Rightarrow> instant \<Rightarrow>
     (('a multiplexer \<times> 'w \<times> 'e list) \<times> bool) option" where
  "loop_pass wakes to ev send capacity s wk now = (case s of (m, w, delivered) \<Rightarrow>
     (case wakes m wk now of
        None \<Rightarrow> None
      | Some Again \<Rightarrow> Some (s, True)
      | Some Leave \<Rightarrow> Some (s, False)
      | Some (Flush m) \<Rightarrow>
          (case forward capacity delivered (map ev (mx_events m)) of (delivered, listening) \<Rightarrow>
             Some ((m\<lparr>mx_outgoing := [], mx_events := []\<rparr>,
               send_each send w (map to (mx_outgoing m)), delivered), listening))))"

definition loop_cut ::
    "('a multiplexer \<Rightarrow> ('a, 'c) wake \<Rightarrow> instant \<Rightarrow> 'a multiplexer turn option) \<Rightarrow>
     ('a \<times> bytes \<Rightarrow> 'a \<times> bytes) \<Rightarrow> ('a SocketEvent \<Rightarrow> 'e) \<Rightarrow> ('a, 'w) send \<Rightarrow> nat \<Rightarrow> nat \<Rightarrow>
     'a multiplexer \<times> 'w \<times> 'e list \<Rightarrow> ('a, 'c) wake \<Rightarrow> instant \<Rightarrow>
     ('a multiplexer \<times> 'w \<times> 'e list) option" where
  "loop_cut wakes to ev send capacity sends s wk now = (case s of (m, w, delivered) \<Rightarrow>
     (case wakes m wk now of
        None \<Rightarrow> None
      | Some (Flush m) \<Rightarrow>
          if sends < length (mx_outgoing m)
          then Some (m\<lparr>mx_outgoing := []\<rparr>, send_each send w (map to (take sends (mx_outgoing m))), delivered)
          else map_option fst (loop_pass wakes to ev send capacity s wk now)
      | Some _ \<Rightarrow> Some s))"

lemma server_pass_loop:
  "server_pass inflate same_host send capacity = loop_pass (server_wake inflate same_host) id id send capacity"
  by (auto simp: fun_eq_iff server_pass_def loop_pass_def mux_take_outgoing_def mux_take_events_def
      Let_def split: option.split turn.split bind_split)

lemma server_cut_loop:
  "server_cut inflate same_host send capacity = loop_cut (server_wake inflate same_host) id id send capacity"
  by (auto simp: fun_eq_iff server_cut_def loop_cut_def mux_take_outgoing_def server_pass_loop
      Let_def split: option.split turn.split bind_split)

lemma client_pass_loop:
  "client_pass inflate same_host send capacity server =
     loop_pass (client_wake inflate same_host server) (\<lambda>d. (server, snd d)) client_event send capacity"
  by (auto simp: fun_eq_iff client_pass_def loop_pass_def mux_take_outgoing_def mux_take_events_def
      Let_def split: option.split turn.split bind_split)

lemma client_cut_loop:
  "client_cut inflate same_host send capacity server =
     loop_cut (client_wake inflate same_host server) (\<lambda>d. (server, snd d)) client_event send capacity"
  by (auto simp: fun_eq_iff client_cut_def loop_cut_def mux_take_outgoing_def client_pass_loop
      Let_def take_map split: option.split turn.split bind_split)

text \<open>Each wake of a loop as an operation, if it is one.\<close>

primrec command_op :: "'a Command \<Rightarrow> instant \<Rightarrow> 'a mux_op" where
  "command_op (Connect r) now = MuxConnect r now"
| "command_op (EnqueueData r data channel) now = MuxEnqueue r data channel"
| "command_op (Terminate r reason) now = MuxTerminate r reason now"

primrec client_command_op :: "'a \<Rightarrow> ClientCommand \<Rightarrow> instant \<Rightarrow> 'a mux_op" where
  "client_command_op server (ClientEnqueueData data channel) now = MuxEnqueue server data channel"
| "client_command_op server (ClientTerminate reason) now = MuxTerminate server reason now"

definition wake_op ::
    "('a \<Rightarrow> 'a) \<Rightarrow> ('c \<Rightarrow> instant \<Rightarrow> 'a mux_op) \<Rightarrow> ('a, 'c) wake \<Rightarrow> instant \<Rightarrow> 'a mux_op option" where
  "wake_op origin cop wk now = (case wk of
      WakeReceived (Inl e) \<Rightarrow> None
    | WakeReceived (Inr (dg, sender)) \<Rightarrow> Some (MuxDatagram (origin sender) dg now)
    | WakeTick \<Rightarrow> Some (MuxTick now)
    | WakeCommand None \<Rightarrow> None
    | WakeCommand (Some c) \<Rightarrow> Some (cop c now))"

definition wake_ops ::
    "('a \<Rightarrow> 'a) \<Rightarrow> ('c \<Rightarrow> instant \<Rightarrow> 'a mux_op) \<Rightarrow> (('a, 'c) wake \<times> instant) list \<Rightarrow> 'a mux_op list" where
  "wake_ops origin cop wks =
     concat (map (\<lambda>wk. case wake_op origin cop (fst wk) (snd wk) of None \<Rightarrow> [] | Some e \<Rightarrow> [e]) wks)"

lemma wake_ops_simps [simp]:
  "wake_ops origin cop [] = []" "wake_ops origin cop (xs @ ys) = wake_ops origin cop xs @ wake_ops origin cop ys"
  "wake_ops origin cop [wk] = (case wake_op origin cop (fst wk) (snd wk) of None \<Rightarrow> [] | Some e \<Rightarrow> [e])"
  by (simp_all add: wake_ops_def)

lemma forward_eq:
  "length delivered \<le> capacity \<Longrightarrow> forward capacity delivered es =
     (take capacity (delivered @ es), length delivered + length es \<le> capacity)"
  by (induction es arbitrary: delivered) (auto simp: take_Cons')

lemma send_each_append: "send_each send w (xs @ ys) = send_each send (send_each send w xs) ys"
  by (induction xs arbitrary: w) simp_all

text \<open>A loop that has served the operations: everything sent, every event forwarded. One that was
  stopped or aborted has sent the first datagrams and forwarded the first events.\<close>

definition served ::
    "(bytes \<Rightarrow> error + bytes) \<Rightarrow> ('a \<Rightarrow> 'a \<Rightarrow> bool) \<Rightarrow> ('a \<times> bytes \<Rightarrow> 'a \<times> bytes) \<Rightarrow>
     ('a SocketEvent \<Rightarrow> 'e) \<Rightarrow> ('a, 'w) send \<Rightarrow> 'a multiplexer \<Rightarrow> 'w \<Rightarrow> 'a mux_op list \<Rightarrow>
     'a multiplexer \<times> 'w \<times> 'e list \<Rightarrow> bool" where
  "served inflate same_host to ev send m0 w0 ops s \<longleftrightarrow> (\<exists>m dgs evs.
     collect inflate same_host m0 ops = Some (m, dgs, evs) \<and>
     s = (m, send_each send w0 (map to dgs), map ev evs))"

definition served_partly ::
    "(bytes \<Rightarrow> error + bytes) \<Rightarrow> ('a \<Rightarrow> 'a \<Rightarrow> bool) \<Rightarrow> ('a \<times> bytes \<Rightarrow> 'a \<times> bytes) \<Rightarrow>
     ('a SocketEvent \<Rightarrow> 'e) \<Rightarrow> ('a, 'w) send \<Rightarrow> 'a multiplexer \<Rightarrow> 'w \<Rightarrow> 'a mux_op list \<Rightarrow>
     'a multiplexer \<times> 'w \<times> 'e list \<Rightarrow> bool" where
  "served_partly inflate same_host to ev send m0 w0 ops s \<longleftrightarrow> (\<exists>m dgs evs sends n.
     collect inflate same_host m0 ops = Some (m, dgs, evs) \<and>
     snd s = (send_each send w0 (map to (take sends dgs)), take n (map ev evs)))"

lemma served_partly_all:
  assumes "served inflate same_host to ev send m0 w0 ops s"
  shows "served_partly inflate same_host to ev send m0 w0 ops s"
proof -
  obtain m dgs evs where "collect inflate same_host m0 ops = Some (m, dgs, evs)"
    and "s = (m, send_each send w0 (map to dgs), map ev evs)" using assms by (auto simp: served_def)
  then show ?thesis unfolding served_partly_def
    by (intro exI [of _ m] exI [of _ dgs] exI [of _ evs] exI [of _ "length dgs"] exI [of _ "length evs"]) simp
qed

text \<open>A wake that is not a SessionResponse with a check value longer than four bytes.\<close>

definition wake_crc_ok :: "('a, 'c) wake \<Rightarrow> bool" where
  "wake_crc_ok wk \<longleftrightarrow> (\<forall>dg sender. wk = WakeReceived (Inr (dg, sender)) \<longrightarrow>
     crc_lengths_ok (MuxDatagram sender dg 0))"

lemma crc_lengths_sender:
  "crc_lengths_ok (MuxDatagram a dg 0) \<Longrightarrow> crc_lengths_ok (MuxDatagram b dg now)"
  by (simp add: crc_lengths_ok_def)

lemma mux_safe_outgoing [simp]: "mux_safe (m\<lparr>mx_outgoing := o'\<rparr>) = mux_safe m"
  "mux_safe (m\<lparr>mx_events := es\<rparr>) = mux_safe m"
  by (simp_all add: mux_safe_def all_sessions_def)

lemma wake_op_eqs [simp]:
  "wake_op origin cop (WakeReceived (Inl e)) now = None"
  "wake_op origin cop (WakeReceived (Inr (dg, sender))) now = Some (MuxDatagram (origin sender) dg now)"
  "wake_op origin cop WakeTick now = Some (MuxTick now)"
  "wake_op origin cop (WakeCommand None) now = None"
  "wake_op origin cop (WakeCommand (Some c)) now = Some (cop c now)"
  by (simp_all add: wake_op_def)

text \<open>The contract between a loop and its multiplexer: a wake is an operation, or the loop goes round
  again, or it leaves because every handle has been dropped.\<close>

locale drive_ops =
  fixes wakes :: "'a multiplexer \<Rightarrow> ('a, 'c) wake \<Rightarrow> instant \<Rightarrow> 'a multiplexer turn option"
    and inflate :: "bytes \<Rightarrow> error + bytes"
    and same_host :: "'a \<Rightarrow> 'a \<Rightarrow> bool"
    and origin :: "'a \<Rightarrow> 'a"
    and cop :: "'c \<Rightarrow> instant \<Rightarrow> 'a mux_op"
  assumes wakes_op: "wakes m wk now = (case wake_op origin cop wk now of
      None \<Rightarrow> Some (if wk = WakeCommand None then Leave else Again)
    | Some e \<Rightarrow> map_option Flush (mux_step inflate same_host m e))"
    and command_is_no_datagram: "crc_lengths_ok (cop c now)"
begin

lemma loop_step:
  assumes served: "served inflate same_host to ev send m0 w0 ops (m, w, delivered)"
    and e: "wake_op origin cop wk now = Some e" and m1: "mux_step inflate same_host m e = Some m1"
  shows "\<exists>dgs evs. collect inflate same_host m0 (ops @ [e]) =
      Some (m1\<lparr>mx_outgoing := [], mx_events := []\<rparr>, dgs @ mx_outgoing m1, evs @ mx_events m1) \<and>
    w = send_each send w0 (map to dgs) \<and> delivered = map ev evs"
  using assms by (auto simp: served_def collect_append)

lemma pass_serves:
  assumes served: "served inflate same_host to ev send m0 w0 ops s"
    and room: "length (snd (snd s)) \<le> capacity"
    and pass: "loop_pass wakes to ev send capacity s wk now = Some (s', again)"
  shows "(if again then served inflate same_host to ev send m0 w0 (ops @ wake_ops origin cop [(wk, now)]) s' \<and>
      length (snd (snd s')) \<le> capacity
    else served_partly inflate same_host to ev send m0 w0 (ops @ wake_ops origin cop [(wk, now)]) s')"
proof -
  obtain m w delivered where s: "s = (m, w, delivered)" by (cases s)
  show ?thesis
  proof (cases "wake_op origin cop wk now")
    case None
    with pass served room served_partly_all [OF served] show ?thesis
      by (auto simp: loop_pass_def wakes_op s split: if_splits)
  next
    case (Some e)
    with pass obtain m1 where m1: "mux_step inflate same_host m e = Some m1"
      by (auto simp: loop_pass_def wakes_op s split: option.splits)
    obtain dgs evs where c: "collect inflate same_host m0 (ops @ [e]) =
        Some (m1\<lparr>mx_outgoing := [], mx_events := []\<rparr>, dgs @ mx_outgoing m1, evs @ mx_events m1)"
      and w: "w = send_each send w0 (map to dgs)" "delivered = map ev evs"
      using loop_step [OF served [unfolded s] Some m1] by blast
    let ?evs = "map ev (evs @ mx_events m1)"
    have s': "s' = (m1\<lparr>mx_outgoing := [], mx_events := []\<rparr>,
        send_each send w0 (map to (dgs @ mx_outgoing m1)), take capacity ?evs)"
      and again: "again = (length ?evs \<le> capacity)"
      using pass room by (auto simp: loop_pass_def wakes_op s Some m1 w forward_eq send_each_append)
    show ?thesis
    proof (cases again)
      case True
      with c s' again Some show ?thesis by (simp add: served_def)
    next
      case False
      have "snd s' = (send_each send w0 (map to (take (length (dgs @ mx_outgoing m1)) (dgs @ mx_outgoing m1))),
          take capacity ?evs)" by (simp add: s')
      with c have "served_partly inflate same_host to ev send m0 w0 (ops @ [e]) s'"
        unfolding served_partly_def by blast
      with False Some show ?thesis by simp
    qed
  qed
qed

lemma cut_serves:
  assumes served: "served inflate same_host to ev send m0 w0 ops s"
    and room: "length (snd (snd s)) \<le> capacity"
    and cut: "loop_cut wakes to ev send capacity sends s wk now = Some s'"
  shows "served_partly inflate same_host to ev send m0 w0 (ops @ wake_ops origin cop [(wk, now)]) s'"
proof -
  obtain m w delivered where s: "s = (m, w, delivered)" by (cases s)
  show ?thesis
  proof (cases "wake_op origin cop wk now")
    case None
    with cut served_partly_all [OF served] show ?thesis
      by (auto simp: loop_cut_def wakes_op s split: if_splits)
  next
    case (Some e)
    with cut obtain m1 where m1: "mux_step inflate same_host m e = Some m1"
      by (auto simp: loop_cut_def wakes_op s split: option.splits)
    show ?thesis
    proof (cases "sends < length (mx_outgoing m1)")
      case True
      obtain dgs evs where c: "collect inflate same_host m0 (ops @ [e]) =
          Some (m1\<lparr>mx_outgoing := [], mx_events := []\<rparr>, dgs @ mx_outgoing m1, evs @ mx_events m1)"
        and w: "w = send_each send w0 (map to dgs)" "delivered = map ev evs"
        using loop_step [OF served [unfolded s] Some m1] by blast
      have "snd s' = (send_each send w0 (map to (take (length dgs + sends) (dgs @ mx_outgoing m1))),
          take (length evs) (map ev (evs @ mx_events m1)))"
        using cut True by (auto simp: loop_cut_def wakes_op s Some m1 w send_each_append)
      with c have "served_partly inflate same_host to ev send m0 w0 (ops @ [e]) s'"
        unfolding served_partly_def by blast
      with Some show ?thesis by simp
    next
      case False
      then obtain again where pass: "loop_pass wakes to ev send capacity s wk now = Some (s', again)"
        using cut by (auto simp: loop_cut_def wakes_op s Some m1)
      note serves = pass_serves [OF served room pass]
      show ?thesis
      proof (cases again)
        case True
        with serves have "served inflate same_host to ev send m0 w0 (ops @ wake_ops origin cop [(wk, now)]) s'"
          by (simp del: wake_ops_simps)
        then show ?thesis by (rule served_partly_all)
      next
        case False
        with serves show ?thesis by (simp del: wake_ops_simps)
      qed
    qed
  qed
qed

text \<open>A pass returns, on a multiplexer whose sessions are well formed.\<close>

lemma wakes_total:
  assumes "mux_safe m" and "wake_crc_ok wk"
  shows "\<exists>f. wakes m wk now = Some f \<and> (\<forall>m'. f = Flush m' \<longrightarrow> mux_safe m')"
proof (cases "wake_op origin cop wk now")
  case None
  then show ?thesis by (simp add: wakes_op)
next
  case (Some e)
  then have "crc_lengths_ok e"
    using assms(2) by (auto simp: wake_op_def wake_crc_ok_def command_is_no_datagram
        intro: crc_lengths_sender split: wake.splits sum.splits option.splits) (simp add: crc_lengths_ok_def)
  from mux_step_total [OF assms(1) this, of inflate same_host] Some show ?thesis
    by (auto simp: wakes_op)
qed

lemma pass_total:
  assumes "mux_safe (fst s)" and "wake_crc_ok wk"
  shows "\<exists>s' again. loop_pass wakes to ev send capacity s wk now = Some (s', again) \<and> mux_safe (fst s')"
proof -
  obtain f where f: "wakes (fst s) wk now = Some f" "\<And>m'. f = Flush m' \<Longrightarrow> mux_safe m'"
    using wakes_total [OF assms, of now] by blast
  then show ?thesis
    using assms(1) by (cases f; cases s) (auto simp: loop_pass_def split: prod.split)
qed

lemma cut_total:
  assumes "mux_safe (fst s)" and "wake_crc_ok wk"
  shows "\<exists>s'. loop_cut wakes to ev send capacity sends s wk now = Some s' \<and> mux_safe (fst s')"
proof -
  obtain f where f: "wakes (fst s) wk now = Some f" "\<And>m'. f = Flush m' \<Longrightarrow> mux_safe m'"
    using wakes_total [OF assms, of now] by blast
  obtain s' again where "loop_pass wakes to ev send capacity s wk now = Some (s', again)" "mux_safe (fst s')"
    using pass_total [OF assms, of to ev send capacity now] by blast
  with f assms(1) show ?thesis by (cases f; cases s; cases s') (auto simp: loop_cut_def)
qed

end

lemma run_command_op: "run_command c m now = mux_step inflate same_host m (command_op c now)"
  by (cases c) simp_all

interpretation server_loop: drive_ops "server_wake inflate same_host" inflate same_host id command_op
  for inflate same_host
proof
  fix m and wk :: "('a, 'a Command) wake" and now
  show "server_wake inflate same_host m wk now = (case wake_op id command_op wk now of
      None \<Rightarrow> Some (if wk = WakeCommand None then Leave else Again)
    | Some e \<Rightarrow> map_option Flush (mux_step inflate same_host m e))"
    by (auto simp: server_wake_def wake_op_def run_command_op [of _ _ _ inflate same_host]
        split: wake.split sum.split option.split)
  show "crc_lengths_ok (command_op c now)" for c :: "'a Command" and now
    by (cases c) (simp_all add: crc_lengths_ok_def)
qed

interpretation client_loop: drive_ops "client_wake inflate same_host server" inflate same_host
  "\<lambda>_. server" "client_command_op server"
  for inflate same_host server
proof
  fix m and wk :: "('a, ClientCommand) wake" and now
  show "client_wake inflate same_host server m wk now =
      (case wake_op (\<lambda>_. server) (client_command_op server) wk now of
      None \<Rightarrow> Some (if wk = WakeCommand None then Leave else Again)
    | Some e \<Rightarrow> map_option Flush (mux_step inflate same_host m e))"
    by (auto simp: client_wake_def wake_op_def option.map_comp comp_def
        split: wake.split sum.split option.split ClientCommand.split)
  show "crc_lengths_ok (client_command_op server c now)" for c now
    by (cases c) (simp_all add: crc_lengths_ok_def)
qed

end
