(* ===== verification/Soe_Sockets.thy ===== *)
theory Soe_Sockets
  imports Soe_Drivers_Run
begin

text \<open>
  The two sockets an application drives itself, \<open>SyncSoeSocket\<close> (\<open>src/sync_rt.rs\<close>) and
  \<open>TokioSoeSocket\<close> (\<open>src/tokio_rt.rs\<close>), behind the interface \<open>SoeSocket\<close> (\<open>src/socket.rs\<close>) they
  share. Binding and its options are parameters on the world; the clock a method reads is an argument.
\<close>

section \<open>The blocking socket\<close>

text \<open>The operating system's socket is in the world.\<close>

record 'a sync_socket =
  sy_mux :: "'a multiplexer"
  sy_buf :: bytes

definition sync_bind ::
    "('w \<Rightarrow> 'a \<Rightarrow> (ErrorKind + unit) \<times> 'w) \<Rightarrow>
     ('w \<Rightarrow> duration option \<Rightarrow> (ErrorKind + unit) \<times> 'w) \<Rightarrow>
     'w \<Rightarrow> 'a \<Rightarrow> socket_config \<Rightarrow> duration \<Rightarrow> (ErrorKind + 'a sync_socket) \<times> 'w" where
  "sync_bind bind_to set_read_timeout w local config tick_period = (case bind_to w local of
      (Inl e, w) \<Rightarrow> (Inl e, w)
    | (Inr _, w) \<Rightarrow> (case set_read_timeout w (Some tick_period) of
          (Inl e, w) \<Rightarrow> (Inl e, w)
        | (Inr _, w) \<Rightarrow>
            (Inr \<lparr>sy_mux = mux_new config, sy_buf = replicate RECV_BUFFER_SIZE 0\<rparr>, w)))"

definition sync_set_mux :: "'a sync_socket \<Rightarrow> 'a multiplexer \<Rightarrow> 'a sync_socket" where
  "sync_set_mux s m = s\<lparr>sy_mux := m\<rparr>"

definition sync_session_count :: "'a sync_socket \<Rightarrow> nat" where
  "sync_session_count s = session_count (sy_mux s)"

definition sync_connect :: "'a sync_socket \<Rightarrow> 'a \<Rightarrow> instant \<Rightarrow> 'a sync_socket option" where
  "sync_connect s remote now = map_option (sync_set_mux s) (mux_connect (sy_mux s) remote now)"

definition sync_enqueue_data ::
    "'a sync_socket \<Rightarrow> 'a \<Rightarrow> bytes \<Rightarrow> (bool \<times> 'a sync_socket) option" where
  "sync_enqueue_data s remote data =
     map_option (map_prod id (sync_set_mux s)) (mux_enqueue_data (sy_mux s) remote data)"

definition sync_enqueue_data_on ::
    "'a sync_socket \<Rightarrow> 'a \<Rightarrow> bytes \<Rightarrow> Channel \<Rightarrow> (bool \<times> 'a sync_socket) option" where
  "sync_enqueue_data_on s remote data channel =
     map_option (map_prod id (sync_set_mux s)) (mux_enqueue_data_on (sy_mux s) remote data channel)"

definition sync_terminate ::
    "'a sync_socket \<Rightarrow> 'a \<Rightarrow> DisconnectReason \<Rightarrow> instant \<Rightarrow> 'a sync_socket option" where
  "sync_terminate s remote reason now =
     map_option (sync_set_mux s) (mux_terminate (sy_mux s) remote reason now)"

text \<open>The method \<open>step\<close>, on the socket.\<close>

definition sync_cycle ::
    "(bytes \<Rightarrow> error + bytes) \<Rightarrow> ('a \<Rightarrow> 'a \<Rightarrow> bool) \<Rightarrow> ('a, 'w) recv \<Rightarrow> ('a, 'w) send \<Rightarrow>
     'a sync_socket \<Rightarrow> 'w \<Rightarrow> instant \<Rightarrow> instant \<Rightarrow>
     ((ErrorKind + 'a SocketEvent list) \<times> 'a sync_socket \<times> 'w) option" where
  "sync_cycle inflate same_host recv_from send s w t1 t2 =
     map_option (\<lambda>(r, m, buf, w). (r, \<lparr>sy_mux = m, sy_buf = buf\<rparr>, w))
       (sync_step inflate same_host recv_from send (sy_mux s) (sy_buf s) w t1 t2)"

section \<open>The Tokio socket\<close>

text \<open>The interval is its period; its ticks are branches of the schedule.\<close>

record 'a tokio_socket =
  tk_mux :: "'a multiplexer"
  tk_tick :: duration
  tk_buf :: bytes

definition tokio_bind ::
    "('w \<Rightarrow> 'a \<Rightarrow> (ErrorKind + unit) \<times> 'w) \<Rightarrow> 'w \<Rightarrow> 'a \<Rightarrow> socket_config \<Rightarrow> duration \<Rightarrow>
     ((ErrorKind + 'a tokio_socket) \<times> 'w) option" where
  "tokio_bind bind_to w local config tick_period = (case bind_to w local of
      (Inl e, w) \<Rightarrow> Some (Inl e, w)
    | (Inr _, w) \<Rightarrow> do {
        tick \<leftarrow> interval tick_period;
        Some (Inr \<lparr>tk_mux = mux_new config, tk_tick = tick, tk_buf = replicate RECV_BUFFER_SIZE 0\<rparr>, w)
      })"

definition tokio_set_mux :: "'a tokio_socket \<Rightarrow> 'a multiplexer \<Rightarrow> 'a tokio_socket" where
  "tokio_set_mux s m = s\<lparr>tk_mux := m\<rparr>"

definition tokio_session_count :: "'a tokio_socket \<Rightarrow> nat" where
  "tokio_session_count s = session_count (tk_mux s)"

definition tokio_connect :: "'a tokio_socket \<Rightarrow> 'a \<Rightarrow> instant \<Rightarrow> 'a tokio_socket option" where
  "tokio_connect s remote now = map_option (tokio_set_mux s) (mux_connect (tk_mux s) remote now)"

definition tokio_enqueue_data ::
    "'a tokio_socket \<Rightarrow> 'a \<Rightarrow> bytes \<Rightarrow> (bool \<times> 'a tokio_socket) option" where
  "tokio_enqueue_data s remote data =
     map_option (map_prod id (tokio_set_mux s)) (mux_enqueue_data (tk_mux s) remote data)"

definition tokio_enqueue_data_on ::
    "'a tokio_socket \<Rightarrow> 'a \<Rightarrow> bytes \<Rightarrow> Channel \<Rightarrow> (bool \<times> 'a tokio_socket) option" where
  "tokio_enqueue_data_on s remote data channel =
     map_option (map_prod id (tokio_set_mux s)) (mux_enqueue_data_on (tk_mux s) remote data channel)"

definition tokio_terminate ::
    "'a tokio_socket \<Rightarrow> 'a \<Rightarrow> DisconnectReason \<Rightarrow> instant \<Rightarrow> 'a tokio_socket option" where
  "tokio_terminate s remote reason now =
     map_option (tokio_set_mux s) (mux_terminate (tk_mux s) remote reason now)"

definition tokio_cycle ::
    "(bytes \<Rightarrow> error + bytes) \<Rightarrow> ('a \<Rightarrow> 'a \<Rightarrow> bool) \<Rightarrow> ('a, 'w) send \<Rightarrow> 'a tokio_socket \<Rightarrow> 'w \<Rightarrow>
     'a branch \<Rightarrow> instant \<Rightarrow> instant \<Rightarrow>
     ((ErrorKind + 'a SocketEvent list) \<times> 'a tokio_socket \<times> 'w) option" where
  "tokio_cycle inflate same_host send s w b t1 t2 =
     map_option (\<lambda>(r, m, w). (r, tokio_set_mux s m, w))
       (tokio_step inflate same_host send (tk_mux s) w b t1 t2)"

section \<open>The interface\<close>

text \<open>What an application calls, in any order.\<close>

datatype 'a call =
    CallConnect 'a instant
  | CallEnqueue 'a bytes
  | CallEnqueueOn 'a bytes Channel
  | CallTerminate 'a DisconnectReason instant

primrec call_op :: "'a call \<Rightarrow> 'a mux_op" where
  "call_op (CallConnect r now) = MuxConnect r now"
| "call_op (CallEnqueue r data) = MuxEnqueue r data (Reliable 0)"
| "call_op (CallEnqueueOn r data channel) = MuxEnqueue r data channel"
| "call_op (CallTerminate r reason now) = MuxTerminate r reason now"

text \<open>The contract of \<open>SoeSocket\<close>: every method is the method of the multiplexer inside.\<close>

locale soe_socket =
  fixes mux_of :: "'s \<Rightarrow> 'a multiplexer"
    and set_mux :: "'s \<Rightarrow> 'a multiplexer \<Rightarrow> 's"
    and count :: "'s \<Rightarrow> nat"
    and connect :: "'s \<Rightarrow> 'a \<Rightarrow> instant \<Rightarrow> 's option"
    and enqueue_data :: "'s \<Rightarrow> 'a \<Rightarrow> bytes \<Rightarrow> (bool \<times> 's) option"
    and enqueue_data_on :: "'s \<Rightarrow> 'a \<Rightarrow> bytes \<Rightarrow> Channel \<Rightarrow> (bool \<times> 's) option"
    and terminate :: "'s \<Rightarrow> 'a \<Rightarrow> DisconnectReason \<Rightarrow> instant \<Rightarrow> 's option"
  assumes mux_of_set [simp]: "mux_of (set_mux s m) = m"
    and counts: "count s = session_count (mux_of s)"
    and connects: "connect s r now = map_option (set_mux s) (mux_connect (mux_of s) r now)"
    and enqueues: "enqueue_data s r data =
      map_option (map_prod id (set_mux s)) (mux_enqueue_data (mux_of s) r data)"
    and enqueues_on: "enqueue_data_on s r data channel =
      map_option (map_prod id (set_mux s)) (mux_enqueue_data_on (mux_of s) r data channel)"
    and terminates: "terminate s r reason now =
      map_option (set_mux s) (mux_terminate (mux_of s) r reason now)"
begin

primrec call_step :: "'s \<Rightarrow> 'a call \<Rightarrow> 's option" where
  "call_step s (CallConnect r now) = connect s r now"
| "call_step s (CallEnqueue r data) = map_option snd (enqueue_data s r data)"
| "call_step s (CallEnqueueOn r data channel) = map_option snd (enqueue_data_on s r data channel)"
| "call_step s (CallTerminate r reason now) = terminate s r reason now"

lemma call_is_op:
  "call_step s k = map_option (set_mux s) (mux_step inflate same_host (mux_of s) (call_op k))"
  by (cases k) (simp_all add: connects enqueues enqueues_on terminates mux_enqueue_data_def
      option.map_comp comp_def)

lemma call_total:
  assumes "mux_safe (mux_of s)"
  shows "\<exists>s'. call_step s k = Some s' \<and> mux_safe (mux_of s')"
proof -
  have "crc_lengths_ok (call_op k)" by (cases k) (simp_all add: crc_lengths_ok_def)
  from mux_step_total [OF assms this, of "\<lambda>_. Inl Zlib" "\<lambda>_ _. False"] show ?thesis
    by (auto simp: call_is_op [of s k "\<lambda>_. Inl Zlib" "\<lambda>_ _. False"])
qed

text \<open>Data for an address without a session is refused, and changes nothing in the multiplexer.\<close>

lemma enqueue_unknown:
  assumes "mux_session (mux_of s) r = None"
  shows "\<exists>s'. enqueue_data_on s r data channel = Some (False, s') \<and> mux_of s' = mux_of s"
  using assms by (simp add: enqueues_on enqueue_eq_settle mux_session_def)

end

interpretation sync: soe_socket sy_mux sync_set_mux sync_session_count sync_connect
  sync_enqueue_data sync_enqueue_data_on sync_terminate
  by unfold_locales (simp_all add: sync_set_mux_def sync_session_count_def sync_connect_def
      sync_enqueue_data_def sync_enqueue_data_on_def sync_terminate_def)

interpretation tokio: soe_socket tk_mux tokio_set_mux tokio_session_count tokio_connect
  tokio_enqueue_data tokio_enqueue_data_on tokio_terminate
  by unfold_locales (simp_all add: tokio_set_mux_def tokio_session_count_def tokio_connect_def
      tokio_enqueue_data_def tokio_enqueue_data_on_def tokio_terminate_def)

section \<open>A cycle as operations of the multiplexer\<close>

text \<open>What both methods \<open>step\<close> do once the datagram, if any, has been processed.\<close>

definition finish_cycle ::
    "('a, 'w) send \<Rightarrow> 'a multiplexer \<Rightarrow> 'w \<Rightarrow> instant \<Rightarrow>
     ((ErrorKind + 'a SocketEvent list) \<times> 'a multiplexer \<times> 'w) option" where
  "finish_cycle send m w now = do {
     m \<leftarrow> mux_run_tick m now;
     let (dgs, m) = mux_take_outgoing m;
     let (r, w) = send_all send w dgs;
     (case r of
        Inl e \<Rightarrow> Some (Inl e, m, w)
      | Inr _ \<Rightarrow> let (events, m) = mux_take_events m in Some (Inr events, m, w))
   }"

lemma sync_step_finish:
  "sync_step inflate same_host recv_from send m buf w t1 t2 = (case recv_from w buf of (r, buf, w) \<Rightarrow>
     (case r of
        Inr (len, sender) \<Rightarrow> do {
          dg \<leftarrow> slice_to buf len;
          m \<leftarrow> mux_process_incoming inflate same_host m sender dg t1;
          map_option (\<lambda>(r, m, w). (r, m, buf, w)) (finish_cycle send m w t2)
        }
      | Inl e \<Rightarrow>
          if e = WouldBlock \<or> e = TimedOut
          then map_option (\<lambda>(r, m, w). (r, m, buf, w)) (finish_cycle send m w t2)
          else Some (Inl e, m, buf, w)))"
proof -
  have finish: "mux_run_tick m t2 \<bind> (\<lambda>m. let (dgs, m) = mux_take_outgoing m; (r, w) = send_all send w dgs in
      (case r of
         Inl e \<Rightarrow> Some (Inl e, m, buf, w)
       | Inr _ \<Rightarrow> let (events, m) = mux_take_events m in Some (Inr events, m, buf, w))) =
    map_option (\<lambda>(r, m, w). (r, m, buf, w)) (finish_cycle send m w t2)" for m buf w
    by (auto simp: finish_cycle_def Let_def split_beta map_option_bind bind_eq_Some_iff
        split: sum.split bind_split)
  show ?thesis unfolding sync_step_def Let_def unfolding finish [unfolded Let_def] ..
qed

lemma tokio_step_finish:
  "tokio_step inflate same_host send m w b t1 t2 = (case b of
      Received (Inl e) \<Rightarrow> Some (Inl e, m, w)
    | Received (Inr (dg, sender)) \<Rightarrow> do {
        m \<leftarrow> mux_process_incoming inflate same_host m sender dg t1; finish_cycle send m w t2 }
    | Tick \<Rightarrow> finish_cycle send m w t2)"
  unfolding tokio_step_def finish_cycle_def Let_def ..

text \<open>The events a cycle hands to the application: none when it fails.\<close>

definition cycle_events :: "ErrorKind + 'a SocketEvent list \<Rightarrow> 'a SocketEvent list" where
  "cycle_events r = (case r of Inl _ \<Rightarrow> [] | Inr events \<Rightarrow> events)"

lemma finish_cycle_reach:
  assumes reach: "mux_reach inflate same_host config h m"
    and finish: "finish_cycle send m w now = Some (r, m', w')"
  shows "mux_reach inflate same_host config (h @ cycle_events r) m'"
proof -
  obtain m1 where tick: "mux_run_tick m now = Some m1"
    using finish by (auto simp: finish_cycle_def bind_eq_Some_iff)
  let ?m2 = "snd (mux_take_outgoing m1)"
  have "mux_reach inflate same_host config h m1"
    using mux_reach.operate [OF reach, of "MuxTick now" m1] tick by simp
  then have reach2: "mux_reach inflate same_host config h ?m2"
    using mux_reach.operate [of inflate same_host config h m1 MuxTakeOutgoing ?m2] by simp
  then have reach3: "mux_reach inflate same_host config (h @ mx_events ?m2) (snd (mux_take_events ?m2))"
    using mux_reach.operate [OF reach2, of MuxTakeEvents] by simp
  show ?thesis
    using finish reach2 reach3 tick
    by (auto simp: finish_cycle_def cycle_events_def split_beta Let_def mux_take_events_def split: sum.splits)
qed

lemma finish_cycle_total:
  assumes "mux_safe m"
  shows "\<exists>r m' w'. finish_cycle send m w now = Some (r, m', w') \<and> mux_safe m'"
proof -
  obtain m1 where "mux_run_tick m now = Some m1" "mux_safe m1"
    using mux_step_total [OF assms, of "MuxTick now" "\<lambda>_. Inl Zlib" "\<lambda>_ _. False"]
    by (auto simp: crc_lengths_ok_def)
  then show ?thesis
    by (auto simp: finish_cycle_def split_beta Let_def mux_take_outgoing_def mux_take_events_def
        split: sum.split)
qed

section \<open>An application with a blocking socket\<close>

primrec sync_call :: "'a sync_socket \<Rightarrow> 'a call \<Rightarrow> 'a sync_socket option" where
  "sync_call s (CallConnect r now) = sync_connect s r now"
| "sync_call s (CallEnqueue r data) = map_option snd (sync_enqueue_data s r data)"
| "sync_call s (CallEnqueueOn r data channel) = map_option snd (sync_enqueue_data_on s r data channel)"
| "sync_call s (CallTerminate r reason now) = sync_terminate s r reason now"

lemma sync_call_eq: "sync_call s k = sync.call_step s k"
  by (cases k) simp_all

text \<open>The datagram a cycle receives, if any.\<close>

definition sync_received :: "('a, 'w) recv \<Rightarrow> 'a sync_socket \<Rightarrow> 'w \<Rightarrow> bytes list" where
  "sync_received recv_from s w = (case recv_from w (sy_buf s) of
      (Inr (len, sender), buf, w) \<Rightarrow> [take len buf]
    | _ \<Rightarrow> [])"

text \<open>The sockets an application can reach from binding one, with the events its cycles have returned
  and the datagrams they have received: calls and cycles in any order, and the map of sessions changing
  its iteration order. It connects only to remotes without a session.\<close>

inductive sync_reach ::
    "(bytes \<Rightarrow> error + bytes) \<Rightarrow> ('a \<Rightarrow> 'a \<Rightarrow> bool) \<Rightarrow>
     ('w \<Rightarrow> 'a \<Rightarrow> (ErrorKind + unit) \<times> 'w) \<Rightarrow> ('w \<Rightarrow> duration option \<Rightarrow> (ErrorKind + unit) \<times> 'w) \<Rightarrow>
     ('a, 'w) recv \<Rightarrow> ('a, 'w) send \<Rightarrow> socket_config \<Rightarrow>
     'a SocketEvent list \<Rightarrow> bytes list \<Rightarrow> 'a sync_socket \<Rightarrow> 'w \<Rightarrow> bool"
  for inflate same_host bind_to set_timeout recv_from send config where
  bound: "sync_bind bind_to set_timeout w0 local config period = (Inr s, w) \<Longrightarrow>
    sync_reach inflate same_host bind_to set_timeout recv_from send config [] [] s w"
| called: "sync_reach inflate same_host bind_to set_timeout recv_from send config h ds s w \<Longrightarrow>
    sync_call s k = Some s' \<Longrightarrow>
    \<forall>r now. k = CallConnect r now \<longrightarrow> mux_session (sy_mux s) r = None \<Longrightarrow>
    sync_reach inflate same_host bind_to set_timeout recv_from send config h ds s' w"
| cycled: "sync_reach inflate same_host bind_to set_timeout recv_from send config h ds s w \<Longrightarrow>
    sync_cycle inflate same_host recv_from send s w t1 t2 = Some (r, s', w') \<Longrightarrow>
    sync_reach inflate same_host bind_to set_timeout recv_from send config
      (h @ cycle_events r) (ds @ sync_received recv_from s w) s' w'"
| rehashed: "sync_reach inflate same_host bind_to set_timeout recv_from send config h ds s w \<Longrightarrow>
    mset xs = mset (mx_sessions (sy_mux s)) \<Longrightarrow>
    sync_reach inflate same_host bind_to set_timeout recv_from send config h ds
      (sync_set_mux s ((sy_mux s)\<lparr>mx_sessions := xs\<rparr>)) w"

lemma sync_bind_new:
  "sync_bind bind_to set_timeout w0 local config period = (Inr s, w) \<Longrightarrow>
   s = \<lparr>sy_mux = mux_new config, sy_buf = replicate RECV_BUFFER_SIZE 0\<rparr>"
  by (auto simp: sync_bind_def split: prod.splits sum.splits)

lemma sync_cycle_reach:
  assumes reach: "mux_reach inflate same_host config h (sy_mux s)"
    and cycle: "sync_cycle inflate same_host recv_from send s w t1 t2 = Some (r, s', w')"
  shows "mux_reach inflate same_host config (h @ cycle_events r) (sy_mux s')"
proof -
  obtain got buf w1 where recv: "recv_from w (sy_buf s) = (got, buf, w1)"
    by (cases "recv_from w (sy_buf s)")
  show ?thesis
  proof (cases got)
    case (Inr origin)
    then obtain len sender where got: "got = Inr (len, sender)" by (cases origin) simp
    obtain dg m where m: "mux_process_incoming inflate same_host (sy_mux s) sender dg t1 = Some m"
      and finish: "finish_cycle send m w1 t2 = Some (r, sy_mux s', w')"
      using cycle by (auto simp: sync_cycle_def sync_step_finish recv got bind_eq_Some_iff)
    have "mux_reach inflate same_host config h m"
      using mux_reach.operate [OF reach, of "MuxDatagram sender dg t1" m] m by simp
    from finish_cycle_reach [OF this finish] show ?thesis .
  next
    case (Inl e)
    then show ?thesis
      using cycle reach finish_cycle_reach [OF reach, of send w1 t2]
      by (auto simp: sync_cycle_def sync_step_finish recv cycle_events_def split: if_splits)
  qed
qed

lemma sync_reach_mux:
  "sync_reach inflate same_host bind_to set_timeout recv_from send config h ds s w \<Longrightarrow>
   mux_reach inflate same_host config h (sy_mux s)"
proof (induction rule: sync_reach.induct)
  case (bound w0 local period s w)
  then show ?case using mux_reach.start sync_bind_new [OF bound] by simp
next
  case (called h ds s w k s')
  then obtain m where m: "mux_step inflate same_host (sy_mux s) (call_op k) = Some m" "s' = sync_set_mux s m"
    by (auto simp: sync_call_eq sync.call_is_op [of s k inflate same_host])
  have "\<forall>r now. call_op k = MuxConnect r now \<longrightarrow> mux_session (sy_mux s) r = None"
    using called(3) by (cases k) simp_all
  from mux_reach.operate [OF called(4) m(1) this] show ?case
    by (cases k) (simp_all add: m(2))
next
  case (cycled h ds s w t1 t2 r s' w')
  show ?case by (rule sync_cycle_reach [OF cycled(3,2)])
next
  case (rehashed h ds s w xs)
  then show ?case using mux_reach.rehash [OF rehashed(3) rehashed(2)] by simp
qed

text \<open>What the operating system promises of \<open>recv_from\<close>: it keeps the length of the buffer, and the
  length it returns fits.\<close>

definition recv_fits :: "('a, 'w) recv \<Rightarrow> bool" where
  "recv_fits recv_from \<longleftrightarrow> (\<forall>w buf r buf' w'. recv_from w buf = (r, buf', w') \<longrightarrow>
     length buf' = length buf \<and> (\<forall>len sender. r = Inr (len, sender) \<longrightarrow> len \<le> length buf))"

text \<open>A datagram that is not a SessionResponse with a check value longer than four bytes.\<close>

definition response_fits :: "bytes \<Rightarrow> bool" where
  "response_fits dg \<longleftrightarrow> (\<forall>resp. session_response_deserialize (drop 2 dg) False = Inr resp \<longrightarrow>
     unat (sp_crc_length resp) \<le> 4)"

lemma response_fits_iff: "crc_lengths_ok (MuxDatagram r dg now) = response_fits dg"
  by (simp add: crc_lengths_ok_def response_fits_def)

lemma sync_cycle_total:
  assumes safe: "mux_safe (sy_mux s)" and fits: "recv_fits recv_from"
    and crc: "\<forall>dg\<in>set (sync_received recv_from s w). response_fits dg"
  shows "\<exists>r s' w'. sync_cycle inflate same_host recv_from send s w t1 t2 = Some (r, s', w') \<and>
    mux_safe (sy_mux s')"
proof -
  obtain got buf w1 where recv: "recv_from w (sy_buf s) = (got, buf, w1)"
    by (cases "recv_from w (sy_buf s)")
  show ?thesis
  proof (cases got)
    case (Inr origin)
    then obtain len sender where got: "got = Inr (len, sender)" by (cases origin) simp
    have len: "len \<le> length buf" using fits recv got unfolding recv_fits_def by metis
    have "crc_lengths_ok (MuxDatagram sender (take len buf) t1)"
      using crc recv got by (simp add: response_fits_iff sync_received_def)
    from mux_step_total [OF safe this, of inflate same_host] obtain m
      where m: "mux_process_incoming inflate same_host (sy_mux s) sender (take len buf) t1 = Some m"
        and "mux_safe m" by auto
    from finish_cycle_total [OF this(2), of send w1 t2] show ?thesis
      by (auto simp: sync_cycle_def sync_step_finish recv got len m)
  next
    case (Inl e)
    with finish_cycle_total [OF safe, of send w1 t2] safe show ?thesis
      by (auto simp: sync_cycle_def sync_step_finish recv)
  qed
qed

lemma sync_reach_safe:
  assumes "sync_reach inflate same_host bind_to set_timeout recv_from send config h ds s w"
    and "room_ok (default_session_params config)" and "recv_fits recv_from"
    and "\<forall>dg\<in>set ds. response_fits dg"
  shows "mux_safe (sy_mux s)"
  using assms(1,4)
proof (induction rule: sync_reach.induct)
  case (bound w0 local period s w)
  then show ?case using mux_safe_new [OF assms(2)] sync_bind_new [OF bound(1)] by simp
next
  case (called h ds s w k s')
  with sync.call_total [of s k] show ?case by (simp add: sync_call_eq)
next
  case (cycled h ds s w t1 t2 r s' w')
  then have "mux_safe (sy_mux s)" and "\<forall>dg\<in>set (sync_received recv_from s w). response_fits dg" by auto
  with cycled sync_cycle_total [OF this(1) assms(3) this(2), of inflate same_host send t1 t2]
  show ?case by auto
next
  case (rehashed h ds s w xs)
  then show ?case using rehash_sessions(1) [OF _ rehashed(2), of safe] by (simp add: mux_safe_def)
qed

section \<open>The Tokio socket cycles alike\<close>

lemma tokio_cycle_reach:
  assumes reach: "mux_reach inflate same_host config h (tk_mux s)"
    and cycle: "tokio_cycle inflate same_host send s w b t1 t2 = Some (r, s', w')"
  shows "mux_reach inflate same_host config (h @ cycle_events r) (tk_mux s')"
proof (cases "\<exists>dg sender. b = Received (Inr (dg, sender))")
  case True
  then obtain dg sender where b: "b = Received (Inr (dg, sender))" by blast
  obtain m where m: "mux_process_incoming inflate same_host (tk_mux s) sender dg t1 = Some m"
    and finish: "finish_cycle send m w t2 = Some (r, tk_mux s', w')"
    using cycle by (auto simp: tokio_cycle_def tokio_step_finish b bind_eq_Some_iff tokio_set_mux_def)
  have "mux_reach inflate same_host config h m"
    using mux_reach.operate [OF reach, of "MuxDatagram sender dg t1" m] m by simp
  from finish_cycle_reach [OF this finish] show ?thesis .
next
  case False
  then show ?thesis
    using cycle reach finish_cycle_reach [OF reach, of send w t2]
    by (auto simp: tokio_cycle_def tokio_step_finish cycle_events_def tokio_set_mux_def
        split: branch.splits sum.splits prod.splits)
qed

section \<open>Properties\<close>

text \<open>C19: A bound blocking socket refines the multiplexer. Whatever an application calls that connects
  only to remotes without a session, and whatever the operating system returns, failures of receiving
  and sending included, the multiplexer inside is a reachable one with the events the cycles have
  returned as those taken from it. Without port remaps the events returned and those still waiting
  therefore fit, for every remote, the lifecycle of its session.\<close>

theorem blocking_socket_refines:
  assumes "sync_reach inflate same_host bind_to set_timeout recv_from send config h ds s w"
  shows "mux_reach inflate same_host config h (sy_mux s) \<and>
    (\<not> allow_port_remaps config \<longrightarrow>
      (\<forall>r. track False (lifecycle_of r (h @ mx_events (sy_mux s))) = Some (remote_open (sy_mux s) r)))"
  using sync_reach_mux [OF assms] mux_reach_ok by (fastforce simp: mux_ok_def tracked_def)

text \<open>An application that binds a socket and connects to \<open>4001\<close>; then a datagram of another remote
  arrives.\<close>

abbreviation one_recv :: "(nat, bool) recv" where
  "one_recv \<equiv> \<lambda>w buf. if w \<and> 2 \<le> length buf then (Inr (2, 5), [0, 5] @ drop 2 buf, False)
     else (Inl TimedOut, buf, w)"

abbreviation demo_send :: "(nat, bool) send" where
  "demo_send \<equiv> \<lambda>w dg a. (Inr (length dg), w)"

abbreviation demo_reach :: "nat SocketEvent list \<Rightarrow> bytes list \<Rightarrow> nat sync_socket \<Rightarrow> bool \<Rightarrow> bool" where
  "demo_reach \<equiv> sync_reach (\<lambda>_. Inl Zlib) (=) (\<lambda>w a. (Inr (), w)) (\<lambda>w d. (Inr (), w)) one_recv
     demo_send (demo_config False)"

lemma demo_room: "room_ok (default_session_params (demo_config x))"
  by (simp add: room_ok_def demo_config_def session_parameters_default_def CRC_LENGTH_def DEFAULT_UDP_LENGTH_def)

lemma sync_demo:
  "\<exists>s. demo_reach [] [] s True \<and> mux_session (sy_mux s) 4001 \<noteq> None \<and> length (sy_buf s) = 2048"
proof -
  obtain m where m: "mux_connect (mux_new (demo_config False)) (4001 :: nat) 0 = Some m"
    "mux_session m 4001 \<noteq> None" using demo_connect by blast
  let ?s = "\<lparr>sy_mux = mux_new (demo_config False), sy_buf = replicate RECV_BUFFER_SIZE 0\<rparr> :: nat sync_socket"
  have "sync_bind (\<lambda>w a. (Inr (), w)) (\<lambda>w d. (Inr (), w)) True (5 :: nat) (demo_config False) 7 = (Inr ?s, True)"
    by (simp add: sync_bind_def)
  then have "demo_reach [] [] ?s True" by (rule sync_reach.bound)
  then have "demo_reach [] [] (sync_set_mux ?s m) True"
    by (rule sync_reach.called [where k = "CallConnect 4001 0"])
      (use m in \<open>simp_all add: sync_connect_def mux_session_def mux_new_def\<close>)
  with m(2) show ?thesis
    by (intro exI [of _ "sync_set_mux ?s m"]) (simp add: sync_set_mux_def RECV_BUFFER_SIZE_def)
qed

theorem blocking_socket_refines_witness:
  "\<exists>s. demo_reach [] [] s True \<and> mux_session (sy_mux s) 4001 \<noteq> None \<and>
     mux_reach (\<lambda>_. Inl Zlib) (=) (demo_config False) [] (sy_mux s)"
  using sync_demo blocking_socket_refines [of "\<lambda>_. Inl Zlib" "(=)" "\<lambda>w a. (Inr (), w)" "\<lambda>w d. (Inr (), w)"
      one_recv demo_send "demo_config False" "[]" "[]" _ True] by blast

text \<open>C20: An application with a blocking socket never panics unless a SessionResponse with a check
  value longer than four bytes has arrived: as long as none of the datagrams received so far is one,
  every method returns, and a cycle can only panic if the datagram it receives is one. The default
  parameters leave room for a packet, the application connects only to remotes without a session, and
  \<open>recv_from\<close> keeps to its buffer.\<close>

theorem blocking_socket_never_panics:
  assumes "sync_reach inflate same_host bind_to set_timeout recv_from send config h ds s w"
    and "room_ok (default_session_params config)" and "recv_fits recv_from"
    and "\<forall>dg\<in>set ds. response_fits dg"
  shows "sync_connect s r now \<noteq> None \<and> sync_enqueue_data s r data \<noteq> None \<and>
    sync_enqueue_data_on s r data channel \<noteq> None \<and> sync_terminate s r reason now \<noteq> None \<and>
    (sync_cycle inflate same_host recv_from send s w t1 t2 = None \<longrightarrow>
      (\<exists>dg\<in>set (sync_received recv_from s w). \<not> response_fits dg))"
proof -
  have safe: "mux_safe (sy_mux s)" by (rule sync_reach_safe [OF assms])
  have "sync_call s k \<noteq> None" for k
    using sync.call_total [OF safe, of k] by (auto simp: sync_call_eq)
  from this [of "CallConnect r now"] this [of "CallEnqueue r data"] this [of "CallEnqueueOn r data channel"]
    this [of "CallTerminate r reason now"]
  show ?thesis using sync_cycle_total [OF safe assms(3), of w inflate same_host send t1 t2] by fastforce
qed

lemma short_response_fits: "response_fits [0, 5]"
  by (simp add: response_fits_def deserialize_defs read_u32_def reader_ensure_def reader_new_def
      reader_remaining_def)

theorem blocking_socket_never_panics_witness:
  "\<exists>s s' h w. demo_reach [] [] s True \<and> mux_session (sy_mux s) 4001 \<noteq> None \<and>
     sync_received one_recv s True = [[0, 5]] \<and> demo_reach h [[0, 5]] s' w \<and>
     sync_enqueue_data_on s' 4001 [1, 2] Unreliable \<noteq> None"
proof -
  obtain s where s: "demo_reach [] [] s True" "mux_session (sy_mux s) 4001 \<noteq> None" "length (sy_buf s) = 2048"
    using sync_demo by blast
  have fits: "recv_fits one_recv" by (auto simp: recv_fits_def)
  have got: "sync_received one_recv s True = [[0, 5]]" using s(3) by (simp add: sync_received_def)
  have "sync_cycle (\<lambda>_. Inl Zlib) (=) one_recv demo_send s True 3 4 = None \<longrightarrow>
      (\<exists>dg\<in>set (sync_received one_recv s True). \<not> response_fits dg)"
    using blocking_socket_never_panics [OF s(1) demo_room fits] by simp
  then obtain r s' w where cycle: "sync_cycle (\<lambda>_. Inl Zlib) (=) one_recv demo_send s True 3 4 = Some (r, s', w)"
    using short_response_fits got by fastforce
  have reach: "demo_reach (cycle_events r) [[0, 5]] s' w"
    using sync_reach.cycled [OF s(1) cycle] got by simp
  have "\<forall>dg\<in>set [[0, 5 :: u8]]. response_fits dg" using short_response_fits by simp
  from blocking_socket_never_panics [OF reach demo_room fits this]
  have "sync_enqueue_data_on s' 4001 [1, 2] Unreliable \<noteq> None" by blast
  with s got reach show ?thesis by blast
qed

text \<open>C21: A failed send costs the sessions after it their datagrams. When sending the first waiting
  datagram of a cycle fails, both sockets return the error at once; the datagrams behind it, to
  whatever remotes, are not sent in this cycle and no longer wait for the next, while the events do.\<close>

theorem failed_send_discards_rest:
  assumes "recv_from w (sy_buf s) = (Inl TimedOut, buf, w1)" and "tk_mux s' = sy_mux s"
    and "mux_run_tick (sy_mux s) t2 = Some m" and "mx_outgoing m = (remote, dg) # rest"
    and "send w1 dg remote = (Inl e, w2)"
  shows "sync_cycle inflate same_host recv_from send s w t1 t2 =
      Some (Inl e, \<lparr>sy_mux = m\<lparr>mx_outgoing := []\<rparr>, sy_buf = buf\<rparr>, w2) \<and>
    tokio_cycle inflate same_host send s' w1 Tick t1 t2 =
      Some (Inl e, tokio_set_mux s' (m\<lparr>mx_outgoing := []\<rparr>), w2)"
proof -
  have "finish_cycle send (sy_mux s) w1 t2 = Some (Inl e, m\<lparr>mx_outgoing := []\<rparr>, w2)"
    using assms by (simp add: finish_cycle_def mux_take_outgoing_def)
  then show ?thesis
    using assms(1,2) by (simp add: sync_cycle_def sync_step_finish tokio_cycle_def tokio_step_finish)
qed

text \<open>Two farewells wait, and the first cannot be sent: the second is lost.\<close>

theorem failed_send_discards_rest_witness:
  "\<exists>m s'. mx_outgoing m = [(1 :: nat, [0, 5]), (2, [0, 5])] \<and>
     sync_cycle (\<lambda>_. Inl Zlib) (=) (\<lambda>w buf. (Inl TimedOut, buf, w))
       (\<lambda>w dg a. if a = 1 then (Inl (OtherError 101), w) else (Inr (length dg), w @ [a]))
       \<lparr>sy_mux = m, sy_buf = []\<rparr> [] 3 4 = Some (Inl (OtherError 101), s', []) \<and>
     mx_outgoing (sy_mux s') = []"
proof -
  let ?m = "(mux_new (demo_config False))\<lparr>mx_outgoing := [(1 :: nat, [0, 5]), (2, [0, 5])]\<rparr>"
  have "mux_run_tick ?m 4 = Some ?m" by (simp add: mux_run_tick_def mux_new_def)
  then show ?thesis
    using failed_send_discards_rest [of "\<lambda>w buf. (Inl TimedOut, buf, w)" "[]" "\<lparr>sy_mux = ?m, sy_buf = []\<rparr>"
        "[]" "[]" "\<lparr>tk_mux = ?m, tk_tick = 1, tk_buf = []\<rparr>" 4 ?m 1 "[0, 5]" "[(2, [0, 5])]"
        "\<lambda>w dg a. if a = 1 then (Inl (OtherError 101), w) else (Inr (length dg), w @ [a])"
        "OtherError 101" "[]" "\<lambda>_. Inl Zlib" "(=)" 3]
    by (intro exI [of _ ?m] exI [of _ "\<lparr>sy_mux = ?m\<lparr>mx_outgoing := []\<rparr>, sy_buf = []\<rparr>"]) simp
qed

end
