(* ===== verification/Soe_Handles.thy ===== *)
theory Soe_Handles
  imports Soe_Drivers_Run
begin

text \<open>
  The handles of the Tokio server and client (\<open>src/tokio_rt.rs\<close>) and the actors behind them.
  A handle posts commands to an unbounded channel of the runtime, whose two operations are
  parameters; the actor takes them out between datagrams and ticks. Whatever the interleaving, an
  actor serves its multiplexer as its drive loop does on some schedule, in which the commands come in
  the order they were posted, each once, up to an abort.
\<close>

section \<open>Addresses\<close>

text \<open>\<open>std::net::SocketAddr\<close>; the flow label and scope of an IPv6 address are not kept.\<close>

datatype ip_addr = IpV4 "32 word" | IpV6 "128 word"

record socket_addr =
  sa_ip :: ip_addr
  sa_port :: u16

definition addr_same_host :: "socket_addr \<Rightarrow> socket_addr \<Rightarrow> bool" where
  "addr_same_host a b \<longleftrightarrow> sa_ip a = sa_ip b"

text \<open>The local address of \<open>connect_to\<close>: any port of the unspecified address of the server's
  family.\<close>

definition client_local :: "socket_addr \<Rightarrow> socket_addr" where
  "client_local server = (case sa_ip server of
      IpV4 _ \<Rightarrow> \<lparr>sa_ip = IpV4 0, sa_port = 0\<rparr>
    | IpV6 _ \<Rightarrow> \<lparr>sa_ip = IpV6 0, sa_port = 0\<rparr>)"

section \<open>Channels of the runtime\<close>

text \<open>Posting fails when the receiver is gone; fetching is pending (\<open>None\<close>), at the end
  (\<open>Some None\<close>) or a command.\<close>

type_synonym ('q, 'c) post = "'q \<Rightarrow> 'c \<Rightarrow> (unit + unit) \<times> 'q"
type_synonym ('q, 'c) fetch = "'q \<Rightarrow> 'c option option \<times> 'q"

definition is_ok :: "'e + 'b \<Rightarrow> bool" where
  "is_ok r = (case r of Inl _ \<Rightarrow> False | Inr _ \<Rightarrow> True)"

text \<open>The documented behaviour of the channel: first in, first out.\<close>

definition fifo :: "('q \<Rightarrow> 'c list) \<Rightarrow> ('q, 'c) post \<Rightarrow> ('q, 'c) fetch \<Rightarrow> bool" where
  "fifo content post fetch \<longleftrightarrow>
     (\<forall>q c. content (snd (post q c)) = (if is_ok (fst (post q c)) then content q @ [c] else content q)) \<and>
     (\<forall>q. case fst (fetch q) of
        Some (Some c) \<Rightarrow> content q = c # content (snd (fetch q))
      | _ \<Rightarrow> content (snd (fetch q)) = content q)"

section \<open>Handles\<close>

definition handle_connect :: "('q, 'a Command) post \<Rightarrow> 'q \<Rightarrow> 'a \<Rightarrow> bool \<times> 'q" where
  "handle_connect post q remote = map_prod is_ok id (post q (Connect remote))"

definition handle_enqueue_data_on ::
    "('q, 'a Command) post \<Rightarrow> 'q \<Rightarrow> 'a \<Rightarrow> bytes \<Rightarrow> Channel \<Rightarrow> bool \<times> 'q" where
  "handle_enqueue_data_on post q remote data channel =
     map_prod is_ok id (post q (EnqueueData remote data channel))"

definition handle_enqueue_data :: "('q, 'a Command) post \<Rightarrow> 'q \<Rightarrow> 'a \<Rightarrow> bytes \<Rightarrow> bool \<times> 'q" where
  "handle_enqueue_data post q remote data = handle_enqueue_data_on post q remote data (Reliable 0)"

definition handle_terminate ::
    "('q, 'a Command) post \<Rightarrow> 'q \<Rightarrow> 'a \<Rightarrow> DisconnectReason \<Rightarrow> bool \<times> 'q" where
  "handle_terminate post q remote reason = map_prod is_ok id (post q (Terminate remote reason))"

definition client_handle_enqueue_data_on ::
    "('q, ClientCommand) post \<Rightarrow> 'q \<Rightarrow> bytes \<Rightarrow> Channel \<Rightarrow> bool \<times> 'q" where
  "client_handle_enqueue_data_on post q data channel =
     map_prod is_ok id (post q (ClientEnqueueData data channel))"

definition client_handle_enqueue_data ::
    "('q, ClientCommand) post \<Rightarrow> 'q \<Rightarrow> bytes \<Rightarrow> bool \<times> 'q" where
  "client_handle_enqueue_data post q data = client_handle_enqueue_data_on post q data (Reliable 0)"

definition client_handle_terminate ::
    "('q, ClientCommand) post \<Rightarrow> 'q \<Rightarrow> DisconnectReason \<Rightarrow> bool \<times> 'q" where
  "client_handle_terminate post q reason = map_prod is_ok id (post q (ClientTerminate reason))"

section \<open>Actors\<close>

text \<open>The state of the drive loop, the command channel and whether the task runs.\<close>

record ('s, 'q) actor =
  ac_state :: 's
  ac_commands :: 'q
  ac_running :: bool

text \<open>The tasks are spawned with the state in which they enter their loop; a zero tick period makes
  them panic before. (An abort before the client's task has sent its request is not modelled.)\<close>

definition server_bind ::
    "socket_config \<Rightarrow> duration \<Rightarrow> 'q \<Rightarrow> 'w \<Rightarrow>
     ('a multiplexer \<times> 'w \<times> 'a SocketEvent list, 'q) actor option" where
  "server_bind config tick_period q w = do {
     _ \<leftarrow> interval tick_period;
     Some \<lparr>ac_state = (mux_new config, w, []), ac_commands = q, ac_running = True\<rparr>
   }"

definition client_connect ::
    "('a, 'w) send \<Rightarrow> 'a \<Rightarrow> socket_config \<Rightarrow> duration \<Rightarrow> 'q \<Rightarrow> 'w \<Rightarrow> instant \<Rightarrow>
     ('a multiplexer \<times> 'w \<times> ClientEvent list, 'q) actor option" where
  "client_connect send server config tick_period q w now = do {
     _ \<leftarrow> interval tick_period;
     s \<leftarrow> client_start send server config w now;
     Some \<lparr>ac_state = s, ac_commands = q, ac_running = True\<rparr>
   }"

text \<open>Every handle of a server or client posts to the one channel.\<close>

definition actor_handle :: "('s, 'q) actor \<Rightarrow> 'q" where
  "actor_handle act = ac_commands act"

definition actor_abort :: "('s, 'q) actor \<Rightarrow> ('s, 'q) actor" where
  "actor_abort act = act\<lparr>ac_running := False\<rparr>"

text \<open>What happens to an actor: a handle posts, the task is aborted, a branch of its \<open>select!\<close>
  completes and the pass runs to its end, or the task is aborted in the pass, when it has sent some
  datagrams. A stopped task does nothing.\<close>

datatype 'a ready =
    Arrived "ErrorKind + bytes \<times> 'a"
  | Interval
  | Fetch

datatype ('a, 'c) stimulus =
    Post 'c
  | Abort
  | Ready "'a ready" instant
  | AbortSending nat "'a ready" instant

text \<open>The wake of a branch; a fetch may be pending.\<close>

definition actor_wake ::
    "('q, 'c) fetch \<Rightarrow> 'q \<Rightarrow> 'a ready \<Rightarrow> ('a, 'c) wake option \<times> 'q" where
  "actor_wake fetch q b = (case b of
      Arrived r \<Rightarrow> (Some (WakeReceived r), q)
    | Interval \<Rightarrow> (Some WakeTick, q)
    | Fetch \<Rightarrow> map_prod (map_option WakeCommand) id (fetch q))"

definition actor_step ::
    "('s \<Rightarrow> ('a, 'c) wake \<Rightarrow> instant \<Rightarrow> ('s \<times> bool) option) \<Rightarrow>
     (nat \<Rightarrow> 's \<Rightarrow> ('a, 'c) wake \<Rightarrow> instant \<Rightarrow> 's option) \<Rightarrow> ('q, 'c) post \<Rightarrow> ('q, 'c) fetch \<Rightarrow>
     ('s, 'q) actor \<Rightarrow> ('a, 'c) stimulus \<Rightarrow> ('s, 'q) actor option" where
  "actor_step pass halt post fetch act e = (case e of
      Post c \<Rightarrow> Some (act\<lparr>ac_commands := snd (post (ac_commands act) c)\<rparr>)
    | Abort \<Rightarrow> Some (actor_abort act)
    | Ready b now \<Rightarrow>
        if \<not> ac_running act then Some act
        else (case actor_wake fetch (ac_commands act) b of
            (None, q) \<Rightarrow> Some (act\<lparr>ac_commands := q\<rparr>)
          | (Some wk, q) \<Rightarrow>
              map_option (\<lambda>(s, again). act\<lparr>ac_state := s, ac_commands := q, ac_running := again\<rparr>)
                (pass (ac_state act) wk now))
    | AbortSending sends b now \<Rightarrow>
        if \<not> ac_running act then Some act
        else (case actor_wake fetch (ac_commands act) b of
            (None, q) \<Rightarrow> Some (actor_abort (act\<lparr>ac_commands := q\<rparr>))
          | (Some wk, q) \<Rightarrow>
              map_option (\<lambda>s. actor_abort (act\<lparr>ac_state := s, ac_commands := q\<rparr>))
                (halt sends (ac_state act) wk now)))"

text \<open>A run, with the commands the channel accepted.\<close>

definition posted_by :: "('q, 'c) post \<Rightarrow> 'q \<Rightarrow> ('a, 'c) stimulus \<Rightarrow> 'c list" where
  "posted_by post q e = (case e of Post c \<Rightarrow> if is_ok (fst (post q c)) then [c] else [] | _ \<Rightarrow> [])"

primrec actor_run ::
    "('s \<Rightarrow> ('a, 'c) wake \<Rightarrow> instant \<Rightarrow> ('s \<times> bool) option) \<Rightarrow>
     (nat \<Rightarrow> 's \<Rightarrow> ('a, 'c) wake \<Rightarrow> instant \<Rightarrow> 's option) \<Rightarrow> ('q, 'c) post \<Rightarrow> ('q, 'c) fetch \<Rightarrow>
     ('s, 'q) actor \<Rightarrow> ('a, 'c) stimulus list \<Rightarrow> ('c list \<times> ('s, 'q) actor) option" where
  "actor_run pass halt post fetch act [] = Some ([], act)"
| "actor_run pass halt post fetch act (e # es) = do {
     act' \<leftarrow> actor_step pass halt post fetch act e;
     (posted, act'') \<leftarrow> actor_run pass halt post fetch act' es;
     Some (posted_by post (ac_commands act) e @ posted, act'')
   }"

section \<open>Servers and clients\<close>

text \<open>A bound server or client: its actor, the address of its socket, and how many of the events
  the actor has forwarded have been received.\<close>

record ('s, 'q, 'a) endpoint_task =
  et_actor :: "('s, 'q) actor"
  et_local :: 'a
  et_read :: nat

definition tokio_server_bind ::
    "('w \<Rightarrow> 'a \<Rightarrow> (ErrorKind + unit) \<times> 'w) \<Rightarrow> ('w \<Rightarrow> ErrorKind + 'a) \<Rightarrow> 'w \<Rightarrow> 'a \<Rightarrow>
     socket_config \<Rightarrow> duration \<Rightarrow> 'q \<Rightarrow>
     (ErrorKind + ('a multiplexer \<times> 'w \<times> 'a SocketEvent list, 'q, 'a) endpoint_task) option" where
  "tokio_server_bind bind_to local_addr w local config tick_period q = (case bind_to w local of
      (Inl e, w) \<Rightarrow> Some (Inl e)
    | (Inr _, w) \<Rightarrow> (case local_addr w of
          Inl e \<Rightarrow> Some (Inl e)
        | Inr addr \<Rightarrow> map_option (\<lambda>act. Inr \<lparr>et_actor = act, et_local = addr, et_read = 0\<rparr>)
            (server_bind config tick_period q w)))"

definition tokio_client_connect ::
    "('w \<Rightarrow> 'a \<Rightarrow> (ErrorKind + unit) \<times> 'w) \<Rightarrow> ('w \<Rightarrow> 'a \<Rightarrow> (ErrorKind + unit) \<times> 'w) \<Rightarrow>
     ('w \<Rightarrow> ErrorKind + 'a) \<Rightarrow> ('a, 'w) send \<Rightarrow> 'w \<Rightarrow> 'a \<Rightarrow> 'a \<Rightarrow> socket_config \<Rightarrow> duration \<Rightarrow>
     'q \<Rightarrow> instant \<Rightarrow>
     (ErrorKind + ('a multiplexer \<times> 'w \<times> ClientEvent list, 'q, 'a) endpoint_task) option" where
  "tokio_client_connect bind_to connect_to local_addr send w local server config tick_period q now =
     (case bind_to w local of
        (Inl e, w) \<Rightarrow> Some (Inl e)
      | (Inr _, w) \<Rightarrow> (case connect_to w server of
            (Inl e, w) \<Rightarrow> Some (Inl e)
          | (Inr _, w) \<Rightarrow> (case local_addr w of
                Inl e \<Rightarrow> Some (Inl e)
              | Inr addr \<Rightarrow> map_option (\<lambda>act. Inr \<lparr>et_actor = act, et_local = addr, et_read = 0\<rparr>)
                  (client_connect send server config tick_period q w now))))"

definition tokio_client_connect_to ::
    "('w \<Rightarrow> socket_addr \<Rightarrow> (ErrorKind + unit) \<times> 'w) \<Rightarrow>
     ('w \<Rightarrow> socket_addr \<Rightarrow> (ErrorKind + unit) \<times> 'w) \<Rightarrow> ('w \<Rightarrow> ErrorKind + socket_addr) \<Rightarrow>
     (socket_addr, 'w) send \<Rightarrow> 'w \<Rightarrow> socket_addr \<Rightarrow> socket_config \<Rightarrow> duration \<Rightarrow> 'q \<Rightarrow> instant \<Rightarrow>
     (ErrorKind + (socket_addr multiplexer \<times> 'w \<times> ClientEvent list, 'q, socket_addr) endpoint_task)
     option" where
  "tokio_client_connect_to bind_to connect_to local_addr send w server config tick_period q now =
     tokio_client_connect bind_to connect_to local_addr send w (client_local server) server config
       tick_period q now"

text \<open>The next event: pending (\<open>None\<close>) while the task runs and has forwarded no more, and at the
  end (\<open>Some None\<close>) once it has stopped.\<close>

definition recv_event ::
    "('m \<times> 'w \<times> 'e list, 'q, 'a) endpoint_task \<Rightarrow>
     'e option option \<times> ('m \<times> 'w \<times> 'e list, 'q, 'a) endpoint_task" where
  "recv_event t = (case ac_state (et_actor t) of (_, _, delivered) \<Rightarrow>
     (if et_read t < length delivered
      then (Some (Some (delivered ! et_read t)), t\<lparr>et_read := et_read t + 1\<rparr>)
      else (if ac_running (et_actor t) then None else Some None, t)))"

primrec recv_events ::
    "nat \<Rightarrow> ('m \<times> 'w \<times> 'e list, 'q, 'a) endpoint_task \<Rightarrow> 'e list" where
  "recv_events 0 t = []"
| "recv_events (Suc n) t = (case recv_event t of
      (Some (Some e), t) \<Rightarrow> e # recv_events n t
    | (_, t) \<Rightarrow> recv_events n t)"

text \<open>Events are received in the order they were forwarded, each once.\<close>

lemma recv_events_eq:
  "recv_events n t = take n (drop (et_read t) (snd (snd (ac_state (et_actor t)))))"
proof (induction n arbitrary: t)
  case (Suc n)
  obtain m w delivered where state: "ac_state (et_actor t) = (m, w, delivered)" by (cases "ac_state (et_actor t)")
  show ?case
  proof (cases "et_read t < length delivered")
    case True
    then have "drop (et_read t) delivered = delivered ! et_read t # drop (Suc (et_read t)) delivered"
      by (simp add: Cons_nth_drop_Suc)
    with True state Suc show ?thesis by (simp add: recv_event_def)
  next
    case False
    with state Suc show ?thesis by (simp add: recv_event_def)
  qed
qed simp

section \<open>What an actor serves\<close>

primrec commands_of :: "(('a, 'c) wake \<times> instant) list \<Rightarrow> 'c list" where
  "commands_of [] = []"
| "commands_of (wk # wks) =
     (case fst wk of WakeCommand (Some c) \<Rightarrow> [c] | _ \<Rightarrow> []) @ commands_of wks"

lemma commands_of_append [simp]: "commands_of (xs @ ys) = commands_of xs @ commands_of ys"
  by (induction xs) simp_all

text \<open>The wakes that are not commands, and those of the stimuli.\<close>

definition others_of :: "(('a, 'c) wake \<times> instant) list \<Rightarrow> (('a, 'c) wake \<times> instant) list" where
  "others_of wks = filter (\<lambda>wk. \<forall>c. fst wk \<noteq> WakeCommand c) wks"

definition ready_wake :: "'a ready \<Rightarrow> instant \<Rightarrow> (('a, 'c) wake \<times> instant) list" where
  "ready_wake b now = (case b of
      Arrived r \<Rightarrow> [(WakeReceived r, now)] | Interval \<Rightarrow> [(WakeTick, now)] | Fetch \<Rightarrow> [])"

definition arrival :: "('a, 'c) stimulus \<Rightarrow> (('a, 'c) wake \<times> instant) list" where
  "arrival e = (case e of
      Ready b now \<Rightarrow> ready_wake b now | AbortSending _ b now \<Rightarrow> ready_wake b now | _ \<Rightarrow> [])"

definition arrivals :: "('a, 'c) stimulus list \<Rightarrow> (('a, 'c) wake \<times> instant) list" where
  "arrivals es = concat (map arrival es)"

lemma others_of_simps [simp]:
  "others_of [] = []" "others_of (xs @ ys) = others_of xs @ others_of ys"
  "others_of [(WakeReceived r, now)] = [(WakeReceived r, now)]" "others_of [(WakeTick, now)] = [(WakeTick, now)]"
  "others_of [(WakeCommand c, now)] = []"
  by (simp_all add: others_of_def)

text \<open>The contract of a loop: what it has done after the wakes it has handled, while it goes on
  (\<open>live\<close>) and once it has stopped or been aborted (\<open>ended\<close>).\<close>

locale actor_contract =
  fixes pass :: "'s \<Rightarrow> ('a, 'c) wake \<Rightarrow> instant \<Rightarrow> ('s \<times> bool) option"
    and halt :: "nat \<Rightarrow> 's \<Rightarrow> ('a, 'c) wake \<Rightarrow> instant \<Rightarrow> 's option"
    and live :: "(('a, 'c) wake \<times> instant) list \<Rightarrow> 's \<Rightarrow> bool"
    and ended :: "(('a, 'c) wake \<times> instant) list \<Rightarrow> 's \<Rightarrow> bool"
  assumes goes_on: "live wks s \<Longrightarrow> pass s wk now = Some (s', True) \<Longrightarrow> live (wks @ [(wk, now)]) s'"
    and stops: "live wks s \<Longrightarrow> pass s wk now = Some (s', False) \<Longrightarrow> ended (wks @ [(wk, now)]) s'"
    and is_cut: "live wks s \<Longrightarrow> halt sends s wk now = Some s' \<Longrightarrow> ended (wks @ [(wk, now)]) s'"
    and rests: "live wks s \<Longrightarrow> ended wks s"
begin

definition follows :: "(('a, 'c) wake \<times> instant) list \<Rightarrow> ('s, 'q) actor \<Rightarrow> bool" where
  "follows wks act = (if ac_running act then live wks (ac_state act) else ended wks (ac_state act))"

lemma follows_ended: "follows wks act \<Longrightarrow> ended wks (ac_state act)"
  using rests by (simp add: follows_def split: if_splits)

lemma follows_live: "follows wks act \<Longrightarrow> ac_running act \<Longrightarrow> live wks (ac_state act)"
  by (simp add: follows_def)

lemma wake_follows:
  assumes fifo: "fifo content post fetch" and wake: "actor_wake fetch q b = (wk, q')"
  shows "(case wk of
      None \<Rightarrow> content q' = content q \<and> b = Fetch
    | Some wk \<Rightarrow> commands_of [(wk, now)] @ content q' = content q \<and>
        others_of [(wk, now)] = ready_wake b now)"
proof (cases b)
  case Fetch
  obtain r q1 where fetch: "fetch q = (r, q1)" by (cases "fetch q")
  have "case r of Some (Some c) \<Rightarrow> content q = c # content q1 | _ \<Rightarrow> content q1 = content q"
    using fifo fetch unfolding fifo_def by (metis fst_conv snd_conv)
  with wake fetch Fetch show ?thesis
    by (auto simp: actor_wake_def ready_wake_def split: option.splits)
qed (use wake in \<open>auto simp: actor_wake_def ready_wake_def\<close>)

lemma step_follows:
  assumes step: "actor_step pass halt post fetch act e = Some act'" and fifo: "fifo content post fetch"
    and follows: "follows wks act"
  shows "\<exists>new. follows (wks @ new) act' \<and>
    commands_of new @ content (ac_commands act') = content (ac_commands act) @ posted_by post (ac_commands act) e \<and>
    (if ac_running act then others_of new = arrival e else new = [] \<and> \<not> ac_running act')"
proof (cases e)
  case (Post c)
  with step fifo follows show ?thesis
    by (intro exI [of _ "[]"]) (auto simp: actor_step_def follows_def fifo_def posted_by_def arrival_def)
next
  case Abort
  with step follows rests show ?thesis
    by (intro exI [of _ "[]"])
      (auto simp: actor_step_def actor_abort_def follows_def posted_by_def arrival_def)
next
  case (Ready b now)
  obtain wk q where wake: "actor_wake fetch (ac_commands act) b = (wk, q)"
    by (cases "actor_wake fetch (ac_commands act) b")
  note content = wake_follows [OF fifo wake, of now]
  show ?thesis
  proof (cases "ac_running act")
    case False
    with step follows Ready show ?thesis
      by (intro exI [of _ "[]"]) (simp add: actor_step_def posted_by_def)
  next
    case running: True
    show ?thesis
    proof (cases wk)
      case None
      with step follows Ready running wake content show ?thesis
        by (intro exI [of _ "[]"])
          (auto simp: actor_step_def follows_def posted_by_def arrival_def ready_wake_def)
    next
      case (Some k)
      then obtain s again where "pass (ac_state act) k now = Some (s, again)"
        and "act' = act\<lparr>ac_state := s, ac_commands := q, ac_running := again\<rparr>"
        using step Ready running wake by (auto simp: actor_step_def)
      with follows running goes_on stops have "follows (wks @ [(k, now)]) act'" and "ac_commands act' = q"
        by (auto simp: follows_def)
      with content Some Ready running show ?thesis
        by (intro exI [of _ "[(k, now)]"]) (simp add: posted_by_def arrival_def del: commands_of.simps)
    qed
  qed
next
  case (AbortSending sends b now)
  obtain wk q where wake: "actor_wake fetch (ac_commands act) b = (wk, q)"
    by (cases "actor_wake fetch (ac_commands act) b")
  note content = wake_follows [OF fifo wake, of now]
  show ?thesis
  proof (cases "ac_running act")
    case False
    with step follows AbortSending show ?thesis
      by (intro exI [of _ "[]"]) (simp add: actor_step_def posted_by_def)
  next
    case running: True
    show ?thesis
    proof (cases wk)
      case None
      with step follows AbortSending running wake content rests show ?thesis
        by (intro exI [of _ "[]"])
          (auto simp: actor_step_def actor_abort_def follows_def posted_by_def arrival_def ready_wake_def)
    next
      case (Some k)
      then obtain s where "halt sends (ac_state act) k now = Some s"
        and "act' = actor_abort (act\<lparr>ac_state := s, ac_commands := q\<rparr>)"
        using step AbortSending running wake by (auto simp: actor_step_def)
      with follows running is_cut have "follows (wks @ [(k, now)]) act'" and "ac_commands act' = q"
        by (auto simp: follows_def actor_abort_def)
      with content Some AbortSending running show ?thesis
        by (intro exI [of _ "[(k, now)]"]) (simp add: posted_by_def arrival_def del: commands_of.simps)
    qed
  qed
qed

text \<open>Whatever the interleaving: the commands are handled in the order the channel accepted them, each
  once, and the datagrams and ticks in the order they came, all of them as long as the loop runs.\<close>

lemma run_follows:
  assumes "actor_run pass halt post fetch act es = Some (posted, act')" and "fifo content post fetch"
    and "follows wks act"
  shows "\<exists>new. follows (wks @ new) act' \<and>
    commands_of new @ content (ac_commands act') = content (ac_commands act) @ posted \<and>
    prefix (others_of new) (arrivals es) \<and> (ac_running act' \<longrightarrow> others_of new = arrivals es) \<and>
    (\<not> ac_running act \<longrightarrow> new = [] \<and> \<not> ac_running act')"
  using assms(1,3)
proof (induction es arbitrary: act posted wks)
  case Nil
  then show ?case by (intro exI [of _ "[]"]) (auto simp: arrivals_def)
next
  case (Cons e es)
  from Cons.prems(1) obtain act1 rest where step: "actor_step pass halt post fetch act e = Some act1"
    and run: "actor_run pass halt post fetch act1 es = Some (rest, act')"
    and posted: "posted = posted_by post (ac_commands act) e @ rest"
    by (auto simp: bind_eq_Some_iff)
  from step_follows [OF step assms(2) Cons.prems(2)] obtain new1 where
    one: "follows (wks @ new1) act1"
      "commands_of new1 @ content (ac_commands act1) = content (ac_commands act) @ posted_by post (ac_commands act) e"
      "if ac_running act then others_of new1 = arrival e else new1 = [] \<and> \<not> ac_running act1" by blast
  from Cons.IH [OF run one(1)] obtain new where
    more: "follows (wks @ new1 @ new) act'"
      "commands_of new @ content (ac_commands act') = content (ac_commands act1) @ rest"
      "prefix (others_of new) (arrivals es)" "ac_running act' \<longrightarrow> others_of new = arrivals es"
      "\<not> ac_running act1 \<longrightarrow> new = [] \<and> \<not> ac_running act'" by auto
  have "commands_of (new1 @ new) @ content (ac_commands act') = content (ac_commands act) @ posted"
    using one(2) more(2) posted by (metis append_assoc commands_of_append)
  with one more show ?case
    by (intro exI [of _ "new1 @ new"]) (cases "ac_running act"; auto simp: arrivals_def)
qed

end

section \<open>The contract holds of both loops\<close>

text \<open>A loop that goes on has served its wakes, and goes on as the loop from the start would.\<close>

definition loop_live ::
    "(('a multiplexer \<times> 'w \<times> 'e list) \<Rightarrow> ('a, 'c) wake \<Rightarrow> instant \<Rightarrow>
       (('a multiplexer \<times> 'w \<times> 'e list) \<times> bool) option) \<Rightarrow>
     ('a mux_op list \<Rightarrow> 'a multiplexer \<times> 'w \<times> 'e list \<Rightarrow> bool) \<Rightarrow>
     ((('a, 'c) wake \<times> instant) list \<Rightarrow> 'a mux_op list) \<Rightarrow> nat \<Rightarrow> 'a multiplexer \<times> 'w \<times> 'e list \<Rightarrow>
     (('a, 'c) wake \<times> instant) list \<Rightarrow> 'a multiplexer \<times> 'w \<times> 'e list \<Rightarrow> bool" where
  "loop_live pass done_all ops capacity s0 wks s \<longleftrightarrow>
     done_all (ops wks) s \<and> length (snd (snd s)) \<le> capacity \<and>
     (\<forall>more. pass_loop pass s0 (wks @ more) = pass_loop pass s more)"

context drive_ops
begin

lemma contract:
  "actor_contract (loop_pass wakes to ev send capacity) (loop_cut wakes to ev send capacity)
     (loop_live (loop_pass wakes to ev send capacity) (served inflate same_host to ev send m0 w0)
        (\<lambda>wks. pre @ wake_ops origin cop wks) capacity s0)
     (\<lambda>wks. served_partly inflate same_host to ev send m0 w0 (pre @ wake_ops origin cop wks))"
proof
  fix wks s wk now s'
  let ?live = "loop_live (loop_pass wakes to ev send capacity) (served inflate same_host to ev send m0 w0)
    (\<lambda>wks. pre @ wake_ops origin cop wks) capacity s0"
  assume live: "?live wks s"
  then have served: "served inflate same_host to ev send m0 w0 (pre @ wake_ops origin cop wks) s"
    and room: "length (snd (snd s)) \<le> capacity" by (simp_all add: loop_live_def)
  show "served_partly inflate same_host to ev send m0 w0 (pre @ wake_ops origin cop wks) s"
    by (rule served_partly_all [OF served])
  note serves = pass_serves [OF served room, of wk now s']
  show "?live (wks @ [(wk, now)]) s'" if "loop_pass wakes to ev send capacity s wk now = Some (s', True)"
    using serves [OF that] live that by (simp add: loop_live_def)
  show "served_partly inflate same_host to ev send m0 w0 (pre @ wake_ops origin cop (wks @ [(wk, now)])) s'"
    if "loop_pass wakes to ev send capacity s wk now = Some (s', False)"
    using serves [OF that] by simp
  show "served_partly inflate same_host to ev send m0 w0 (pre @ wake_ops origin cop (wks @ [(wk, now)])) s'"
    if "loop_cut wakes to ev send capacity sends s wk now = Some s'" for sends
    using cut_serves [OF served room that] by simp
qed

end

interpretation server_actor: actor_contract
  "server_pass inflate same_host send capacity" "server_cut inflate same_host send capacity"
  "loop_live (server_pass inflate same_host send capacity)
     (served inflate same_host id id send (mux_new config) w0) (wake_ops id command_op) capacity
     (mux_new config, w0, [])"
  "\<lambda>wks. served_partly inflate same_host id id send (mux_new config) w0 (wake_ops id command_op wks)"
  for inflate same_host send capacity config w0
  unfolding server_pass_loop server_cut_loop
  by (rule server_loop.contract [where pre = "[]", unfolded append_Nil])

text \<open>A client addresses every datagram to its server and drops the address of every event.\<close>

abbreviation client_ops ::
    "'a \<Rightarrow> instant \<Rightarrow> (('a, ClientCommand) wake \<times> instant) list \<Rightarrow> 'a mux_op list" where
  "client_ops server now wks \<equiv>
     [MuxConnect server now] @ wake_ops (\<lambda>_. server) (client_command_op server) wks"

interpretation client_actor: actor_contract
  "client_pass inflate same_host send capacity server" "client_cut inflate same_host send capacity server"
  "loop_live (client_pass inflate same_host send capacity server)
     (served inflate same_host (\<lambda>d. (server, snd d)) client_event send (mux_new config) w0)
     (client_ops server now) capacity s0"
  "\<lambda>wks. served_partly inflate same_host (\<lambda>d. (server, snd d)) client_event send (mux_new config) w0
     (client_ops server now wks)"
  for inflate same_host send capacity server config w0 now s0
  unfolding client_pass_loop client_cut_loop by (rule client_loop.contract)

section \<open>Actors do not panic\<close>

definition stimulus_crc_ok :: "('a, 'c) stimulus \<Rightarrow> bool" where
  "stimulus_crc_ok e \<longleftrightarrow> (\<forall>wk\<in>set (arrival e). wake_crc_ok (fst wk :: ('a, 'c) wake))"

lemma actor_wake_ok:
  assumes "actor_wake fetch q b = (Some wk, q')" and "\<forall>k\<in>set (ready_wake b now). wake_crc_ok (fst k)"
  shows "wake_crc_ok wk"
  using assms by (cases b) (auto simp: actor_wake_def ready_wake_def wake_crc_ok_def map_prod_def split: prod.splits)

lemma actor_run_total:
  assumes pass: "\<And>s wk now. good s \<Longrightarrow> wake_crc_ok wk \<Longrightarrow> \<exists>s' again. pass s wk now = Some (s', again) \<and> good s'"
    and halt: "\<And>sends s wk now. good s \<Longrightarrow> wake_crc_ok wk \<Longrightarrow> \<exists>s'. halt sends s wk now = Some s' \<and> good s'"
  shows "good (ac_state act) \<Longrightarrow> \<forall>e\<in>set es. stimulus_crc_ok e \<Longrightarrow>
    \<exists>posted act'. actor_run pass halt post fetch act es = Some (posted, act')"
proof (induction es arbitrary: act)
  case (Cons e es)
  have crc: "stimulus_crc_ok e" using Cons.prems(2) by simp
  have "\<exists>act1. actor_step pass halt post fetch act e = Some act1 \<and> good (ac_state act1)"
  proof (cases e)
    case (Ready b now)
    obtain wk q where wake: "actor_wake fetch (ac_commands act) b = (wk, q)"
      by (cases "actor_wake fetch (ac_commands act) b")
    show ?thesis
    proof (cases wk)
      case (Some k)
      have "wake_crc_ok k"
        using actor_wake_ok [OF wake [unfolded Some], of now] crc Ready
        by (simp add: stimulus_crc_ok_def arrival_def)
      from pass [OF Cons.prems(1) this, of now] Ready wake Some Cons.prems(1) show ?thesis
        by (auto simp: actor_step_def)
    qed (use Ready wake Cons.prems(1) in \<open>simp add: actor_step_def\<close>)
  next
    case (AbortSending sends b now)
    obtain wk q where wake: "actor_wake fetch (ac_commands act) b = (wk, q)"
      by (cases "actor_wake fetch (ac_commands act) b")
    show ?thesis
    proof (cases wk)
      case (Some k)
      have "wake_crc_ok k"
        using actor_wake_ok [OF wake [unfolded Some], of now] crc AbortSending
        by (simp add: stimulus_crc_ok_def arrival_def)
      from halt [OF Cons.prems(1) this, of sends now] AbortSending wake Some Cons.prems(1) show ?thesis
        by (auto simp: actor_step_def actor_abort_def)
    qed (use AbortSending wake Cons.prems(1) in \<open>simp add: actor_step_def actor_abort_def\<close>)
  qed (use Cons.prems(1) in \<open>simp_all add: actor_step_def actor_abort_def\<close>)
  then obtain act1 where "actor_step pass halt post fetch act e = Some act1" "good (ac_state act1)" by blast
  with Cons.IH [of act1] Cons.prems(2) show ?case by fastforce
qed simp

section \<open>A client serves its multiplexer\<close>

lemma connect_quiet:
  assumes "mux_connect (mux_new config) server now = Some m"
  shows "mx_events m = []"
proof -
  let ?n = "new_session (mux_new config :: 'a multiplexer) Client now"
  have "ss_state ?n = Negotiating" "ss_mode ?n = Client" by (simp_all add: new_session_def session_new_def)
  from client_requests [OF this] assms show ?thesis
    by (auto simp: connect_eq drain_session_def drain_into_eq set_session_def mux_new_def drained_events_def
        new_session_def session_new_def push_outgoing_def)
qed

lemma client_actor_serves:
  assumes "fifo content post fetch" and "content q = []" and "0 < tick_period"
    and "room_ok (default_session_params config)" and "\<forall>e\<in>set es. stimulus_crc_ok e"
  shows "\<exists>act0 posted act wks m dgs evs.
    client_connect send server config tick_period q w now = Some act0 \<and>
    actor_run (client_pass inflate same_host send capacity server)
      (client_cut inflate same_host send capacity server) post fetch act0 es = Some (posted, act) \<and>
    commands_of wks @ content (ac_commands act) = posted \<and> prefix (others_of wks) (arrivals es) \<and>
    collect inflate same_host (mux_new config) (client_ops server now wks) = Some (m, dgs, evs) \<and>
    (ac_running act \<longrightarrow> others_of wks = arrivals es \<and>
      ac_state act = (m, send_each send w (map (\<lambda>d. (server, snd d)) dgs), map client_event evs))"
proof -
  let ?pass = "client_pass inflate same_host send capacity server"
  let ?cut = "client_cut inflate same_host send capacity server"
  let ?to = "\<lambda>d. (server, snd d)"
  obtain m1 where m1: "mux_connect (mux_new config) server now = Some m1" "mux_safe m1"
    using mux_step_total [OF mux_safe_new [OF assms(4)], of "MuxConnect server now" inflate same_host]
    by (auto simp: crc_lengths_ok_def)
  let ?s0 = "(m1\<lparr>mx_outgoing := []\<rparr>, send_each send w (map ?to (mx_outgoing m1)), [] :: ClientEvent list)"
  let ?live = "loop_live ?pass (served inflate same_host ?to client_event send (mux_new config) w)
    (client_ops server now) capacity ?s0"
  let ?ended = "\<lambda>wks. served_partly inflate same_host ?to client_event send (mux_new config) w (client_ops server now wks)"
  let ?act0 = "\<lparr>ac_state = ?s0, ac_commands = q, ac_running = True\<rparr>"
  have bind: "client_connect send server config tick_period q w now = Some ?act0"
    using assms(3) m1 by (simp add: client_connect_def interval_def client_start_def mux_take_outgoing_def)
  have "\<exists>posted act. actor_run ?pass ?cut post fetch ?act0 es = Some (posted, act)"
    unfolding client_pass_loop client_cut_loop
    by (rule actor_run_total [of "\<lambda>s. mux_safe (fst s)", OF client_loop.pass_total client_loop.cut_total])
      (simp_all add: m1(2) assms(5))
  then obtain posted act where run: "actor_run ?pass ?cut post fetch ?act0 es = Some (posted, act)"
    by blast
  have "m1\<lparr>mx_outgoing := []\<rparr> = m1\<lparr>mx_outgoing := [], mx_events := []\<rparr>"
    using connect_quiet [OF m1(1)] by simp
  then have "served inflate same_host ?to client_event send (mux_new config) w (client_ops server now []) ?s0"
    using m1(1) connect_quiet [OF m1(1)] by (simp add: served_def)
  then have "actor_contract.follows ?live ?ended [] ?act0"
    unfolding client_actor.follows_def loop_live_def by simp
  from client_actor.run_follows [OF run assms(1) this] assms(2)
  obtain wks where follows: "actor_contract.follows ?live ?ended wks act"
    and wks: "commands_of wks @ content (ac_commands act) = posted" "prefix (others_of wks) (arrivals es)"
      "ac_running act \<longrightarrow> others_of wks = arrivals es" by auto
  from client_actor.follows_ended [OF follows] obtain m dgs evs
    where c: "collect inflate same_host (mux_new config) (client_ops server now wks) = Some (m, dgs, evs)"
    unfolding served_partly_def by blast
  have "ac_state act = (m, send_each send w (map ?to dgs), map client_event evs)" if "ac_running act"
  proof -
    have "?live wks (ac_state act)" by (rule client_actor.follows_live [OF follows that])
    with c show ?thesis unfolding loop_live_def served_def by auto
  qed
  with bind run wks c show ?thesis by blast
qed

section \<open>Properties\<close>


text \<open>A list as a channel whose handles are never all dropped.\<close>

definition list_post :: "('c list, 'c) post" where
  "list_post q c = (Inr (), q @ [c])"

definition list_fetch :: "('c list, 'c) fetch" where
  "list_fetch q = (case q of [] \<Rightarrow> (None, []) | c # q \<Rightarrow> (Some (Some c), q))"

lemma list_fifo: "fifo (\<lambda>q. q) list_post list_fetch"
  by (simp add: fifo_def list_post_def list_fetch_def is_ok_def split: list.split)


end
