(* ===== verification/Spec2Isabelle.thy ===== *)
theory Spec2Isabelle
  imports Soe_Pair_Correct Soe_Session_Early Soe_Flow_Run Soe_Hosts Soe_Sockets Soe_Handles
begin

text \<open>
  A verification development for the SOE protocol library, a Rust implementation of the UDP
  protocol of Sony Online Entertainment's games. The library is a stack of pure state machines:
  a caller feeds datagrams and the time in and takes datagrams, data and events out. The theories
  follow the stack from the bottom; a theory with the suffix \<open>_Run\<close>, or one named in the
  second half of an entry, holds lemmas and properties about the model before it.

  The model.
  \<^item> \<open>Soe_Prelude\<close>: machine integers as words, big-endian bytes, \<open>Result\<close> as a sum
    (\<open>?\<close> is \<open>and_then\<close>), a panic as \<open>None\<close> in the option monad, indexing and
    slicing that panic out of range. Instants and durations are nanoseconds as naturals.
  \<^item> \<open>Soe_Protocol\<close> (\<open>protocol.rs\<close>, \<open>constants.rs\<close>, \<open>error.rs\<close>),
    \<open>Soe_Utf8\<close> (the standard library's lossy decoding), \<open>Soe_Io\<close> (\<open>io.rs\<close>),
    \<open>Soe_Varint\<close> (\<open>varint.rs\<close>), \<open>Soe_Rc4\<close> (\<open>rc4.rs\<close>),
    \<open>Soe_Crc32_Table\<close> and \<open>Soe_Crc32\<close> (\<open>crc32/\<close>), \<open>Soe_Packets\<close>
    (\<open>packets.rs\<close>), \<open>Soe_Packet_Utils\<close> (\<open>packet_utils.rs\<close>).
  \<^item> \<open>Soe_Sequence\<close> (\<open>channel/mod.rs\<close>): sequences reconstructed from sixteen bits.
  \<^item> \<open>Soe_Output\<close> (\<open>channel/output.rs\<close>): the send queue, dispatch window, timeouts and
    acknowledgements of a reliable channel; \<open>Soe_Output_Run\<close> its runs.
  \<^item> \<open>Soe_Input\<close> (\<open>channel/input.rs\<close>): the receive window, stash, reassembly, bundles,
    decryption and acknowledgements; \<open>Soe_Input_Run\<close> its runs.
  \<^item> \<open>Soe_Reliable\<close>: the two channels joined by a network that loses, repeats, delays and
    reorders packets.
  \<^item> \<open>Soe_Flow\<close>: the same link with the acknowledgements on the network as well, each step at a
    time; \<open>Soe_Flow_Run\<close> when a flow recovers and when it stalls.
  \<^item> \<open>Soe_Session\<close> (\<open>session.rs\<close>): negotiation, dispatch, unreliable data, heartbeats,
    termination, over four channels in each direction.
  \<^item> \<open>Soe_Pair\<close>: two sessions joined by a network of datagrams; \<open>Soe_Pair_Run\<close> the
    simulation of its runs by flows, \<open>Soe_Pair_Correct\<close> what follows,
    \<open>Soe_Session_Plain\<close> and \<open>Soe_Pair_Demo\<close> concrete runs.
  \<^item> \<open>Soe_Multiplexer\<close> (\<open>socket.rs\<close>): sessions keyed by address, creation, remaps,
    draining, ticks; \<open>Soe_Multiplexer_Run\<close> its runs, \<open>Soe_Hosts\<close> two sockets on a network.
  \<^item> \<open>Soe_Drivers\<close> (\<open>drive\<close> of \<open>socket.rs\<close>, \<open>sync_rt.rs\<close>,
    \<open>tokio_rt.rs\<close>): the steps over a transport and the two actor loops over a schedule.
  \<^item> \<open>Soe_Sockets\<close> (\<open>sync_rt.rs\<close>, \<open>tokio_rt.rs\<close>): the sockets an application
    drives itself, with binding and every method of \<open>SoeSocket\<close>.
  \<^item> \<open>Soe_Handles\<close> (\<open>tokio_rt.rs\<close>): the handles, the actors they post commands to,
    binding, connecting and receiving events.

  Correspondence. A struct is a record, an enum a datatype; a \<open>&mut self\<close> method returns
  the new record, with the result of the method beside it. Fields of a record are prefixed where
  two components have a field of the same name (\<open>ss_\<close>, \<open>mx_\<close>, \<open>in_\<close>,
  \<open>out_\<close>), operations where two components have one (\<open>session_\<close>, \<open>mux_\<close>,
  \<open>input_\<close>, \<open>output_\<close>). An array of four lazily created channels is a list of
  options. The \<open>HashMap\<close> of sessions is an association list with distinct keys; reachable
  states may permute it at any time, since the map fixes no order. A long function is split where
  the code has a loop or a match arm; the map of the manifest names the lines.

  What the lemmas show.
  \<^item> Codecs (\<open>packet_codec\<close>, \<open>varint_scheme\<close>, \<open>stream_cipher\<close> are the contracts,
    interpreted for every packet, both schemes and RC4): what is written is read back, the
    table-driven CRC is the shift-register CRC, key schedule, transform and advance are RC4 as a
    reference cipher of its own states it, and a burst of errors is detected.
  \<^item> Reliable channels: the send window and the retransmit timeout stay in their bounds, a message
    is cut into packets that fit, acknowledgements remove what they acknowledge; over the
    unreliable network the receiver delivers a prefix of what was sent, everything once every
    packet has been held, and acknowledges only what it has. In a flow the sender hears only those
    acknowledgements: a packet leaves its queue only when the receiver has it, so that an empty
    queue means that everything has been delivered. With small windows and without
    \<open>acknowledge_all_data\<close> a flow can, from every instant on and whatever is lost, still deliver
    everything and empty its queue (\<open>flow_recovers\<close>), if the receiver has something it has not
    acknowledged or the sender may send something new (\<open>wakeable\<close>). When the window is full and its
    acknowledgements are lost, it stalls for ever (\<open>stalled\<close>, \<open>lost_acknowledgement_stalls\<close>),
    because the code answers no repetition after the acknowledgement delay. With
    \<open>acknowledge_all_data\<close> no tick acknowledges either, so recovery is not claimed there.
  \<^item> Sessions. \<open>session_handlers\<close> and \<open>session_machine\<close> (\<open>Soe_Session_Run\<close>) are
    the contracts by which an invariant of the leaf handlers holds of bundles nested to any depth,
    datagrams, ticks and sends. They are interpreted for the lifecycle automaton
    (\<open>Soe_Session_Life\<close>), well-formedness with no panic, and the same without a hypothesis
    on datagrams once the negotiation is over (\<open>Soe_Session_Safe\<close>). While a client negotiates, a
    SessionResponse with a check value longer than four bytes makes it panic at a later packet; such
    a datagram is excluded wherever a negotiation may be going on. \<open>unflushed\<close> is the
    contract of a view of the session that a flush does not change, \<open>fixed_view\<close> of one that no
    operation changes, which is a \<open>session_machine\<close>: the mode and the number of channels.
    \<open>Soe_Session_Wire\<close> puts two sessions on a wire: round trips of contextual and unreliable
    datagrams and the negotiation. \<open>Soe_Session_Early\<close> is about packets that arrive before the
    negotiation ends.
  \<^item> Pairs. A run of two sessions is any order of operations of either end: messages enqueued, ticks,
    terminations, datagrams of the peer. A message (\<open>message_ok\<close>) for a reliable channel is shorter
    than \<open>2 ^ 32 - 1\<close> bytes and, without a cipher, is not longer data that begins with the bytes
    00 19: the code accepts such data and delivers it as a bundle (\<open>bundle_delivers_buffers\<close>), so
    that no run with it can deliver what was enqueued. What an operation emits stays on the network
    for ever and may arrive any number of times, in any order, or never, as long as it is
    \<open>on_time\<close> (below). \<open>pair_rel\<close> relates a pair to one
    flow for each reliable channel and direction and says of every datagram on the network what it
    is; each stage of an operation is matched by steps of the flows. From the flows follow
    delivery in order and the meaning of an empty send queue; two negotiated sessions start a pair.
  \<^item> Sockets (\<open>Soe_Multiplexer_Run\<close>): every operation on one remote settles one session, from
    which follow isolation of the sessions, safety, and the lifecycle of each remote as long as no
    port remap is allowed and the application connects only to remotes without a session: a second
    connect replaces a session without closing it, and a remap moves one to another address without
    an event. Two sockets that have negotiated (\<open>sockets_negotiate\<close>) may go on to do anything with
    any other remotes, which may send them anything, remaps included: \<open>evolves\<close> says what an
    operation of a socket does for one remote, and by it the two sessions with each other run as a
    pair (\<open>sockets_refine_pair\<close>), so that what holds of pairs holds of the events the two
    applications take (\<open>Soe_Hosts\<close>). What the runs exclude (\<open>admitted\<close>) would end the pair: a new
    session between the two, a remap that names their session, data that is no message, and datagrams
    under the peer's address that the peer has not sent or that are not on time.
  \<^item> Drivers (\<open>Soe_Drivers_Run\<close>): driving over a transport that runs dry is the batch of the
    datagrams it hands over, one tick and the sends. \<open>drive_ops\<close>, interpreted for the server's and
    the client's loop, is the contract by which a loop performs the operations of its wakes, sends
    their datagrams and forwards their events. \<open>actor_contract\<close> (\<open>Soe_Handles\<close>), interpreted for
    both actors, takes this to the actors behind their handles: whatever the interleaving of commands
    posted, datagrams, ticks and an abort, at \<open>select!\<close> or at the \<open>send_to\<close> in the middle of a
    flush, they serve their multiplexer, with the commands in the order they were posted. Tokio's
    \<open>interval\<close> panics on a zero period, and so do the loops and the binding of the tokio socket.
    \<open>soe_socket\<close> (\<open>Soe_Sockets\<close>) is the trait of that name as a contract, interpreted for both
    sockets; a blocking socket refines the multiplexer, it panics only on the SessionResponse above,
    and a failed send costs other sessions their datagrams.

  Abstractions and bounds. Counters of statistics and the 64-bit sequences are unbounded; where
  16-bit sequences are reconstructed the theorems assume the true sequence below \<open>2 ^ 62\<close> and no
  datagram late by a block of 65536 sequences (\<open>timely\<close>, \<open>prompt\<close>, \<open>on_time\<close>): a data packet
  is on time until a block, less a window, has been sent on its channel (\<open>early_data_timely\<close>); an
  acknowledgement must not be a send window behind the highest sequence acknowledged, where the
  sender does misread it. A pair starts when both ends have negotiated, and takes out what a
  session has to send and to hand over after each operation. Its send windows are at most 32767.
  Buffer capacities and allocation are not modelled, nor is the depth of the stack: bundles nest
  to at most a third of the datagram's length. Loops are structural or have a measure; the
  receive loop of \<open>drive\<close>, which a transport may keep going for ever, is a partial function
  whose outer \<open>None\<close> is not returning. An abort of a client's task before it has sent its
  request is not modelled. Parameters stand for code outside the repository:
  \<open>inflate\<close> for the decompression crate, \<open>same_host\<close> for the address type
  (\<open>addr_same_host\<close> for socket addresses), receive and send functions for the operating system,
  a schedule for the runtime, posting and fetching for its channels. No property needs a law of
  \<open>inflate\<close>, \<open>same_host\<close> or of sending; the channels are first in, first out (\<open>fifo\<close>),
  receiving keeps to its buffer (\<open>recv_fits\<close>), and a transport that is driven hands over finitely
  many datagrams and keeps to the buffer as well (\<open>runs_dry\<close>).

  Not modelled: \<open>zlib.rs\<close> (two calls of an external crate), \<open>lib.rs\<close> (documentation,
  module declarations and re-exports), the texts of errors and log output, the calls of the operating
  system and the runtime themselves, the examples and the tests.
\<close>

end
